(* ===== verification/Bionic_Prelude.thy ===== *)
theory Bionic_Prelude
  imports Main "HOL-Library.Word"
begin

text \<open>
  Shared material of the development: names for the machine types of the LP64 ABI, the
  \<open>errno\<close> values the modelled code returns, facts about bit masks on words, and the
  interleaving semantics in which the synchronisation primitives run. A primitive is given
  by a function that maps a thread, the shared state and the thread's own control point to
  the list of its possible next steps; \<open>par_step\<close> lets any thread take one such step.
\<close>

unbundle bit_operations_syntax

named_theorems mask_simps \<open>masks and shifts on words, read as div and mod\<close>

type_synonym u8 = "8 word"
type_synonym u16 = "16 word"
type_synonym u32 = "32 word"
type_synonym u64 = "64 word"
type_synonym tid = "32 word"

section \<open>Error numbers\<close>

abbreviation EPERM :: int where "EPERM \<equiv> 1"
abbreviation EINTR :: int where "EINTR \<equiv> 4"
abbreviation EAGAIN :: int where "EAGAIN \<equiv> 11"
abbreviation ENOMEM :: int where "ENOMEM \<equiv> 12"
abbreviation EBUSY :: int where "EBUSY \<equiv> 16"
abbreviation EINVAL :: int where "EINVAL \<equiv> 22"
abbreviation ERANGE :: int where "ERANGE \<equiv> 34"
abbreviation EDEADLK :: int where "EDEADLK \<equiv> 35"
abbreviation ENOSYS :: int where "ENOSYS \<equiv> 38"
abbreviation EOVERFLOW :: int where "EOVERFLOW \<equiv> 75"
abbreviation EILSEQ :: int where "EILSEQ \<equiv> 84"
abbreviation ETIMEDOUT :: int where "ETIMEDOUT \<equiv> 110"

section \<open>Machine words as numbers\<close>

lemma unat_less_exp [simp]:
  "unat (a :: u8) < 256" "unat (b :: u16) < 65536"
  "unat (c :: u32) < 4294967296" "unat (d :: u64) < 18446744073709551616"
  using unsigned_less [of a, where 'a = nat] unsigned_less [of b, where 'a = nat]
    unsigned_less [of c, where 'a = nat] unsigned_less [of d, where 'a = nat] by simp_all

lemma unat_of_nat_small:
  "n < 2 ^ LENGTH('a) \<Longrightarrow> unat (of_nat n :: 'a::len word) = n"
  by (simp add: unat_of_nat take_bit_eq_mod)

lemma unat_ucast_mod:
  "unat (ucast (w :: 'a::len word) :: 'b::len word) = unat w mod 2 ^ LENGTH('b)"
  by (simp add: unsigned_ucast_eq take_bit_eq_mod)

lemma unat_ucast_u8_u32 [simp]: "unat (ucast (b :: u8) :: u32) = unat b"
proof -
  have "unat b < 2 ^ LENGTH(32)" by (rule order.strict_trans [OF unat_less_exp(1)]) simp
  then show ?thesis by (simp only: unat_ucast_mod mod_less)
qed

section \<open>Masks and shifts\<close>

lemma unat_and_mask [mask_simps]: "unat (w AND mask n) = unat w mod 2 ^ n"
  by (simp only: unsigned_take_bit_eq take_bit_nat_eq flip: take_bit_eq_mask)
    (simp only: take_bit_eq_mod)

lemma unat_drop_bit [mask_simps]: "unat (drop_bit n w) = unat w div 2 ^ n"
  by (simp only: unat_drop_bit_eq) (simp only: drop_bit_eq_div)

lemma or_eq_add_word:
  fixes a b :: "'a::len word"
  assumes "a AND b = 0"
  shows "a OR b = a + b"
  using disjunctive_add_eq_or [OF assms] by simp

lemma unat_and_not_mask [mask_simps]:
  fixes w :: "'a::len word"
  shows "unat (w AND NOT (mask n)) = unat w div 2 ^ n * 2 ^ n"
proof -
  have "w = (w AND NOT (mask n)) + (w AND mask n)"
    by (subst disjunctive_add_eq_or) (auto simp: bit_eq_iff bit_simps)
  then have "w AND NOT (mask n) = w - (w AND mask n)"
    by (simp add: algebra_simps)
  moreover have "unat (w AND mask n) \<le> unat w"
    by (simp add: unat_and_mask)
  ultimately have "unat (w AND NOT (mask n)) = unat w - unat w mod 2 ^ n"
    by (simp only: unat_sub_if' unat_and_mask if_True)
  then show ?thesis
    by (simp add: minus_mod_eq_div_mult)
qed

lemma and_not_mask_eq_0:
  fixes w :: "'a::len word"
  shows "w AND NOT (mask n) = 0 \<longleftrightarrow> unat w < 2 ^ n"
  by (simp add: unat_and_not_mask word_unat_eq_iff div_eq_0_iff)

lemma or_push_bit_eq_add:
  fixes x z :: "'a::len word"
  assumes "unat x < 2 ^ n"
  shows "x OR push_bit n z = x + push_bit n z"
proof -
  have "x AND mask n = x"
    using assms by (simp only: word_unat_eq_iff unat_and_mask mod_less)
  then have "m < n" if "bit x m" for m
    using that by (metis bit_and_iff bit_mask_iff)
  then have "x AND push_bit n z = 0"
    by (force intro!: bit_eqI simp: bit_and_iff bit_push_bit_iff)
  then show ?thesis by (rule or_eq_add_word)
qed

lemma strip_high_bits:
  fixes x z :: "'a::len word"
  assumes "unat x < 2 ^ n"
  shows "(push_bit n z + x) AND NOT (push_bit n z) = x"
proof -
  have "x AND mask n = x"
    using assms by (simp only: word_unat_eq_iff unat_and_mask mod_less)
  then have "m < n" if "bit x m" for m
    using that by (metis bit_and_iff bit_mask_iff)
  moreover have "push_bit n z + x = x OR push_bit n z"
    using or_push_bit_eq_add [OF assms, of z] by (simp add: add.commute)
  ultimately show ?thesis
    by (force intro!: bit_eqI simp: bit_and_iff bit_or_iff bit_not_iff bit_push_bit_iff bit_imp_le_length)
qed

section \<open>Prefix codes\<close>

text \<open>
  The contract of a character encoding: decoding the encoding of a character, whatever
  follows it, gives the character and the number of units it took. Encoded strings are then
  uniquely decodable.
\<close>

locale prefix_codec =
  fixes enc :: "'c \<Rightarrow> 'b list" and dec :: "'b list \<Rightarrow> ('c \<times> nat) option" and valid :: "'c \<Rightarrow> bool"
  assumes dec_enc: "valid c \<Longrightarrow> dec (enc c @ r) = Some (c, length (enc c))"
    and enc_nonempty: "enc c \<noteq> []"
begin

lemma enc_prefix_free:
  assumes "valid c" "valid d" "enc c @ r = enc d @ q"
  shows "c = d \<and> r = q"
proof -
  have "Some (c, length (enc c)) = Some (d, length (enc d))"
    using dec_enc [OF assms(1), of r] dec_enc [OF assms(2), of q] unfolding assms(3) by (rule trans [OF sym])
  then have "c = d" by simp
  with assms(3) show ?thesis by simp
qed

lemma string_inj:
  "list_all valid cs \<Longrightarrow> list_all valid ds \<Longrightarrow> concat (map enc cs) = concat (map enc ds) \<Longrightarrow> cs = ds"
proof (induction cs arbitrary: ds)
  case Nil
  then show ?case by (cases ds) (auto simp: enc_nonempty)
next
  case (Cons c cs)
  obtain d ds' where ds: "ds = d # ds'"
    using Cons.prems(3) by (cases ds) (simp_all add: enc_nonempty)
  have "c = d \<and> concat (map enc cs) = concat (map enc ds')"
    using Cons.prems by (intro enc_prefix_free) (simp_all add: ds)
  with Cons.prems Cons.IH [of ds'] show ?case by (simp add: ds)
qed

end

section \<open>Interleaving of threads\<close>

type_synonym ('g, 'l) thread_step = "tid \<Rightarrow> 'g \<Rightarrow> 'l \<Rightarrow> ('g \<times> 'l) list"
type_synonym ('g, 'l) sys = "'g \<times> (tid \<Rightarrow> 'l)"

inductive par_step :: "('g, 'l) thread_step \<Rightarrow> ('g, 'l) sys \<Rightarrow> ('g, 'l) sys \<Rightarrow> bool"
  for f :: "('g, 'l) thread_step" where
  thread: "(g', l') \<in> set (f t g (ls t)) \<Longrightarrow> par_step f (g, ls) (g', ls(t := l'))"

inductive par_reach :: "('g, 'l) thread_step \<Rightarrow> ('g, 'l) sys \<Rightarrow> ('g, 'l) sys \<Rightarrow> bool"
  for f :: "('g, 'l) thread_step" and s0 :: "('g, 'l) sys" where
  start: "par_reach f s0 s0"
| step: "par_reach f s0 s \<Longrightarrow> par_step f s s' \<Longrightarrow> par_reach f s0 s'"

text \<open>A schedule names the thread to step and which of its outcomes to take.\<close>

fun par_run ::
  "('g, 'l) thread_step \<Rightarrow> ('g, 'l) sys \<Rightarrow> (tid \<times> nat) list \<Rightarrow> ('g, 'l) sys option" where
  "par_run f s [] = Some s"
| "par_run f (g, ls) ((t, i) # sched) =
     (let outs = f t g (ls t) in
      if i < length outs then par_run f (fst (outs ! i), ls(t := snd (outs ! i))) sched else None)"

lemma par_reach_trans: "par_reach f s0 s1 \<Longrightarrow> par_reach f s s0 \<Longrightarrow> par_reach f s s1"
  by (induction rule: par_reach.induct) (auto intro: par_reach.step)

lemma par_run_reach: "par_run f s0 sched = Some s \<Longrightarrow> par_reach f s0 s"
proof (induction f s0 sched rule: par_run.induct)
  case (1 f s)
  then show ?case by (simp add: par_reach.start)
next
  case (2 f g ls t i sched)
  let ?o = "f t g (ls t) ! i"
  have i: "i < length (f t g (ls t))"
    using 2(2) by (simp only: par_run.simps Let_def option.distinct split: if_splits)
  then have "(fst ?o, snd ?o) \<in> set (f t g (ls t))" by simp
  then have st: "par_step f (g, ls) (fst ?o, ls(t := snd ?o))" by (rule par_step.thread)
  have "par_run f (fst ?o, ls(t := snd ?o)) sched = Some s"
    using 2(2) i by (simp only: par_run.simps Let_def if_True)
  from "2.IH" [OF refl i this] show ?case
    by (rule par_reach_trans) (rule par_reach.step [OF par_reach.start st])
qed

text \<open>
  The contract every concurrent component establishes: an invariant of the initial
  states that each step of each thread keeps. Reachability facts are proved once here.
\<close>

locale par_invariant =
  fixes f :: "('g, 'l) thread_step"
    and I :: "'g \<Rightarrow> (tid \<Rightarrow> 'l) \<Rightarrow> bool"
  assumes step_inv: "I g ls \<Longrightarrow> (g', l') \<in> set (f t g (ls t)) \<Longrightarrow> I g' (ls(t := l'))"
begin

lemma par_step_inv: "par_step f s s' \<Longrightarrow> I (fst s) (snd s) \<Longrightarrow> I (fst s') (snd s')"
  by (erule par_step.cases) (auto intro: step_inv)

lemma par_reach_inv: "par_reach f s0 s \<Longrightarrow> I (fst s0) (snd s0) \<Longrightarrow> I (fst s) (snd s)"
  by (induction rule: par_reach.induct) (auto intro: par_step_inv)

end

text \<open>
  A decomposition of such an invariant. The ghost value \<open>h\<close> says who is inside the component;
  \<open>G\<close> ties it to the shared state and \<open>L\<close> to the local state of one thread. A step may choose
  a new ghost value as long as the claims of the other threads stay true.
\<close>

locale par_ghost =
  fixes f :: "('g, 'l) thread_step"
    and G :: "'h \<Rightarrow> 'g \<Rightarrow> bool"
    and L :: "'h \<Rightarrow> tid \<Rightarrow> 'l \<Rightarrow> bool"
  assumes ghost_step: "G h g \<Longrightarrow> L h t l \<Longrightarrow> (g', l') \<in> set (f t g l) \<Longrightarrow>
    \<exists>h'. G h' g' \<and> L h' t l' \<and> (\<forall>u m. u \<noteq> t \<longrightarrow> L h u m \<longrightarrow> L h' u m)"
begin

lemma ghost_inv: "par_invariant f (\<lambda>g ls. \<exists>h. G h g \<and> (\<forall>t. L h t (ls t)))"
proof
  fix g ls g' l' t
  assume "\<exists>h. G h g \<and> (\<forall>t. L h t (ls t))" and st: "(g', l') \<in> set (f t g (ls t))"
  then obtain h where "G h g" and L: "\<And>t. L h t (ls t)" by blast
  from ghost_step [OF \<open>G h g\<close> L st] obtain h' where "G h' g'" "L h' t l'"
    and "\<And>u m. u \<noteq> t \<Longrightarrow> L h u m \<Longrightarrow> L h' u m" by blast
  with L have "L h' u ((ls(t := l')) u)" for u by simp
  with \<open>G h' g'\<close> show "\<exists>h. G h g' \<and> (\<forall>u. L h u ((ls(t := l')) u))" by blast
qed

lemma ghost_reach:
  assumes "par_reach f (g0, ls0) (g, ls)" "G h0 g0" "\<And>t. L h0 t (ls0 t)"
  obtains h where "G h g" "\<And>t. L h t (ls t)"
proof -
  have "\<exists>h. G h g0 \<and> (\<forall>t. L h t (ls0 t))" using assms(2,3) by blast
  with par_invariant.par_reach_inv [OF ghost_inv assms(1)] show thesis by (auto intro: that)
qed

end

text \<open>
  Refinement of one system by another: every step of the detailed one is a step of the abstract
  one, or none at all, on the abstracted states.
\<close>

locale par_simulation =
  fixes f :: "('g, 'l) thread_step"
    and F :: "('G, 'L) thread_step"
    and ga :: "'g \<Rightarrow> 'G"
    and la :: "'l \<Rightarrow> 'L"
  assumes sim: "(g', l') \<in> set (f t g l) \<Longrightarrow>
    (ga g', la l') \<in> set (F t (ga g) (la l)) \<or> ga g' = ga g \<and> la l' = la l"
begin

lemma reach_sim:
  "par_reach f s0 s \<Longrightarrow> par_reach F (ga (fst s0), la \<circ> snd s0) (ga (fst s), la \<circ> snd s)"
proof (induction rule: par_reach.induct)
  case start
  then show ?case by (rule par_reach.start)
next
  case (step s s')
  from step.hyps(2) obtain g ls t g' l' where s: "s = (g, ls)" "s' = (g', ls(t := l'))"
    and st: "(g', l') \<in> set (f t g (ls t))" by (auto elim: par_step.cases)
  have upd: "la \<circ> ls(t := l') = (la \<circ> ls)(t := la l')" by (rule fun_upd_comp)
  from sim [OF st] show ?case
  proof
    assume "(ga g', la l') \<in> set (F t (ga g) (la (ls t)))"
    then have "par_step F (ga g, la \<circ> ls) (ga g', (la \<circ> ls)(t := la l'))"
      by (intro par_step.thread) simp
    with step.IH show ?thesis by (simp only: s fst_conv snd_conv upd) (rule par_reach.step)
  next
    assume "ga g' = ga g \<and> la l' = la (ls t)"
    then have "ga g' = ga g" "la \<circ> ls(t := l') = la \<circ> ls" by (simp_all add: upd fun_upd_idem)
    with step.IH show ?thesis by (simp only: s fst_conv snd_conv)
  qed
qed

end

end
