(* ===== verification/Uchar.thy ===== *)
theory Uchar
  imports Bionic_Prelude
begin

text \<open>
  Multibyte conversion: \<open>libc/private/bionic_mbstate.h\<close>, \<open>mbrtoc32.cpp\<close>, \<open>c32rtomb.cpp\<close>,
  \<open>mbrtoc16.cpp\<close>, \<open>c16rtomb.cpp\<close> and the string functions of \<open>wchar.cpp\<close>.
  The conversion state is the four bytes of \<open>mbstate_t\<close>; a function returns its \<open>size_t\<close>
  result, the value it stores in \<open>errno\<close> (\<open>None\<close> when it leaves \<open>errno\<close> alone), the
  new state and what it stores through its output pointer. The input buffer is the list of
  readable bytes: a read past its end, or a write past the four bytes of the state, makes
  the whole result \<open>None\<close>.
\<close>

section \<open>The conversion state\<close>

record mbstate_t =
  seq0 :: u8
  seq1 :: u8
  seq2 :: u8
  seq3 :: u8

definition mb_initial :: mbstate_t where
  "mb_initial = \<lparr>seq0 = 0, seq1 = 0, seq2 = 0, seq3 = 0\<rparr>"

record 'a mb_out =
  mb_ret :: u64
  mb_errno :: "int option"
  mb_state :: mbstate_t
  mb_c :: "'a option"

abbreviation MB_ERR_ILLEGAL_SEQUENCE :: u64 where "MB_ERR_ILLEGAL_SEQUENCE \<equiv> - 1"
abbreviation MB_ERR_INCOMPLETE_SEQUENCE :: u64 where "MB_ERR_INCOMPLETE_SEQUENCE \<equiv> - 2"

definition mb_is_err :: "u64 \<Rightarrow> bool" where
  "mb_is_err rv \<longleftrightarrow> rv = MB_ERR_ILLEGAL_SEQUENCE \<or> rv = MB_ERR_INCOMPLETE_SEQUENCE"

definition mbsinit :: "mbstate_t option \<Rightarrow> bool" where
  "mbsinit p = (case p of None \<Rightarrow> True
     | Some ps \<Rightarrow> seq0 ps = 0 \<and> seq1 ps = 0 \<and> seq2 ps = 0 \<and> seq3 ps = 0)"

definition mbstate_bytes_so_far :: "mbstate_t \<Rightarrow> nat" where
  "mbstate_bytes_so_far ps =
     (if seq2 ps \<noteq> 0 then 3 else if seq1 ps \<noteq> 0 then 2 else if seq0 ps \<noteq> 0 then 1 else 0)"

text \<open>Only indices below 4 are in bounds; \<open>mbrtoc32_fill\<close> makes a larger one a failure.\<close>

definition mbstate_set_byte :: "mbstate_t \<Rightarrow> nat \<Rightarrow> u8 \<Rightarrow> mbstate_t" where
  "mbstate_set_byte ps i b =
     (if i = 0 then ps\<lparr>seq0 := b\<rparr> else if i = 1 then ps\<lparr>seq1 := b\<rparr>
      else if i = 2 then ps\<lparr>seq2 := b\<rparr> else if i = 3 then ps\<lparr>seq3 := b\<rparr> else ps)"

definition mbstate_get_byte :: "mbstate_t \<Rightarrow> nat \<Rightarrow> u8" where
  "mbstate_get_byte ps n =
     (if n = 0 then seq0 ps else if n = 1 then seq1 ps else if n = 2 then seq2 ps else seq3 ps)"

definition mbstate_reset_and_return_illegal :: "int \<Rightarrow> 'a mb_out" where
  "mbstate_reset_and_return_illegal e =
     \<lparr>mb_ret = MB_ERR_ILLEGAL_SEQUENCE, mb_errno = Some e, mb_state = mb_initial, mb_c = None\<rparr>"

text \<open>The parameter is an \<open>int\<close>: the value is truncated to 32 bits and sign-extended back.\<close>

definition mbstate_reset_and_return :: "u64 \<Rightarrow> 'a option \<Rightarrow> 'a mb_out" where
  "mbstate_reset_and_return r c =
     \<lparr>mb_ret = scast (ucast r :: u32), mb_errno = None, mb_state = mb_initial, mb_c = c\<rparr>"

section \<open>mbrtoc32\<close>

text \<open>The lead byte gives the mask of its payload bits, the length and the lower bound.\<close>

definition mbrtoc32_lead :: "u8 \<Rightarrow> (u32 \<times> nat \<times> u32) option" where
  "mbrtoc32_lead ch =
     (if ch AND 0x80 = 0 then Some (0x7f, 1, 0)
      else if ch AND 0xe0 = 0xc0 then Some (0x1f, 2, 0x80)
      else if ch AND 0xf0 = 0xe0 then Some (0x0f, 3, 0x800)
      else if ch AND 0xf8 = 0xf0 then Some (0x07, 4, 0x10000)
      else None)"

text \<open>The loop that fills the state; \<open>Inl\<close> is the early return on a bad continuation byte.\<close>

fun mbrtoc32_fill :: "mbstate_t \<Rightarrow> nat \<Rightarrow> nat \<Rightarrow> u8 list \<Rightarrow> (unit + mbstate_t) option" where
  "mbrtoc32_fill st pos k s =
     (if k = 0 then Some (Inr st)
      else case s of
          [] \<Rightarrow> None
        | b # s' \<Rightarrow>
            if \<not> mbsinit (Some st) \<and> b AND 0xc0 \<noteq> 0x80 then Some (Inl ())
            else if pos < 4 then mbrtoc32_fill (mbstate_set_byte st pos b) (pos + 1) (k - 1) s'
            else None)"

declare mbrtoc32_fill.simps [simp del]

definition mbrtoc32_decode :: "mbstate_t \<Rightarrow> u32 \<Rightarrow> nat \<Rightarrow> u32" where
  "mbrtoc32_decode st msk len =
     foldl (\<lambda>c32 i. push_bit 6 c32 OR (ucast (mbstate_get_byte st i) AND 0x3f))
       (ucast (mbstate_get_byte st 0) AND msk) [1..<len]"

definition mbrtoc32 ::
  "bool \<Rightarrow> u8 list option \<Rightarrow> u64 \<Rightarrow> mbstate_t \<Rightarrow> u32 mb_out option" where
  "mbrtoc32 pc32 src cnt st =
     (if mbstate_get_byte st 3 \<noteq> 0 then Some (mbstate_reset_and_return_illegal EINVAL)
      else
        let (s, n, pc) = (case src of None \<Rightarrow> ([0], 1, False) | Some s \<Rightarrow> (s, cnt, pc32)) in
        if n = 0 then Some \<lparr>mb_ret = 0, mb_errno = None, mb_state = st, mb_c = None\<rparr>
        else case s of
            [] \<Rightarrow> None
          | c0 # _ \<Rightarrow>
              if mbsinit (Some st) \<and> c0 AND NOT 0x7f = 0 then
                Some \<lparr>mb_ret = (if c0 \<noteq> 0 then 1 else 0), mb_errno = None, mb_state = st,
                       mb_c = (if pc then Some (ucast c0) else None)\<rparr>
              else
                let bytes_so_far = mbstate_bytes_so_far st;
                    ch = (if bytes_so_far > 0 then mbstate_get_byte st 0 else c0) in
                case mbrtoc32_lead ch of
                  None \<Rightarrow> Some (mbstate_reset_and_return_illegal EILSEQ)
                | Some (msk, len, lower_bound) \<Rightarrow>
                    let bytes_wanted = (of_nat len - of_nat bytes_so_far :: u64);
                        i = min bytes_wanted n in
                    case mbrtoc32_fill st bytes_so_far (unat i) s of
                      None \<Rightarrow> None
                    | Some (Inl _) \<Rightarrow> Some (mbstate_reset_and_return_illegal EILSEQ)
                    | Some (Inr st') \<Rightarrow>
                        if i < bytes_wanted then
                          Some \<lparr>mb_ret = MB_ERR_INCOMPLETE_SEQUENCE, mb_errno = None,
                                 mb_state = st', mb_c = None\<rparr>
                        else
                          let c32 = mbrtoc32_decode st' msk len in
                          if c32 < lower_bound then Some (mbstate_reset_and_return_illegal EILSEQ)
                          else if (c32 \<ge> 0xd800 \<and> c32 \<le> 0xdfff) \<or> c32 > 0x10ffff then
                            Some (mbstate_reset_and_return_illegal EILSEQ)
                          else Some (mbstate_reset_and_return
                                 (if c32 = 0 then 0 else bytes_wanted)
                                 (if pc then Some c32 else None)))"

section \<open>c32rtomb\<close>

fun c32rtomb_tail :: "nat \<Rightarrow> u32 \<Rightarrow> u8 list \<Rightarrow> u32 \<times> u8 list" where
  "c32rtomb_tail 0 c32 s = (c32, s)"
| "c32rtomb_tail (Suc i) c32 s =
     c32rtomb_tail i (drop_bit 6 c32) ((ucast (c32 AND 0x3f) OR 0x80) # s)"

text \<open>The argument \<open>s\<close> says whether the output pointer is non-null.\<close>

definition c32rtomb :: "bool \<Rightarrow> u32 \<Rightarrow> mbstate_t \<Rightarrow> u8 list mb_out" where
  "c32rtomb s c32 st =
     (if \<not> s then mbstate_reset_and_return 1 None
      else if c32 = 0 then mbstate_reset_and_return 1 (Some [0])
      else if \<not> mbsinit (Some st) then mbstate_reset_and_return_illegal EILSEQ
      else if c32 AND NOT 0x7f = 0 then
        \<lparr>mb_ret = 1, mb_errno = None, mb_state = st, mb_c = Some [ucast c32]\<rparr>
      else
        let found =
          (if c32 AND NOT 0x7f = 0 then Some (0, 1)
           else if c32 AND NOT 0x7ff = 0 then Some (0xc0, 2)
           else if c32 AND NOT 0xffff = 0 then Some (0xe0, 3)
           else if c32 AND NOT 0x1fffff = 0 then Some (0xf0, 4)
           else None) in
        case found of
          None \<Rightarrow> \<lparr>mb_ret = MB_ERR_ILLEGAL_SEQUENCE, mb_errno = Some EILSEQ, mb_state = st,
                   mb_c = None\<rparr>
        | Some (lead, len) \<Rightarrow>
            let (c', tl) = c32rtomb_tail (len - 1) c32 [] in
            \<lparr>mb_ret = of_nat len, mb_errno = None, mb_state = st,
             mb_c = Some ((ucast (c' AND 0xff) OR lead) # tl)\<rparr>)"


section \<open>Reference encoding\<close>

text \<open>
  \<open>utf8_bytes\<close> is the UTF-8 encoding of a code point, on natural numbers, and \<open>utf8_length\<close> the number of bytes
  that a first byte announces, zero for a byte that cannot be the first. \<open>mb_of\<close> is the state that
  holds the bytes of an unfinished character (\<open>mb_prefix\<close>): fewer bytes than announced, with
  continuation bytes after the first. \<open>utf8_scan\<close> is a step of the proofs only: it decodes
  the first character of a byte list that is given as a whole with the code's table.
\<close>

definition utf8_bytes :: "nat \<Rightarrow> u8 list" where
  "utf8_bytes c =
     (if c < 0x80 then [of_nat c]
      else if c < 0x800 then [of_nat (0xc0 + c div 64), of_nat (0x80 + c mod 64)]
      else if c < 0x10000 then
        [of_nat (0xe0 + c div 4096), of_nat (0x80 + c div 64 mod 64), of_nat (0x80 + c mod 64)]
      else
        [of_nat (0xf0 + c div 262144), of_nat (0x80 + c div 4096 mod 64),
         of_nat (0x80 + c div 64 mod 64), of_nat (0x80 + c mod 64)])"

definition utf8_length :: "nat \<Rightarrow> nat" where
  "utf8_length b = (if b < 0x80 then 1 else if 0xc0 \<le> b \<and> b < 0xe0 then 2 else if 0xe0 \<le> b \<and> b < 0xf0 then 3
     else if 0xf0 \<le> b \<and> b < 0xf8 then 4 else 0)"

definition mb_cont :: "u8 \<Rightarrow> bool" where
  "mb_cont b \<longleftrightarrow> b AND 0xc0 = 0x80"

datatype utf8_outcome = Incomplete | Illegal | Decoded u32 nat

definition utf8_payload :: "u32 \<Rightarrow> u8 list \<Rightarrow> u32" where
  "utf8_payload = foldl (\<lambda>c b. push_bit 6 c OR (ucast b AND 0x3f))"

definition utf8_scan :: "u8 list \<Rightarrow> utf8_outcome" where
  "utf8_scan zs = (case zs of [] \<Rightarrow> Incomplete | l # cs \<Rightarrow>
     (case mbrtoc32_lead l of None \<Rightarrow> Illegal
      | Some (msk, len, lower) \<Rightarrow>
          if \<not> list_all mb_cont (take (len - 1) cs) then Illegal
          else if length cs < len - 1 then Incomplete
          else let c = utf8_payload (ucast l AND msk) (take (len - 1) cs) in
            if c < lower \<or> (0xd800 \<le> c \<and> c \<le> 0xdfff) \<or> 0x10ffff < c then Illegal
            else Decoded c len))"

definition mb_of :: "u8 list \<Rightarrow> mbstate_t" where
  "mb_of bs = \<lparr>seq0 = (if 0 < length bs then bs ! 0 else 0), seq1 = (if 1 < length bs then bs ! 1 else 0),
     seq2 = (if 2 < length bs then bs ! 2 else 0), seq3 = (if 3 < length bs then bs ! 3 else 0)\<rparr>"

definition mb_prefix :: "u8 list \<Rightarrow> bool" where
  "mb_prefix xs \<longleftrightarrow>
     xs = [] \<or> length xs < utf8_length (unat (hd xs)) \<and> list_all (\<lambda>b. 0x80 \<le> unat b \<and> unat b < 0xc0) (tl xs)"

definition mb_result :: "u8 list \<Rightarrow> u8 list \<Rightarrow> u32 mb_out" where
  "mb_result xs zs = (case utf8_scan zs of
      Incomplete \<Rightarrow> \<lparr>mb_ret = MB_ERR_INCOMPLETE_SEQUENCE, mb_errno = None, mb_state = mb_of zs, mb_c = None\<rparr>
    | Illegal \<Rightarrow> \<lparr>mb_ret = MB_ERR_ILLEGAL_SEQUENCE, mb_errno = Some EILSEQ, mb_state = mb_initial, mb_c = None\<rparr>
    | Decoded c len \<Rightarrow> \<lparr>mb_ret = (if c = 0 then 0 else of_nat (len - length xs)), mb_errno = None,
         mb_state = mb_initial, mb_c = Some c\<rparr>)"

definition scalar :: "nat \<Rightarrow> bool" where
  "scalar c \<longleftrightarrow> c \<le> 0x10ffff \<and> \<not> (0xd800 \<le> c \<and> c \<le> 0xdfff)"


section \<open>Bytes and masks\<close>

lemma byte_0x80: "(0x80::u8) = push_bit 7 1" by simp
lemma byte_0xc0: "(0xc0::u8) = push_bit 6 3" by simp
lemma byte_0xe0: "(0xe0::u8) = push_bit 5 7" by simp
lemma byte_0xf0: "(0xf0::u8) = push_bit 4 15" by simp

lemma masks: 
  "(0x7f::u8) = mask 7"  "(0x7f::u32) = mask 7" "(0x7ff::u32) = mask 11" "(0xffff::u32) = mask 16" "(0x1fffff::u32) = mask 21"
  "(0x3f::u32) = mask 6" "(0xff::u32) = mask 8"   "(0x1f::u32) = mask 5" "(0x0f::u32) = mask 4" "(0x07::u32) = mask 3"
  by (simp_all add: mask_numeral)

lemma tops: "(0x80::u8) = NOT (mask 7)" "(0xc0::u8) = NOT (mask 6)" "(0xe0::u8) = NOT (mask 5)" "(0xf0::u8) = NOT (mask 4)" "(0xf8::u8) = NOT (mask 3)"
  by (simp_all add: mask_numeral)

lemma div_eq_interval:
  fixes x k q :: nat
  assumes "0 < k"
  shows "x div k = q \<longleftrightarrow> q * k \<le> x \<and> x < Suc q * k"
  using assms div_less_iff_less_mult [of k x "Suc q"] less_eq_div_iff_mult_less_eq [of k q x]
  by (auto simp del: mult_Suc)

lemma byte_tests:
  fixes w :: u8
  shows "w AND 0x80 = 0 \<longleftrightarrow> unat w < 0x80"
    "w AND NOT 0x7f = 0 \<longleftrightarrow> unat w < 0x80"
    "w AND 0xc0 = 0x80 \<longleftrightarrow> 0x80 \<le> unat w \<and> unat w < 0xc0"
    "w AND 0xe0 = 0xc0 \<longleftrightarrow> 0xc0 \<le> unat w \<and> unat w < 0xe0"
    "w AND 0xf0 = 0xe0 \<longleftrightarrow> 0xe0 \<le> unat w \<and> unat w < 0xf0"
    "w AND 0xf8 = 0xf0 \<longleftrightarrow> 0xf0 \<le> unat w \<and> unat w < 0xf8"
proof -
  show "w AND 0x80 = 0 \<longleftrightarrow> unat w < 0x80"
    unfolding tops(1) and_not_mask_eq_0 by simp
  show "w AND NOT 0x7f = 0 \<longleftrightarrow> unat w < 0x80"
    unfolding masks(1) and_not_mask_eq_0 by simp
  have "unat (w AND 0xc0) = unat w div 64 * 64" unfolding tops unat_and_not_mask by simp
  then show "w AND 0xc0 = 0x80 \<longleftrightarrow> 0x80 \<le> unat w \<and> unat w < 0xc0"
    by (simp add: word_unat_eq_iff div_eq_interval)
  have "unat (w AND 0xe0) = unat w div 32 * 32" unfolding tops unat_and_not_mask by simp
  then show "w AND 0xe0 = 0xc0 \<longleftrightarrow> 0xc0 \<le> unat w \<and> unat w < 0xe0"
    by (simp add: word_unat_eq_iff div_eq_interval)
  have "unat (w AND 0xf0) = unat w div 16 * 16" unfolding tops unat_and_not_mask by simp
  then show "w AND 0xf0 = 0xe0 \<longleftrightarrow> 0xe0 \<le> unat w \<and> unat w < 0xf0"
    by (simp add: word_unat_eq_iff div_eq_interval)
  have "unat (w AND 0xf8) = unat w div 8 * 8" unfolding tops unat_and_not_mask by simp
  then show "w AND 0xf8 = 0xf0 \<longleftrightarrow> 0xf0 \<le> unat w \<and> unat w < 0xf8"
    by (simp add: word_unat_eq_iff div_eq_interval)
qed

lemma cont_byte: "(ucast (c AND 0x3f :: u32) OR 0x80 :: u8) = of_nat (0x80 + unat c mod 64)"
proof -
  have u: "unat (ucast (c AND 0x3f) :: u8) = unat c mod 64"
    unfolding masks by (simp add: unat_and_mask unat_ucast_mod)
  have m: "unat c mod 64 < 64" by simp
  have "ucast (c AND 0x3f) OR 0x80 = ucast (c AND 0x3f) + (0x80::u8)"
    unfolding byte_0x80 by (rule or_push_bit_eq_add) (use u m in simp)
  then show ?thesis
    using u m by (simp add: word_unat_eq_iff unat_word_ariths unat_of_nat)
qed

lemma lead_byte: 
  "unat c < 32 \<Longrightarrow> (ucast (c AND 0xff :: u32) OR 0xc0 :: u8) = of_nat (0xc0 + unat c)"
  "unat c < 16 \<Longrightarrow> (ucast (c AND 0xff :: u32) OR 0xe0 :: u8) = of_nat (0xe0 + unat c)"
  "unat c < 8 \<Longrightarrow> (ucast (c AND 0xff :: u32) OR 0xf0 :: u8) = of_nat (0xf0 + unat c)"
proof -
  have u: "unat (ucast (c AND 0xff) :: u8) = unat c mod 256"
    unfolding masks by (simp add: unat_and_mask unat_ucast_mod)
  { assume "unat c < 32"
    then have "ucast (c AND 0xff) OR 0xc0 = ucast (c AND 0xff) + (0xc0::u8)"
      unfolding byte_0xc0 by (intro or_push_bit_eq_add) (use u in simp)
    with u \<open>unat c < 32\<close> show "(ucast (c AND 0xff :: u32) OR 0xc0 :: u8) = of_nat (0xc0 + unat c)"
      by (simp add: word_unat_eq_iff unat_word_ariths unat_ucast_mod) }
  { assume "unat c < 16"
    then have "ucast (c AND 0xff) OR 0xe0 = ucast (c AND 0xff) + (0xe0::u8)"
      unfolding byte_0xe0 by (intro or_push_bit_eq_add) (use u in simp)
    with u \<open>unat c < 16\<close> show "(ucast (c AND 0xff :: u32) OR 0xe0 :: u8) = of_nat (0xe0 + unat c)"
      by (simp add: word_unat_eq_iff unat_word_ariths unat_ucast_mod) }
  { assume "unat c < 8"
    then have "ucast (c AND 0xff) OR 0xf0 = ucast (c AND 0xff) + (0xf0::u8)"
      unfolding byte_0xf0 by (intro or_push_bit_eq_add) (use u in simp)
    with u \<open>unat c < 8\<close> show "(ucast (c AND 0xff :: u32) OR 0xf0 :: u8) = of_nat (0xf0 + unat c)"
      by (simp add: word_unat_eq_iff unat_word_ariths unat_ucast_mod) }
qed

lemma mask_limits: fixes c :: u32
  shows "c AND - 128 = 0 \<longleftrightarrow> unat c < 0x80"
 "c AND - 2048 = 0 \<longleftrightarrow> unat c < 0x800"
 "c AND - 65536 = 0 \<longleftrightarrow> unat c < 0x10000"
 "c AND - 2097152 = 0 \<longleftrightarrow> unat c < 0x200000"
  using and_not_mask_eq_0 [of c 7] and_not_mask_eq_0 [of c 11] and_not_mask_eq_0 [of c 16] and_not_mask_eq_0 [of c 21]
  by (simp_all add: mask_numeral)

lemma mbsinit_initial [simp]: "mbsinit (Some mb_initial)"
  by (simp add: mbsinit_def mb_initial_def)

lemma c32rtomb_tail_123:
  "c32rtomb_tail 1 c [] = (drop_bit 6 c, [of_nat (0x80 + unat c mod 64)])"
  "c32rtomb_tail 2 c [] = (drop_bit 12 c, [of_nat (0x80 + unat c div 64 mod 64), of_nat (0x80 + unat c mod 64)])"
  "c32rtomb_tail 3 c [] = (drop_bit 18 c, [of_nat (0x80 + unat c div 4096 mod 64), of_nat (0x80 + unat c div 64 mod 64), of_nat (0x80 + unat c mod 64)])"
proof -
  have t: "c32rtomb_tail n c s = (if n = 0 then (c, s) else
     c32rtomb_tail (n - 1) (drop_bit 6 c) (of_nat (0x80 + unat c mod 64) # s))" for n c s
    by (cases n) (simp_all only: c32rtomb_tail.simps cont_byte diff_Suc_1 if_False if_True simp_thms nat.distinct)
  show "c32rtomb_tail 1 c [] = (drop_bit 6 c, [of_nat (0x80 + unat c mod 64)])"
    by (simp add: cont_byte)
  show "c32rtomb_tail 2 c [] = (drop_bit 12 c, [of_nat (0x80 + unat c div 64 mod 64), of_nat (0x80 + unat c mod 64)])"
    by (simp add: t [of 2] cont_byte unat_drop_bit)
  show "c32rtomb_tail 3 c [] = (drop_bit 18 c, [of_nat (0x80 + unat c div 4096 mod 64), of_nat (0x80 + unat c div 64 mod 64), of_nat (0x80 + unat c mod 64)])"
    by (simp add: t [of 3] t [of 2] cont_byte unat_drop_bit)
qed

lemma c32rtomb_utf8:
  assumes "c \<noteq> 0" "unat c < 0x200000"
  shows "c32rtomb True c mb_initial =
    \<lparr>mb_ret = of_nat (length (utf8_bytes (unat c))), mb_errno = None, mb_state = mb_initial,
     mb_c = Some (utf8_bytes (unat c))\<rparr>"
proof -
  have d: "unat (drop_bit 6 c) = unat c div 64" "unat (drop_bit 12 c) = unat c div 4096"
    "unat (drop_bit 18 c) = unat c div 262144" by (simp_all add: unat_drop_bit)
  note s = c32rtomb_def utf8_bytes_def Let_def mask_limits c32rtomb_tail_123 lead_byte cont_byte d
  consider "unat c < 0x80" | "0x80 \<le> unat c" "unat c < 0x800"
    | "0x800 \<le> unat c" "unat c < 0x10000" | "0x10000 \<le> unat c" using assms by linarith
  then show ?thesis
  proof cases
    case 1
    with assms show ?thesis by (simp add: s)
  next
    case 2
    then have "unat c div 64 < 32" by simp
    with 2 assms show ?thesis by (simp add: s del: of_nat_add)
  next
    case 3
    then have "unat c div 4096 < 16" by simp
    with 3 assms show ?thesis by (simp add: s del: of_nat_add)
  next
    case 4
    then have "unat c div 262144 < 8" using assms by simp
    with 4 assms show ?thesis by (simp add: s del: of_nat_add)
  qed
qed

lemma mb_of_Nil: "mb_of [] = mb_initial"
  by (simp add: mb_of_def mb_initial_def)

lemma mb_of_snoc: "length xs < 4 \<Longrightarrow> mbstate_set_byte (mb_of xs) (length xs) b = mb_of (xs @ [b])"
proof -
  assume "length xs < 4"
  then consider "length xs = 0" | "length xs = 1" | "length xs = 2" | "length xs = 3" by linarith
  then show ?thesis
    by cases (simp_all add: mb_of_def mbstate_set_byte_def nth_append)
qed

lemma mb_of_get: "length xs \<le> 4 \<Longrightarrow> i < length xs \<Longrightarrow> mbstate_get_byte (mb_of xs) i = xs ! i"
proof -
  assume "length xs \<le> 4" "i < length xs"
  then consider "i = 0" | "i = 1" | "i = 2" | "i = 3" by linarith
  then show ?thesis
    using \<open>i < length xs\<close> by cases (auto simp: mb_of_def mbstate_get_byte_def)
qed

lemma mb_of_not_init: "xs \<noteq> [] \<Longrightarrow> hd xs \<noteq> 0 \<Longrightarrow> \<not> mbsinit (Some (mb_of xs))"
  by (cases xs) (auto simp: mbsinit_def mb_of_def)

lemma mbrtoc32_fill_mb_of:
  assumes "length xs + k \<le> 4" "k \<le> length s" "xs @ take k s \<noteq> [] \<Longrightarrow> hd (xs @ s) \<noteq> 0"
  shows "mbrtoc32_fill (mb_of xs) (length xs) k s =
    Some (if list_all mb_cont (if xs = [] then tl (take k s) else take k s)
          then Inr (mb_of (xs @ take k s)) else Inl ())"
  using assms
proof (induction k arbitrary: xs s)
  case 0
  then show ?case by (simp add: mbrtoc32_fill.simps)
next
  case (Suc k)
  then obtain b s' where s: "s = b # s'" by (cases s) auto
  have IH: "mbrtoc32_fill (mb_of (xs @ [b])) (length (xs @ [b])) k s' =
    Some (if list_all mb_cont (take k s') then Inr (mb_of ((xs @ [b]) @ take k s')) else Inl ())"
    using Suc.prems s by (subst Suc.IH) auto
  show ?case
  proof (cases "xs = []")
    case True
    then show ?thesis using Suc.prems IH mb_of_snoc [of xs b]
      by (simp add: s mbrtoc32_fill.simps [of _ _ "Suc k"] mb_of_Nil)
  next
    case False
    with Suc.prems have "\<not> mbsinit (Some (mb_of xs))" by (intro mb_of_not_init) auto
    with False show ?thesis using Suc.prems IH mb_of_snoc [of xs b]
      by (simp add: s mbrtoc32_fill.simps [of _ _ "Suc k"] flip: mb_cont_def)
  qed
qed

lemma mbrtoc32_decode_mb_of:
  assumes "length (l # cs) \<le> 4"
  shows "mbrtoc32_decode (mb_of (l # cs)) msk (length (l # cs)) = utf8_payload (ucast l AND msk) cs"
proof -
  let ?f = "\<lambda>c b. push_bit 6 c OR (ucast b AND 0x3f) :: u32"
  have "map (mbstate_get_byte (mb_of (l # cs))) [1..<length (l # cs)] = cs"
    using assms by (intro nth_equalityI) (simp_all add: mb_of_get del: upt_Suc)
  then have "foldl ?f (ucast l AND msk) (map (mbstate_get_byte (mb_of (l # cs))) [1..<length (l # cs)])
     = foldl ?f (ucast l AND msk) cs" by (rule arg_cong)
  moreover have "mbstate_get_byte (mb_of (l # cs)) 0 = l"
    using assms by (simp add: mb_of_get)
  ultimately show ?thesis
    unfolding mbrtoc32_decode_def utf8_payload_def foldl_map by simp
qed

lemma mbrtoc32_lead_nat:
  "mbrtoc32_lead ch =
     (if unat ch < 0x80 then Some (0x7f, 1, 0)
      else if 0xc0 \<le> unat ch \<and> unat ch < 0xe0 then Some (0x1f, 2, 0x80)
      else if 0xe0 \<le> unat ch \<and> unat ch < 0xf0 then Some (0x0f, 3, 0x800)
      else if 0xf0 \<le> unat ch \<and> unat ch < 0xf8 then Some (0x07, 4, 0x10000)
      else None)"
  unfolding mbrtoc32_lead_def byte_tests ..

lemma mb_cont_nat: "mb_cont b \<longleftrightarrow> 0x80 \<le> unat b \<and> unat b < 0xc0"
  by (simp add: mb_cont_def byte_tests)

lemma mb_prefix_lead:
  "mb_prefix xs \<longleftrightarrow> (case xs of [] \<Rightarrow> True | l # cs \<Rightarrow>
     (case mbrtoc32_lead l of None \<Rightarrow> False | Some (msk, len, lower) \<Rightarrow> length xs < len \<and> list_all mb_cont cs))"
proof (cases xs)
  case (Cons l cs)
  have "list_all (\<lambda>b. 0x80 \<le> unat b \<and> unat b < 0xc0) cs = list_all mb_cont cs" unfolding mb_cont_nat [abs_def] ..
  with Cons show ?thesis by (simp add: mb_prefix_def utf8_length_def mbrtoc32_lead_nat)
qed (simp add: mb_prefix_def)

lemma mb_prefix_length: "mb_prefix xs \<Longrightarrow> length xs \<le> 3"
  by (auto simp: mb_prefix_lead mbrtoc32_lead_def split: list.splits if_splits)

lemma mb_cont_nz: "mb_cont b \<Longrightarrow> b \<noteq> 0"
  by (auto simp: mb_cont_def)

lemma mb_prefix_nz: "mb_prefix xs \<Longrightarrow> b \<in> set xs \<Longrightarrow> b \<noteq> 0"
  by (auto simp: mb_prefix_lead mbrtoc32_lead_def list_all_iff mb_cont_nz split: list.splits if_splits dest: mb_cont_nz)

lemma mb_prefix_so_far:
  assumes "mb_prefix xs"
  shows "mbstate_bytes_so_far (mb_of xs) = length xs"
proof -
  have nz: "i < length xs \<Longrightarrow> xs ! i \<noteq> 0" for i
    using mb_prefix_nz [OF assms] by simp
  consider "length xs = 0" | "length xs = 1" | "length xs = 2" | "length xs = 3"
    using mb_prefix_length [OF assms] by linarith
  then show ?thesis
    using nz [of 0] nz [of 1] nz [of 2]
    by cases (simp_all add: mbstate_bytes_so_far_def mb_of_def)
qed

lemma reset_small: "r < 5 \<Longrightarrow> mbstate_reset_and_return (of_nat r) c =
  \<lparr>mb_ret = of_nat r, mb_errno = None, mb_state = mb_initial, mb_c = c\<rparr>"
proof -
  assume "r < 5"
  then consider "r = 0" | "r = 1" | "r = 2" | "r = 3" | "r = 4" by linarith
  then show ?thesis
    by cases (simp_all add: mbstate_reset_and_return_def)
qed

lemma lead_len: "mbrtoc32_lead l = Some (msk, len, lower) \<Longrightarrow> 1 \<le> len \<and> len \<le> 4"
  by (auto simp: mbrtoc32_lead_def split: if_splits)

lemma scan_ascii: "unat c0 < 128 \<Longrightarrow> utf8_scan (c0 # cs) = Decoded (ucast c0) 1"
proof -
  assume a: "unat c0 < 128"
  have "ucast c0 AND (0x7f :: u32) = ucast c0"
    using a unfolding masks by (simp add: word_unat_eq_iff unat_and_mask unat_ucast_mod)
  moreover have "\<not> (ucast c0 \<ge> (0xd800::u32))" "\<not> (ucast c0 > (0x10ffff::u32))" 
    using a by (simp_all add: word_le_nat_alt word_less_nat_alt unat_ucast_mod)
  ultimately show ?thesis using a
    by (simp add: utf8_scan_def mbrtoc32_lead_nat utf8_payload_def)
qed

lemma ucast_u8_eq_0 [simp]: "(ucast (b :: u8) :: u32) = 0 \<longleftrightarrow> b = 0"
  by (simp add: word_unat_eq_iff unat_ucast_mod)

lemma utf8_scan_lead:
  assumes "mbrtoc32_lead l = Some (msk, L, lower)"
  shows "utf8_scan (l # cs) =
    (if \<not> list_all mb_cont (take (L - 1) cs) then Illegal
     else if length (l # cs) < L then Incomplete
     else let c = utf8_payload (ucast l AND msk) (take (L - 1) cs) in
       if c < lower \<or> (0xd800 \<le> c \<and> c \<le> 0xdfff) \<or> 0x10ffff < c then Illegal
       else Decoded c L)"
  using lead_len [OF assms] by (simp add: utf8_scan_def assms less_diff_conv)

lemma mbrtoc32_fill_scan:
  assumes "mb_prefix xs" "xs @ take m s = l # cs" "mbrtoc32_lead l = Some (msk, L, lower)"
    and "m \<le> length s" "l \<noteq> 0" "length xs < L"
  shows "mbrtoc32_fill (mb_of xs) (length xs) (min (L - length xs) m) s =
    Some (if list_all mb_cont (take (L - 1) cs) then Inr (mb_of (take L (l # cs))) else Inl ())"
proof -
  let ?k = "min (L - length xs) m"
  have L: "L \<le> 4" "1 \<le> L" using lead_len [OF assms(3)] by simp_all
  have tk: "take L (l # cs) = xs @ take ?k s"
    using assms(6) by (simp add: min.commute flip: assms(2))
  have "m \<noteq> 0 \<or> xs \<noteq> []" using assms(2) by auto
  then have hd: "xs @ take ?k s \<noteq> [] \<Longrightarrow> hd (xs @ s) \<noteq> 0"
    using assms(2,5) by (cases xs; cases s; cases m) auto
  have "take (L - 1) cs = tl (xs @ take ?k s)"
    using L by (simp add: take_Cons' flip: tk)
  moreover have "list_all mb_cont (tl (xs @ take ?k s)) \<longleftrightarrow>
      list_all mb_cont (if xs = [] then tl (take ?k s) else take ?k s)"
    using assms(1) by (cases xs) (auto simp: mb_prefix_lead split: option.splits)
  ultimately show ?thesis
    unfolding tk using L hd assms(4,6) by (subst mbrtoc32_fill_mb_of) simp_all
qed

lemma mbrtoc32_decode_scan:
  assumes "mbrtoc32_lead l = Some (msk, L, lower)" "\<not> length (l # cs) < L"
  shows "mbrtoc32_decode (mb_of (take L (l # cs))) msk L =
    utf8_payload (ucast l AND msk) (take (L - 1) cs)"
proof -
  have L: "L \<le> 4" "1 \<le> L" using lead_len [OF assms(1)] by simp_all
  then have "take L (l # cs) = l # take (L - 1) cs" by (simp add: take_Cons')
  then show ?thesis
    using mbrtoc32_decode_mb_of [of l "take (L - 1) cs" msk] L assms(2) by simp
qed

text \<open>A state that holds a proper prefix: the byte the length comes from, the slow path.\<close>

lemma mb_prefix_slow:
  assumes "mb_prefix xs" "xs @ c0 # s' = l # r" "\<not> (xs = [] \<and> unat c0 < 128)"
  shows "mbstate_get_byte (mb_of xs) 3 = 0"
    and "\<not> (mbsinit (Some (mb_of xs)) \<and> c0 AND NOT 0x7f = 0)"
    and "(if length xs > 0 then mbstate_get_byte (mb_of xs) 0 else c0) = l"
    and "l \<noteq> 0"
proof -
  have len: "length xs \<le> 3" by (rule mb_prefix_length [OF assms(1)])
  then show "mbstate_get_byte (mb_of xs) 3 = 0"
    by (simp add: mbstate_get_byte_def mb_of_def)
  show l: "l \<noteq> 0"
    using assms mb_prefix_nz [OF assms(1)] by (cases xs) auto
  show "(if length xs > 0 then mbstate_get_byte (mb_of xs) 0 else c0) = l"
    using len assms(2) by (cases xs) (simp_all add: mb_of_get)
  show "\<not> (mbsinit (Some (mb_of xs)) \<and> c0 AND NOT 0x7f = 0)"
    using assms l by (cases xs) (simp_all add: byte_tests [simplified] mbsinit_def mb_of_def)
qed

lemma mbrtoc32_min:
  assumes "length xs < L" "L \<le> 4" "unat n \<le> length s" "xs @ take (unat n) s = zs"
  shows "of_nat L - of_nat (length xs) = (of_nat (L - length xs) :: u64)"
    and "unat (min (of_nat (L - length xs)) n :: u64) = min (L - length xs) (unat n)"
    and "min (of_nat (L - length xs)) n < (of_nat (L - length xs) :: u64) \<longleftrightarrow> length zs < L"
proof -
  show "of_nat L - of_nat (length xs) = (of_nat (L - length xs) :: u64)"
    using assms(1) by (simp add: of_nat_diff)
  have u: "unat (of_nat (L - length xs) :: u64) = L - length xs"
    using assms(2) by (intro unat_of_nat_small) simp
  then show "unat (min (of_nat (L - length xs)) n :: u64) = min (L - length xs) (unat n)"
    by (simp add: min_def word_le_nat_alt)
  show "min (of_nat (L - length xs)) n < (of_nat (L - length xs) :: u64) \<longleftrightarrow> length zs < L"
    using u assms(1,3) by (auto simp: min_def word_le_nat_alt word_less_nat_alt simp flip: assms(4))
qed

lemma mbrtoc32_refines_scan:
  assumes "mb_prefix xs" "0 < n" "unat n \<le> length s"
  shows "mbrtoc32 True (Some s) n (mb_of xs) = Some (mb_result xs (xs @ take (unat n) s))"
proof -
  have n0: "n \<noteq> 0" "0 < unat n" using assms(2) by (auto simp: unat_gt_0)
  obtain c0 s' where s: "s = c0 # s'" using assms n0 by (cases s) auto
  show ?thesis
  proof (cases "xs = [] \<and> unat c0 < 128")
    case True
    then show ?thesis using n0
      by (simp add: s mbrtoc32_def mb_of_Nil mbstate_get_byte_def mb_initial_def
          byte_tests [simplified] mb_result_def scan_ascii take_Cons' mbsinit_def)
  next
    case False
    obtain l r where lr: "xs @ c0 # s' = l # r" by (cases xs) auto
    then obtain cs where zs: "xs @ take (unat n) s = l # cs"
      using n0 by (cases xs) (auto simp: s take_Cons')
    note slow = mb_prefix_slow [OF assms(1) lr False]
    note red = slow(1-3) simp_thms if_False option.case s list.case Let_def split n0
      mb_prefix_so_far [OF assms(1)] prod.case
    show ?thesis
    proof (cases "mbrtoc32_lead l")
      case None
      then have "utf8_scan (l # cs) = Illegal" by (simp add: utf8_scan_def)
      with None show ?thesis
        unfolding mbrtoc32_def
        by (simp only: red mb_result_def zs [unfolded s] mbstate_reset_and_return_illegal_def
            utf8_outcome.case)
    next
      case (Some p)
      obtain msk L lower where p: "p = (msk, L, lower)" by (cases p)
      note lead = Some [unfolded p]
      have L: "length xs < L" "L \<le> 4"
        using lead_len [OF lead] assms(1) lead lr by (auto simp: mb_prefix_lead split: list.splits)
      note m = mbrtoc32_min [OF L assms(3) zs, unfolded s]
      note fill = mbrtoc32_fill_scan [OF assms(1) zs lead assms(3) slow(4) L(1), unfolded s]
      have rs: "mbstate_reset_and_return (of_nat (L - length xs)) c =
          \<lparr>mb_ret = of_nat (L - length xs), mb_errno = None, mb_state = mb_initial, mb_c = c\<rparr>"
        for c :: "u32 option" using L by (intro reset_small) simp
      have "mbrtoc32 True (Some s) n (mb_of xs) = Some (mb_result xs (l # cs))"
        unfolding mbrtoc32_def
        apply (simp only: red lead m)
        apply (simp only: fill mb_result_def utf8_scan_lead [OF lead])
        apply (cases "list_all mb_cont (take (L - 1) cs)"; cases "length (l # cs) < L")
        apply (simp_all add: mbstate_reset_and_return_illegal_def Let_def
            mbrtoc32_decode_scan [OF lead] reset_small [of 0, simplified] rs
            del: of_nat_diff take_Suc_Cons length_Cons)
        done
      then show ?thesis by (simp only: zs)
    qed
  qed
qed

lemma unat_decode_step:
  "unat c < 2 ^ 26 \<Longrightarrow> unat (push_bit 6 c OR (ucast (b::u8) AND 0x3f) :: u32) = unat c * 64 + unat b mod 64"
proof -
  assume c: "unat c < 2 ^ 26"
  have b: "unat (ucast b AND 0x3f :: u32) = unat b mod 64"
    unfolding masks by (simp add: unat_and_mask unat_ucast_mod)
  have "push_bit 6 c OR (ucast b AND 0x3f) = (ucast b AND 0x3f) + push_bit 6 c"
    by (subst or.commute, rule or_push_bit_eq_add) (simp add: b)
  moreover have "unat (push_bit 6 c) = unat c * 64"
    using c by (simp add: push_bit_eq_mult unat_word_ariths)
  ultimately show ?thesis
    using b c by (simp add: unat_word_ariths)
qed

lemma unat_and_msk: fixes l :: u8 shows
  "unat (ucast l AND 0x1f :: u32) = unat l mod 32"
  "unat (ucast l AND 0x0f :: u32) = unat l mod 16"
  "unat (ucast l AND 0x07 :: u32) = unat l mod 8"
  "unat (ucast l AND 0x7f :: u32) = unat l mod 128"
  unfolding masks by (simp_all add: unat_and_mask unat_ucast_mod)

lemma unat_payload:
  "unat c * 64 ^ length bs < 2 ^ 32 - 64 ^ length bs \<Longrightarrow>
   unat (utf8_payload c bs) = foldl (\<lambda>m b. m * 64 + unat b mod 64) (unat c) bs"
proof (induction bs arbitrary: c)
  case Nil
  then show ?case by (simp add: utf8_payload_def)
next
  case (Cons b bs)
  let ?c = "push_bit 6 c OR (ucast b AND 0x3f) :: u32"
  have a: "(unat c + 1) * 64 * 64 ^ length bs < 2 ^ 32"
    using Cons.prems by (simp add: algebra_simps)
  have "(unat c + 1) * 64 \<le> (unat c + 1) * 64 * 64 ^ length bs"
    by simp
  from le_less_trans [OF this a] have "unat c < 2 ^ 26" by simp
  then have u: "unat ?c = unat c * 64 + unat b mod 64"
    by (rule unat_decode_step)
  have "(unat ?c + 1) * 64 ^ length bs \<le> (unat c + 1) * 64 * 64 ^ length bs"
    unfolding u by (intro mult_le_mono1) simp
  then have "unat ?c * 64 ^ length bs < 2 ^ 32 - 64 ^ length bs"
    using a by (simp add: algebra_simps)
  from Cons.IH [OF this] show ?case
    by (simp add: utf8_payload_def u)
qed

lemma utf8_scan_2:
  assumes "0xc0 \<le> unat l" "unat l < 0xe0" "mb_cont b" "c = unat l mod 32 * 64 + unat b mod 64"
  shows "utf8_scan (l # b # r) = (if 0x80 \<le> c then Decoded (of_nat c) 2 else Illegal)"
proof -
  have c: "c < 0x800" unfolding assms(4) using mod_less_divisor [of 32 "unat l"] mod_less_divisor [of 64 "unat b"] by linarith
  have "unat (utf8_payload (ucast l AND 0x1f) [b]) = c"
    by (subst unat_payload) (simp_all add: unat_and_msk assms(4))
  moreover have u: "unat (of_nat c :: u32) = c" using c by (intro unat_of_nat_small) simp
  ultimately have p: "utf8_payload (ucast l AND 0x1f) [b] = of_nat c"
    by (simp only: word_unat_eq_iff)
  show ?thesis using assms(1-3) c u
    by (auto simp: utf8_scan_def mbrtoc32_lead_nat p Let_def word_less_nat_alt word_le_nat_alt)
qed

lemma utf8_scan_3:
  assumes "0xe0 \<le> unat l" "unat l < 0xf0" "mb_cont b" "mb_cont d"
    "c = (unat l mod 16 * 64 + unat b mod 64) * 64 + unat d mod 64"
  shows "utf8_scan (l # b # d # r) = (if 0x800 \<le> c \<and> scalar c then Decoded (of_nat c) 3 else Illegal)"
proof -
  have c: "c < 0x10000" unfolding assms(5) using mod_less_divisor [of 16 "unat l"]
    mod_less_divisor [of 64 "unat b"] mod_less_divisor [of 64 "unat d"] by simp
  have "unat (utf8_payload (ucast l AND 0x0f) [b, d]) = c"
    by (subst unat_payload) (simp_all add: unat_and_msk assms(5))
  moreover have u: "unat (of_nat c :: u32) = c" using c by (intro unat_of_nat_small) simp
  ultimately have p: "utf8_payload (ucast l AND 0x0f) [b, d] = of_nat c"
    by (simp only: word_unat_eq_iff)
  show ?thesis using assms(1-4) c u
    by (auto simp: utf8_scan_def mbrtoc32_lead_nat p Let_def word_less_nat_alt word_le_nat_alt scalar_def)
qed

lemma utf8_scan_4:
  assumes "0xf0 \<le> unat l" "unat l < 0xf8" "mb_cont a" "mb_cont b" "mb_cont d"
    "c = ((unat l mod 8 * 64 + unat a mod 64) * 64 + unat b mod 64) * 64 + unat d mod 64"
  shows "utf8_scan (l # a # b # d # r) = (if 0x10000 \<le> c \<and> scalar c then Decoded (of_nat c) 4 else Illegal)"
proof -
  have c: "c < 0x200000" unfolding assms(6) using mod_less_divisor [of 8 "unat l"] mod_less_divisor [of 64 "unat a"]
    mod_less_divisor [of 64 "unat b"] mod_less_divisor [of 64 "unat d"] by simp
  have "unat (utf8_payload (ucast l AND 0x07) [a, b, d]) = c"
    by (subst unat_payload) (simp_all add: unat_and_msk assms(6))
  moreover have u: "unat (of_nat c :: u32) = c" using c by (intro unat_of_nat_small) simp
  ultimately have p: "utf8_payload (ucast l AND 0x07) [a, b, d] = of_nat c"
    by (simp only: word_unat_eq_iff)
  show ?thesis using assms(1-5) c u
    by (auto simp: utf8_scan_def mbrtoc32_lead_nat p Let_def word_less_nat_alt word_le_nat_alt scalar_def)
qed

lemma utf8_scan_bytes:
  assumes "scalar c"
  shows "utf8_scan (utf8_bytes c @ r) = Decoded (of_nat c) (length (utf8_bytes c))"
proof -
  have cc: "c \<le> 0x10ffff" using assms by (simp add: scalar_def)
  have m: "(0x80 + x mod 64) mod 64 = x mod 64" "(0xc0 + x) mod 32 = x mod 32"
    "(0xe0 + x) mod 16 = x mod 16" "(0xf0 + x) mod 8 = x mod 8" for x :: nat
    using mod_mult_self4 [of 64 2 "x mod 64"] mod_mult_self4 [of 32 6 x]
      mod_mult_self4 [of 16 14 x] mod_mult_self4 [of 8 30 x] by simp_all
  have r: "c div 64 * 64 + c mod 64 = c" "(c div 4096 * 64 + c div 64 mod 64) * 64 + c mod 64 = c"
    "((c div 262144 * 64 + c div 4096 mod 64) * 64 + c div 64 mod 64) * 64 + c mod 64 = c"
    by (simp_all add: div_mult2_eq [of c 64 64, simplified] div_mult2_eq [of c 4096 64, simplified])
  have cont: "unat (of_nat (0x80 + x mod 64) :: u8) = 0x80 + x mod 64" "mb_cont (of_nat (0x80 + x mod 64))" for x
  proof -
    have "x mod 64 < 64" by simp
    then show u: "unat (of_nat (0x80 + x mod 64) :: u8) = 0x80 + x mod 64"
      by (intro unat_of_nat_small) simp
    show "mb_cont (of_nat (0x80 + x mod 64))"
      unfolding mb_cont_nat u using \<open>x mod 64 < 64\<close> by simp
  qed
  consider "c < 0x80" | "0x80 \<le> c" "c < 0x800"
    | "0x800 \<le> c" "c < 0x10000" | "0x10000 \<le> c" by linarith
  then show ?thesis
  proof cases
    case 1
    then show ?thesis
      by (simp add: utf8_bytes_def scan_ascii unat_of_nat word_unat_eq_iff unat_ucast_mod)
  next
    case 2
    have x: "c div 64 < 32" using 2 by simp
    have u: "unat (of_nat (0xc0 + c div 64) :: u8) = 0xc0 + c div 64"
      using x by (intro unat_of_nat_small) simp
    have "utf8_scan (of_nat (0xc0 + c div 64) # of_nat (0x80 + c mod 64) # r) = Decoded (of_nat c) 2"
      using utf8_scan_2 [of "of_nat (0xc0 + c div 64)" "of_nat (0x80 + c mod 64)" c r] 2
      unfolding u cont m using x r cont(2) by (simp del: of_nat_add)
    with 2 show ?thesis by (simp add: utf8_bytes_def)
  next
    case 3
    have x: "c div 4096 < 16" using 3 by simp
    have u: "unat (of_nat (0xe0 + c div 4096) :: u8) = 0xe0 + c div 4096"
      using x by (intro unat_of_nat_small) simp
    have "utf8_scan (of_nat (0xe0 + c div 4096) # of_nat (0x80 + c div 64 mod 64) # of_nat (0x80 + c mod 64) # r)
        = Decoded (of_nat c) 3"
      using utf8_scan_3 [of "of_nat (0xe0 + c div 4096)" "of_nat (0x80 + c div 64 mod 64)"
          "of_nat (0x80 + c mod 64)" c r] 3 assms
      unfolding u cont m using x r cont(2) by (simp del: of_nat_add)
    with 3 show ?thesis by (simp add: utf8_bytes_def)
  next
    case 4
    have x: "c div 262144 < 8" using cc by simp
    have u: "unat (of_nat (0xf0 + c div 262144) :: u8) = 0xf0 + c div 262144"
      using x by (intro unat_of_nat_small) simp
    have "utf8_scan (of_nat (0xf0 + c div 262144) # of_nat (0x80 + c div 4096 mod 64) #
          of_nat (0x80 + c div 64 mod 64) # of_nat (0x80 + c mod 64) # r) = Decoded (of_nat c) 4"
      using utf8_scan_4 [of "of_nat (0xf0 + c div 262144)" "of_nat (0x80 + c div 4096 mod 64)"
         "of_nat (0x80 + c div 64 mod 64)" "of_nat (0x80 + c mod 64)" c r] 4 assms
      unfolding u cont m using x r cont(2) by (simp del: of_nat_add)
    with 4 show ?thesis by (simp add: utf8_bytes_def)
  qed
qed


lemma byte_split:
  fixes b :: u8
  assumes "k * q \<le> unat b" "unat b < k * Suc q"
  shows "of_nat (k * q + unat b mod k) = b"
proof -
  have "unat b div k = q" using assms by (intro div_nat_eqI) (auto simp: mult.commute)
  then have "k * q + unat b mod k = unat b" using mult_div_mod_eq [of k "unat b"] by simp
  moreover have "of_nat (unat b) = b" by simp
  ultimately show ?thesis by (simp only:)
qed

lemma cont_split: "mb_cont b \<Longrightarrow> of_nat (0x80 + unat b mod 64) = b"
  using byte_split [of 64 2 b] by (simp add: mb_cont_nat)

lemma digit64:
  fixes q x m :: nat
  shows "(q * 64 + x mod 64) div 64 = q" "(q * 64 + x mod 64) mod 64 = x mod 64"
    "m div 4096 = m div 64 div 64" "m div 262144 = m div 64 div 64 div 64"
  by (simp_all flip: div_mult2_eq)

lemma utf8_bytes_2:
  assumes "0xc0 \<le> unat l" "unat l < 0xe0" "mb_cont b" "m = unat l mod 32 * 64 + unat b mod 64" "0x80 \<le> m"
  shows "utf8_bytes m = [l, b] \<and> unat (of_nat m :: u32) = m"
proof -
  have m: "m < 0x800"
    unfolding assms(4) using mod_less_divisor [of 32 "unat l"] mod_less_divisor [of 64 "unat b"] by simp
  moreover have "m div 64 = unat l mod 32" "m mod 64 = unat b mod 64" by (simp_all add: assms(4))
  moreover have "of_nat (0xc0 + unat l mod 32) = l" using byte_split [of 32 6 l] assms by simp
  moreover have "unat (of_nat m :: u32) = m" using m by (intro unat_of_nat_small) simp
  ultimately show ?thesis
    using assms(3,5) by (simp add: utf8_bytes_def cont_split del: of_nat_add)
qed

lemma utf8_bytes_3:
  assumes "0xe0 \<le> unat l" "unat l < 0xf0" "mb_cont b" "mb_cont d"
    "m = (unat l mod 16 * 64 + unat b mod 64) * 64 + unat d mod 64" "0x800 \<le> m"
  shows "utf8_bytes m = [l, b, d] \<and> unat (of_nat m :: u32) = m"
proof -
  have m: "m < 0x10000" unfolding assms(5) using mod_less_divisor [of 16 "unat l"]
    mod_less_divisor [of 64 "unat b"] mod_less_divisor [of 64 "unat d"] by simp
  moreover have "m div 4096 = unat l mod 16" "m div 64 mod 64 = unat b mod 64" "m mod 64 = unat d mod 64"
    by (simp_all only: assms(5) digit64 mod_mod_trivial)
  moreover have "of_nat (0xe0 + unat l mod 16) = l" using byte_split [of 16 14 l] assms by simp
  moreover have "unat (of_nat m :: u32) = m" using m by (intro unat_of_nat_small) simp
  ultimately show ?thesis
    using assms(3,4,6) by (simp add: utf8_bytes_def cont_split del: of_nat_add)
qed

lemma utf8_bytes_4:
  assumes "0xf0 \<le> unat l" "unat l < 0xf8" "mb_cont a" "mb_cont b" "mb_cont d"
    "m = ((unat l mod 8 * 64 + unat a mod 64) * 64 + unat b mod 64) * 64 + unat d mod 64" "0x10000 \<le> m"
  shows "utf8_bytes m = [l, a, b, d] \<and> unat (of_nat m :: u32) = m"
proof -
  have m: "m < 0x200000" unfolding assms(6) using mod_less_divisor [of 8 "unat l"]
    mod_less_divisor [of 64 "unat a"] mod_less_divisor [of 64 "unat b"] mod_less_divisor [of 64 "unat d"] by simp
  moreover have "m div 262144 = unat l mod 8" "m div 4096 mod 64 = unat a mod 64"
    "m div 64 mod 64 = unat b mod 64" "m mod 64 = unat d mod 64"
    by (simp_all only: assms(6) digit64 mod_mod_trivial)
  moreover have "of_nat (0xf0 + unat l mod 8) = l" using byte_split [of 8 30 l] assms by simp
  moreover have "unat (of_nat m :: u32) = m" using m by (intro unat_of_nat_small) simp
  ultimately show ?thesis
    using assms(3,4,5,7) by (simp add: utf8_bytes_def cont_split del: of_nat_add)
qed

lemma utf8_scan_Decoded:
  assumes "utf8_scan zs = Decoded c len"
  shows "take len zs = utf8_bytes (unat c) \<and> scalar (unat c) \<and> len \<le> length zs"
proof -
  obtain l cs where zs: "zs = l # cs" using assms by (cases zs) (auto simp: utf8_scan_def)
  obtain msk lower where lead: "mbrtoc32_lead l = Some (msk, len, lower)"
    and ct: "list_all mb_cont (take (len - 1) cs)" and ln: "len - 1 \<le> length cs"
    and sc: "\<not> (0xd800 \<le> c \<and> c \<le> 0xdfff)" "c \<le> 0x10ffff"
    using assms by (auto simp: zs utf8_scan_def Let_def not_less not_le split: option.splits if_splits)
  consider (1) "unat l < 0x80" "len = 1" | (2) "0xc0 \<le> unat l" "unat l < 0xe0" "len = 2"
    | (3) "0xe0 \<le> unat l" "unat l < 0xf0" "len = 3" | (4) "0xf0 \<le> unat l" "unat l < 0xf8" "len = 4"
    using lead by (auto simp: mbrtoc32_lead_nat split: if_splits)
  then have "take len zs = utf8_bytes (unat c)"
  proof cases
    case 1
    then have "c = ucast l" using assms by (simp add: zs scan_ascii)
    with 1 show ?thesis by (simp add: zs utf8_bytes_def)
  next
    case 2
    then obtain b r where cs: "cs = b # r" using ln by (cases cs) auto
    with ct 2 have "mb_cont b" by simp
    with 2 assms show ?thesis
      using utf8_scan_2 [of l b _ r, OF _ _ _ refl] utf8_bytes_2 [of l b, OF _ _ _ refl]
      by (auto simp: zs cs split: if_splits)
  next
    case 3
    then obtain b d r where cs: "cs = b # d # r" using ln by (cases cs; cases "tl cs") auto
    with ct 3 have "mb_cont b" "mb_cont d" by simp_all
    with 3 assms show ?thesis
      using utf8_scan_3 [of l b d _ r, OF _ _ _ _ refl] utf8_bytes_3 [of l b d, OF _ _ _ _ refl]
      by (auto simp: zs cs split: if_splits)
  next
    case 4
    then obtain a b d r where cs: "cs = a # b # d # r" using ln
      by (cases cs; cases "tl cs"; cases "tl (tl cs)") auto
    with ct 4 have "mb_cont a" "mb_cont b" "mb_cont d" by simp_all
    with 4 assms show ?thesis
      using utf8_scan_4 [of l a b d _ r, OF _ _ _ _ _ refl] utf8_bytes_4 [of l a b d, OF _ _ _ _ _ refl]
      by (auto simp: zs cs split: if_splits)
  qed
  moreover have "scalar (unat c)" using sc by (simp add: scalar_def word_le_nat_alt)
  ultimately show ?thesis using ln lead_len [OF lead] zs by auto
qed

lemma mbrtoc32_null_out:
  "mbrtoc32 False src n st = map_option (\<lambda>out. out\<lparr>mb_c := None\<rparr>) (mbrtoc32 True src n st)"
  by (cases src) (simp_all add: mbrtoc32_def Let_def mbstate_reset_and_return_def
      mbstate_reset_and_return_illegal_def split: option.split list.split sum.split)

lemma c32rtomb_state: "mb_state (c32rtomb s c mb_initial) = mb_initial"
  by (simp add: c32rtomb_def Let_def mbstate_reset_and_return_def
      mbstate_reset_and_return_illegal_def split: prod.splits option.splits)

lemma utf8_scan_Incomplete_prefix:
  assumes "utf8_scan zs = Incomplete"
  shows "mb_prefix zs"
proof (cases zs)
  case Nil
  then show ?thesis by (simp add: mb_prefix_lead)
next
  case (Cons l cs)
  with assms obtain msk len lower where "mbrtoc32_lead l = Some (msk, len, lower)"
    "list_all mb_cont (take (len - 1) cs)" "length cs < len - 1"
    by (auto simp: utf8_scan_def Let_def split: option.splits if_splits)
  with Cons show ?thesis by (simp add: mb_prefix_lead)
qed

lemma utf8_scan_Decoded_length:
  assumes "utf8_scan zs = Decoded c len"
  shows "len = length (utf8_bytes (unat c))" "len \<le> 4"
proof -
  have "length (take len zs) = len"
    using conjunct2 [OF conjunct2 [OF utf8_scan_Decoded [OF assms]]] by simp
  then show "len = length (utf8_bytes (unat c))" using utf8_scan_Decoded [OF assms] by metis
  then show "len \<le> 4" by (simp add: utf8_bytes_def)
qed

lemma mbrtoc32_out_flag:
  "mbrtoc32 True src n st = Some out \<Longrightarrow>
   mbrtoc32 pc src n st = Some (if pc then out else out\<lparr>mb_c := None\<rparr>)"
  by (cases pc) (simp_all add: mbrtoc32_null_out)

lemma c32rtomb_eq:
  "c32rtomb True c mb_initial =
    (if unat c < 0x200000 then
       \<lparr>mb_ret = of_nat (length (utf8_bytes (unat c))), mb_errno = None, mb_state = mb_initial,
        mb_c = Some (utf8_bytes (unat c))\<rparr>
     else \<lparr>mb_ret = MB_ERR_ILLEGAL_SEQUENCE, mb_errno = Some EILSEQ, mb_state = mb_initial,
           mb_c = None\<rparr>)"
proof (cases "c = 0")
  case True
  then show ?thesis by (simp add: c32rtomb_def utf8_bytes_def reset_small [of 1, simplified])
next
  case False
  moreover have "\<not> unat c < 0x200000 \<Longrightarrow> c32rtomb True c mb_initial = 
    \<lparr>mb_ret = MB_ERR_ILLEGAL_SEQUENCE, mb_errno = Some EILSEQ, mb_state = mb_initial, mb_c = None\<rparr>"
    using False by (simp add: c32rtomb_def Let_def mask_limits)
  ultimately show ?thesis by (simp add: c32rtomb_utf8)
qed

lemma mbrtoc32_enough:
  assumes "mbrtoc32_lead c0 = Some (msk, L, lower)" "L \<le> unat n"
  shows "mbrtoc32 pc (Some (c0 # s)) n mb_initial = mbrtoc32 pc (Some (c0 # s)) (of_nat L) mb_initial"
proof -
  have L: "1 \<le> L" "L \<le> 4" using lead_len [OF assms(1)] by simp_all
  then have u: "unat (of_nat L :: u64) = L" by (intro unat_of_nat_small) simp
  have "n \<noteq> 0" "of_nat L \<noteq> (0 :: u64)" using L u assms(2) by (auto simp: word_unat_eq_iff)
  moreover have "min (of_nat L) n = (of_nat L :: u64)"
    using assms(2) u by (simp add: min_def word_le_nat_alt)
  moreover have "mbstate_bytes_so_far mb_initial = 0"
    by (simp add: mbstate_bytes_so_far_def mb_initial_def)
  ultimately show ?thesis
    by (simp add: mbrtoc32_def Let_def assms(1) split: option.split sum.split)
qed

lemma utf8_bytes_len: "1 \<le> length (utf8_bytes c)" "length (utf8_bytes c) \<le> 4" "utf8_bytes c \<noteq> []"
  by (simp_all add: utf8_bytes_def)

lemma utf8_bytes_lead:
  fixes c :: u32
  assumes "scalar (unat c)"
  obtains c0 t msk lower where "utf8_bytes (unat c) = c0 # t"
    "mbrtoc32_lead c0 = Some (msk, length (utf8_bytes (unat c)), lower)"
proof -
  have sc: "utf8_scan (utf8_bytes (unat c)) = Decoded c (length (utf8_bytes (unat c)))"
    using utf8_scan_bytes [OF assms, of "[]"] by simp
  then obtain c0 t where "utf8_bytes (unat c) = c0 # t"
    by (cases "utf8_bytes (unat c)") (auto simp: utf8_scan_def)
  moreover from this sc obtain msk lower where
    "mbrtoc32_lead c0 = Some (msk, length (utf8_bytes (unat c)), lower)"
    by (auto simp: utf8_scan_def Let_def split: option.splits if_splits)
  ultimately show ?thesis by (rule that)
qed

lemma mbrtoc32_utf8:
  assumes "scalar (unat c)" "c \<noteq> 0" "length (utf8_bytes (unat c)) \<le> unat n"
  shows "mbrtoc32 True (Some (utf8_bytes (unat c) @ r)) n mb_initial =
    Some \<lparr>mb_ret = of_nat (length (utf8_bytes (unat c))), mb_errno = None, mb_state = mb_initial,
          mb_c = Some c\<rparr>"
proof -
  let ?bs = "utf8_bytes (unat c)" and ?L = "of_nat (length (utf8_bytes (unat c))) :: u64"
  have u: "unat ?L = length ?bs" using utf8_bytes_len [of "unat c"] by (intro unat_of_nat_small) simp
  then have "0 < ?L" using utf8_bytes_len [of "unat c"] by (simp add: word_less_nat_alt)
  from mbrtoc32_refines_scan [of "[]" ?L "?bs @ r", OF _ this]
  have "mbrtoc32 True (Some (?bs @ r)) ?L mb_initial = Some (mb_result [] ?bs)"
    by (simp only: u) (simp add: mb_prefix_lead mb_of_Nil)
  moreover have "mbrtoc32 True (Some (?bs @ r)) n mb_initial = mbrtoc32 True (Some (?bs @ r)) ?L mb_initial"
    using utf8_bytes_lead [OF assms(1)] mbrtoc32_enough assms(3) by (metis append_Cons)
  ultimately show ?thesis
    using utf8_scan_bytes [OF assms(1), of "[]"] assms(2) by (simp add: mb_result_def)
qed


lemma utf8_scan_proper_prefix:
  assumes "utf8_scan (xs @ ys) = Decoded c (length (xs @ ys))" "xs \<noteq> []" "ys \<noteq> []"
  shows "utf8_scan xs = Incomplete \<and> mb_prefix xs"
proof -
  obtain l cs where xs: "xs = l # cs" using assms(2) by (cases xs) auto
  obtain msk len lower where lead: "mbrtoc32_lead l = Some (msk, len, lower)"
    and ct: "list_all mb_cont (take (len - 1) (cs @ ys))" and len: "len = Suc (length cs + length ys)"
    using assms(1) by (auto simp: xs utf8_scan_def Let_def split: option.splits if_splits)
  from ct have "list_all mb_cont cs" by (simp add: len)
  moreover have "0 < length ys" using assms(3) by simp
  ultimately show ?thesis
    using lead len by (simp add: xs utf8_scan_def mb_prefix_lead)
qed

text \<open>The three outcomes of the scan, in terms of the encoding.\<close>

lemma scan_scalar:
  assumes "scalar c \<and> take (length (utf8_bytes c)) zs = utf8_bytes c"
  shows "utf8_scan zs = Decoded (of_nat c) (length (utf8_bytes c))"
  using utf8_scan_bytes [of c "drop (length (utf8_bytes c)) zs"] assms append_take_drop_id [of "length (utf8_bytes c)" zs] by simp

lemma scalar_of_nat_0: "scalar c \<and> P \<Longrightarrow> (of_nat c :: u32) = 0 \<longleftrightarrow> c = 0"
  by (simp add: scalar_def word_unat_eq_iff unat_of_nat_small)

lemma scan_prefix: "mb_prefix zs \<Longrightarrow> utf8_scan zs = Incomplete"
  by (auto simp: mb_prefix_lead utf8_scan_def split: list.splits option.splits)

lemma scan_Decoded_scalar:
  "utf8_scan zs = Decoded c len \<Longrightarrow> \<exists>c. scalar c \<and> take (length (utf8_bytes c)) zs = utf8_bytes c"
  using utf8_scan_Decoded [of zs c len] utf8_scan_Decoded_length(1) [of zs c len] by (intro exI [of _ "unat c"]) simp

section \<open>Properties\<close>

text \<open>C29. Encoding. From the initial state \<open>c32rtomb\<close> stores exactly the UTF-8 bytes of every
  code point below \<open>0x200000\<close> and returns their number; every other value is refused with
  \<open>EILSEQ\<close>. The state stays initial on every path.\<close>

theorem c32rtomb_spec:
  "c32rtomb True c mb_initial =
    (if unat c < 0x200000 then
       \<lparr>mb_ret = of_nat (length (utf8_bytes (unat c))), mb_errno = None, mb_state = mb_initial,
        mb_c = Some (utf8_bytes (unat c))\<rparr>
     else \<lparr>mb_ret = MB_ERR_ILLEGAL_SEQUENCE, mb_errno = Some EILSEQ, mb_state = mb_initial,
           mb_c = None\<rparr>)"
  by (rule c32rtomb_eq)

text \<open>C16. Decoding. Let \<open>zs\<close> be the bytes that an earlier call left in the state, followed by the bytes of this
  call. One call of \<open>mbrtoc32\<close> returns without reading past them. If they begin with the UTF-8
  bytes of a Unicode scalar value, the call gives this value, returns how many bytes of this call belong to it (zero for the terminator)
  and resets the state. If they are an unfinished character, it stores them in the state and
  returns -2. In every other case, be it an overlong form, a surrogate, a value above \<open>0x10ffff\<close> or a byte out
  of place, it fails with \<open>EILSEQ\<close> and resets the state.\<close>

theorem mbrtoc32_spec:
  assumes "mb_prefix xs" "0 < n" "unat n \<le> length s" "zs = xs @ take (unat n) s"
  shows "\<exists>out. mbrtoc32 pc (Some s) n (mb_of xs) = Some out \<and>
    (\<forall>c. scalar c \<and> take (length (utf8_bytes c)) zs = utf8_bytes c \<longrightarrow>
       out = \<lparr>mb_ret = (if c = 0 then 0 else of_nat (length (utf8_bytes c) - length xs)), mb_errno = None,
              mb_state = mb_initial, mb_c = (if pc then Some (of_nat c) else None)\<rparr>) \<and>
    (mb_prefix zs \<longrightarrow>
       out = \<lparr>mb_ret = MB_ERR_INCOMPLETE_SEQUENCE, mb_errno = None, mb_state = mb_of zs, mb_c = None\<rparr>) \<and>
    ((\<nexists>c. scalar c \<and> take (length (utf8_bytes c)) zs = utf8_bytes c) \<and> \<not> mb_prefix zs \<longrightarrow>
       out = \<lparr>mb_ret = MB_ERR_ILLEGAL_SEQUENCE, mb_errno = Some EILSEQ, mb_state = mb_initial, mb_c = None\<rparr>)"
proof (intro exI conjI allI impI)
  let ?out = "if pc then mb_result xs zs else (mb_result xs zs)\<lparr>mb_c := None\<rparr>"
  show "mbrtoc32 pc (Some s) n (mb_of xs) = Some ?out"
    unfolding assms(4) by (rule mbrtoc32_out_flag [OF mbrtoc32_refines_scan [OF assms(1-3)]])
  fix c
  assume "scalar c \<and> take (length (utf8_bytes c)) zs = utf8_bytes c"
  then have "utf8_scan zs = Decoded (of_nat c) (length (utf8_bytes c))" and "(of_nat c :: u32) = 0 \<longleftrightarrow> c = 0"
    by (simp_all add: scan_scalar scalar_of_nat_0)
  then show "?out = \<lparr>mb_ret = (if c = 0 then 0 else of_nat (length (utf8_bytes c) - length xs)), mb_errno = None,
      mb_state = mb_initial, mb_c = (if pc then Some (of_nat c) else None)\<rparr>" by (simp add: mb_result_def)
next
  let ?out = "if pc then mb_result xs zs else (mb_result xs zs)\<lparr>mb_c := None\<rparr>"
  assume "mb_prefix zs"
  then show "?out = \<lparr>mb_ret = MB_ERR_INCOMPLETE_SEQUENCE, mb_errno = None, mb_state = mb_of zs, mb_c = None\<rparr>"
    by (simp add: mb_result_def scan_prefix)
next
  let ?out = "if pc then mb_result xs zs else (mb_result xs zs)\<lparr>mb_c := None\<rparr>"
  assume "(\<nexists>c. scalar c \<and> take (length (utf8_bytes c)) zs = utf8_bytes c) \<and> \<not> mb_prefix zs"
  then have "utf8_scan zs = Illegal"
    using utf8_scan_Incomplete_prefix [of zs] scan_Decoded_scalar [of zs] by (cases "utf8_scan zs") blast+
  then show "?out = \<lparr>mb_ret = MB_ERR_ILLEGAL_SEQUENCE, mb_errno = Some EILSEQ, mb_state = mb_initial, mb_c = None\<rparr>"
    by (simp add: mb_result_def)
qed

theorem mbrtoc32_spec_witness:
  "mbrtoc32 True (Some [0xac, 0x41]) 2 (mb_of [0xe2, 0x82]) =
    Some \<lparr>mb_ret = 1, mb_errno = None, mb_state = mb_initial, mb_c = Some 0x20ac\<rparr>"
proof -
  have p: "mb_prefix [0xe2, 0x82]" by (simp add: mb_prefix_def utf8_length_def)
  have "scalar 0x20ac \<and> take (length (utf8_bytes 0x20ac)) [0xe2, 0x82, 0xac, 0x41] = utf8_bytes 0x20ac"
    "length (utf8_bytes 0x20ac) = 3" by (simp_all add: scalar_def utf8_bytes_def)
  then show ?thesis
    using mbrtoc32_spec [OF p, of 2 "[0xac, 0x41]" "[0xe2, 0x82, 0xac, 0x41]" True] by auto
qed

text \<open>C17. Round trip. Decoding what \<open>c32rtomb\<close> stores for a Unicode scalar value other than the
  terminator gives the value back and consumes exactly its bytes, whatever follows them.\<close>

theorem c32rtomb_mbrtoc32:
  assumes "scalar (unat c)" "c \<noteq> 0"
    and "mb_c (c32rtomb True c mb_initial) = Some bs" "length bs \<le> unat n"
  shows "mbrtoc32 True (Some (bs @ r)) n mb_initial =
    Some \<lparr>mb_ret = of_nat (length bs), mb_errno = None, mb_state = mb_initial, mb_c = Some c\<rparr>"
proof -
  have "bs = utf8_bytes (unat c)" using assms(1-3) by (simp add: c32rtomb_utf8 scalar_def)
  with assms show ?thesis by (simp add: mbrtoc32_utf8)
qed

theorem c32rtomb_mbrtoc32_witness:
  "mbrtoc32 True (Some [0xe2, 0x82, 0xac, 0x41]) 4 mb_initial =
    Some \<lparr>mb_ret = 3, mb_errno = None, mb_state = mb_initial, mb_c = Some 0x20ac\<rparr>"
  using c32rtomb_mbrtoc32 [of "0x20ac" "[0xe2, 0x82, 0xac]" 4 "[0x41]"]
  by (simp add: scalar_def c32rtomb_eq utf8_bytes_def)

text \<open>C18. Round trip. What \<open>mbrtoc32\<close> decodes is a Unicode scalar value, and encoding it again
  gives exactly the bytes consumed: no overlong form and no surrogate is accepted.\<close>

theorem mbrtoc32_c32rtomb:
  assumes "mbrtoc32 True (Some s) n mb_initial = Some out" "0 < n" "unat n \<le> length s"
    and "mb_c out = Some c" "c \<noteq> 0"
  shows "mb_c (c32rtomb True c mb_initial) = Some (take (unat (mb_ret out)) s) \<and> scalar (unat c)"
proof -
  have out: "out = mb_result [] (take (unat n) s)"
    using mbrtoc32_refines_scan [of "[]" n s] assms(1-3) by (simp add: mb_prefix_lead mb_of_Nil)
  obtain len where sc: "utf8_scan (take (unat n) s) = Decoded c len" and r: "mb_ret out = of_nat len"
    using assms(4,5) by (auto simp: out mb_result_def split: utf8_outcome.splits)
  note d = utf8_scan_Decoded [OF sc]
  then have "len = length (utf8_bytes (unat c))" by (metis length_take min.absorb2)
  then have "len \<le> 4" by (simp add: utf8_bytes_def)
  then have "unat (mb_ret out) = len" unfolding r by (intro unat_of_nat_small) simp
  with d show ?thesis
    using assms(5) by (auto simp: c32rtomb_utf8 scalar_def min_def split: if_splits)
qed

theorem mbrtoc32_c32rtomb_witness:
  "mb_c (c32rtomb True 0x20ac mb_initial) = Some [0xe2, 0x82, 0xac] \<and> scalar 0x20ac"
proof -
  have "mbrtoc32 True (Some [0xe2, 0x82, 0xac, 0x41]) 4 mb_initial =
    Some \<lparr>mb_ret = 3, mb_errno = None, mb_state = mb_initial, mb_c = Some 0x20ac\<rparr>"
    by (simp add: mbrtoc32_def mb_initial_def mbstate_get_byte_def mbsinit_def
        mbstate_bytes_so_far_def mbrtoc32_lead_def mbrtoc32_fill.simps mbstate_set_byte_def
        min_def Let_def mbrtoc32_decode_def upt_rec mbstate_reset_and_return_def)
  from mbrtoc32_c32rtomb [OF this] show ?thesis by simp
qed

text \<open>C27. Restart. However a character is cut in two, the first call reports an incomplete
  sequence and the second, from the state it left, finishes the same character.\<close>

theorem mbrtoc32_restart:
  assumes "scalar (unat c)" "c \<noteq> 0"
    and "mb_c (c32rtomb True c mb_initial) = Some (xs @ ys)" "xs \<noteq> []" "ys \<noteq> []"
  shows "\<exists>st. mbrtoc32 True (Some xs) (of_nat (length xs)) mb_initial =
      Some \<lparr>mb_ret = MB_ERR_INCOMPLETE_SEQUENCE, mb_errno = None, mb_state = st, mb_c = None\<rparr> \<and>
    mbrtoc32 True (Some ys) (of_nat (length ys)) st =
      Some \<lparr>mb_ret = of_nat (length ys), mb_errno = None, mb_state = mb_initial, mb_c = Some c\<rparr>"
proof -
  have bs: "xs @ ys = utf8_bytes (unat c)"
    using assms(1-3) by (simp add: c32rtomb_utf8 scalar_def)
  have l4: "length (xs @ ys) \<le> 4" unfolding bs by (simp add: utf8_bytes_def)
  have u: "unat (of_nat (length xs) :: u64) = length xs" "unat (of_nat (length ys) :: u64) = length ys"
    using l4 by (intro unat_of_nat_small; simp)+
  have p: "0 < (of_nat (length xs) :: u64)" "0 < (of_nat (length ys) :: u64)"
    using assms(4,5) by (simp_all add: word_less_nat_alt u)
  have sc: "utf8_scan (xs @ ys) = Decoded c (length (xs @ ys))"
    using utf8_scan_bytes [OF assms(1), of "[]"] by (simp add: bs)
  from utf8_scan_proper_prefix [OF this assms(4,5)]
  have pre: "utf8_scan xs = Incomplete" "mb_prefix xs" by simp_all
  have "mbrtoc32 True (Some xs) (of_nat (length xs)) mb_initial = Some (mb_result [] xs)"
    using mbrtoc32_refines_scan [of "[]" "of_nat (length xs)" xs] p(1) u
    by (simp add: mb_of_Nil mb_prefix_lead)
  moreover have "mbrtoc32 True (Some ys) (of_nat (length ys)) (mb_of xs) = Some (mb_result xs (xs @ ys))"
    using mbrtoc32_refines_scan [OF pre(2) p(2), of ys] u by simp
  ultimately show ?thesis
    using pre(1) sc assms(2) by (simp add: mb_result_def)
qed

theorem mbrtoc32_restart_witness:
  "\<exists>st. mbrtoc32 True (Some [0xe2]) 1 mb_initial =
      Some \<lparr>mb_ret = MB_ERR_INCOMPLETE_SEQUENCE, mb_errno = None, mb_state = st, mb_c = None\<rparr> \<and>
    mbrtoc32 True (Some [0x82, 0xac]) 2 st =
      Some \<lparr>mb_ret = 2, mb_errno = None, mb_state = mb_initial, mb_c = Some 0x20ac\<rparr>"
  using mbrtoc32_restart [of "0x20ac" "[0xe2]" "[0x82, 0xac]"]
  by (simp add: scalar_def c32rtomb_eq utf8_bytes_def)

text \<open>C28. Safety. From a state that holds part of a character, \<open>mbrtoc32\<close> reads no byte past the
  \<open>n\<close> it is given, writes only inside the state, and leaves a state that again holds part of a
  character: the bytes seen so far when it reports an incomplete sequence, none otherwise.\<close>

theorem mbrtoc32_invariant:
  assumes "mb_prefix xs" "0 < n" "unat n \<le> length s"
  shows "\<exists>out ys. mbrtoc32 pc (Some s) n (mb_of xs) = Some out \<and> mb_prefix ys \<and> mb_state out = mb_of ys \<and>
    (mb_ret out = MB_ERR_INCOMPLETE_SEQUENCE \<and> ys = xs @ take (unat n) s \<or>
     mb_ret out = MB_ERR_ILLEGAL_SEQUENCE \<and> mb_errno out = Some EILSEQ \<and> ys = [] \<or>
     mb_ret out \<le> min 4 n \<and> ys = [])"
proof -
  let ?zs = "xs @ take (unat n) s"
  note r = mbrtoc32_out_flag [OF mbrtoc32_refines_scan [OF assms], of pc]
  have nil: "mb_prefix []" by (simp add: mb_prefix_lead)
  let ?out = "if pc then mb_result xs ?zs else (mb_result xs ?zs)\<lparr>mb_c := None\<rparr>"
  show ?thesis
  proof (cases "utf8_scan ?zs")
    case Incomplete
    with r utf8_scan_Incomplete_prefix [OF this] show ?thesis
      by (intro exI [of _ ?out] exI [of _ ?zs]) (simp_all add: mb_result_def)
  next
    case Illegal
    with r nil show ?thesis
      by (intro exI [of _ ?out] exI [of _ "[]"]) (simp_all add: mb_result_def mb_of_Nil)
  next
    case (Decoded c len)
    note d = utf8_scan_Decoded [OF this] utf8_scan_Decoded_length [OF this]
    define k where "k = len - length xs"
    have "len \<le> length ?zs" using d(1) by blast
    then have "k \<le> 4" "k \<le> unat n" using d(3) assms(3) by (simp_all add: k_def)
    then have "(of_nat k :: u64) \<le> min 4 n"
      by (simp add: word_le_nat_alt unat_of_nat_small min_def)
    with Decoded r nil show ?thesis
      by (intro exI [of _ ?out] exI [of _ "[]"]) (simp_all add: mb_result_def mb_of_Nil flip: k_def)
  qed
qed

theorem mbrtoc32_invariant_witness:
  "\<exists>out ys. mbrtoc32 False (Some [0x82]) 1 (mb_of [0xe2]) = Some out \<and> mb_prefix ys \<and>
    mb_state out = mb_of ys \<and>
    (mb_ret out = MB_ERR_INCOMPLETE_SEQUENCE \<and> ys = [0xe2, 0x82] \<or>
     mb_ret out = MB_ERR_ILLEGAL_SEQUENCE \<and> mb_errno out = Some EILSEQ \<and> ys = [] \<or>
     mb_ret out \<le> min 4 1 \<and> ys = [])"
  using mbrtoc32_invariant [of "[0xe2]" 1 "[0x82]" False]
  by (simp add: mb_prefix_lead mbrtoc32_lead_def)

end
