(* ===== verification/Uchar16.thy ===== *)
theory Uchar16
  imports Uchar
begin

text \<open>
  UTF-16: \<open>mbrtoc16.cpp\<close> and \<open>c16rtomb.cpp\<close>. A character outside the basic plane is two
  \<open>char16_t\<close> units; both functions keep half of the pair in the conversion state. The
  reference units are \<open>utf16_high\<close> and \<open>utf16_low\<close>.
\<close>

section \<open>UTF-16\<close>

definition mbspartialc16 :: "mbstate_t \<Rightarrow> bool" where
  "mbspartialc16 st \<longleftrightarrow> mbstate_get_byte st 3 \<noteq> 0"

definition begin_surrogate :: "u32 \<Rightarrow> u64 \<Rightarrow> mbstate_t \<Rightarrow> u16 mb_out" where
  "begin_surrogate c nconv st =
     (let c32 = c - 0x10000;
          trail = (ucast ((c32 AND 0x3ff) OR 0xdc00) :: u16);
          st0 = mbstate_set_byte st 0 (ucast (trail AND 0x00ff));
          st1 = mbstate_set_byte st0 1 (ucast (drop_bit 8 (trail AND 0xff00)));
          st3 = mbstate_set_byte st1 3 (ucast (nconv AND 0xff))
      in \<lparr>mb_ret = - 3, mb_errno = None, mb_state = st3,
          mb_c = Some (ucast (drop_bit 10 (c32 AND 0xffc00) OR 0xd800))\<rparr>)"

definition finish_surrogate :: "mbstate_t \<Rightarrow> u16 mb_out" where
  "finish_surrogate st =
     mbstate_reset_and_return (ucast (mbstate_get_byte st 3))
       (Some (push_bit 8 (ucast (mbstate_get_byte st 1)) OR ucast (mbstate_get_byte st 0)))"

text \<open>The argument \<open>pc16\<close> says whether the output pointer is non-null.\<close>

definition mbrtoc16 ::
  "bool \<Rightarrow> u8 list option \<Rightarrow> u64 \<Rightarrow> mbstate_t \<Rightarrow> u16 mb_out option" where
  "mbrtoc16 pc16 src n st =
     map_option (\<lambda>out. if pc16 then out else out\<lparr>mb_c := None\<rparr>)
       (if mbspartialc16 st then Some (finish_surrogate st)
        else case mbrtoc32 True src n st of
            None \<Rightarrow> None
          | Some r \<Rightarrow>
              let nconv = mb_ret r; st' = mb_state r in
              if mb_is_err nconv then
                Some \<lparr>mb_ret = nconv, mb_errno = mb_errno r, mb_state = st', mb_c = None\<rparr>
              else if nconv = 0 then Some (mbstate_reset_and_return nconv None)
              else case mb_c r of
                  None \<Rightarrow> None
                | Some c32 \<Rightarrow>
                    Some (if c32 > 0x10ffff then mbstate_reset_and_return_illegal EILSEQ
                          else if c32 < 0x10000 then mbstate_reset_and_return nconv (Some (ucast c32))
                          else begin_surrogate c32 nconv st'))"

definition is_high_surrogate :: "u16 \<Rightarrow> bool" where
  "is_high_surrogate c16 \<longleftrightarrow> c16 \<ge> 0xd800 \<and> c16 < 0xdc00"

definition is_low_surrogate :: "u16 \<Rightarrow> bool" where
  "is_low_surrogate c16 \<longleftrightarrow> c16 \<ge> 0xdc00 \<and> c16 < 0xe000"

text \<open>
  The last call of \<open>c32rtomb\<close> passes a null state, that is \<open>c32rtomb\<close>'s own static one. No
  path of \<open>c32rtomb\<close> leaves a state other than the initial one behind, so it is initial.
\<close>

definition c16rtomb :: "bool \<Rightarrow> u16 \<Rightarrow> mbstate_t \<Rightarrow> u8 list mb_out" where
  "c16rtomb s c16 st =
     (if mbsinit (Some st) then
        if is_high_surrogate c16 then
          let c32 = push_bit 10 (ucast c16 AND NOT 0xd800 :: u32);
              st3 = mbstate_set_byte st 3 (ucast (drop_bit 16 (c32 AND 0xff0000)));
              st2 = mbstate_set_byte st3 2 (ucast (drop_bit 8 (c32 AND 0x00ff00)))
          in \<lparr>mb_ret = 0, mb_errno = None, mb_state = st2, mb_c = None\<rparr>
        else if is_low_surrogate c16 then mbstate_reset_and_return_illegal EINVAL
        else c32rtomb s (ucast c16) st
      else if \<not> is_low_surrogate c16 then mbstate_reset_and_return_illegal EINVAL
      else
        let c32 = (push_bit 16 (ucast (mbstate_get_byte st 3)) OR
                   push_bit 8 (ucast (mbstate_get_byte st 2)) OR
                   (ucast c16 AND NOT 0xdc00 :: u32)) + 0x10000;
            r = c32rtomb s c32 mb_initial
        in (mbstate_reset_and_return (mb_ret r) (mb_c r))\<lparr>mb_errno := mb_errno r\<rparr>)"

definition utf16_high :: "nat \<Rightarrow> u16" where
  "utf16_high c = of_nat (0xd800 + (c - 0x10000) div 1024)"

definition utf16_low :: "nat \<Rightarrow> u16" where
  "utf16_low c = of_nat (0xdc00 + c mod 1024)"

lemma byte_field:
  fixes w :: u32
  assumes "n \<le> 24"
  shows "(ucast (drop_bit n (w AND push_bit n 0xff)) :: u8) = of_nat (unat w div 2 ^ n)"
proof -
  have "(0xff :: u32) = mask 8" by (simp add: mask_numeral)
  moreover have "(ucast (drop_bit n (w AND push_bit n (mask 8))) :: u8) = ucast (drop_bit n w)"
    using assms by (auto intro!: bit_eqI simp: bit_simps)
  ultimately have "(ucast (drop_bit n (w AND push_bit n 0xff)) :: u8) = ucast (drop_bit n w)"
    by (simp only:)
  also have "\<dots> = of_nat (unat (drop_bit n w))" by simp
  finally show ?thesis by (simp only: unat_drop_bit)
qed

lemma unat_surrogates:
  assumes "h < 0x400"
  shows "unat (of_nat (0xd800 + h) :: u16) = 0xd800 + h" "unat (of_nat (0xdc00 + h) :: u16) = 0xdc00 + h"
  using assms by (intro unat_of_nat_small; simp)+

lemma ucast_surrogates:
  assumes "h < 0x400"
  shows "(ucast (of_nat (0xd800 + h) :: u16) :: u32) = push_bit 11 27 + of_nat h"
    "(ucast (of_nat (0xdc00 + h) :: u16) :: u32) = push_bit 10 55 + of_nat h"
proof -
  have "unat (of_nat h :: u32) = h" using assms by (intro unat_of_nat_small) simp
  then show "(ucast (of_nat (0xd800 + h) :: u16) :: u32) = push_bit 11 27 + of_nat h"
    "(ucast (of_nat (0xdc00 + h) :: u16) :: u32) = push_bit 10 55 + of_nat h"
    using assms by (simp_all only: word_unat_eq_iff unat_ucast_mod unat_surrogates) (simp_all add: unat_word_ariths)
qed

lemma strip_surrogates:
  assumes "h < 0x400"
  shows "(ucast (of_nat (0xd800 + h) :: u16) AND NOT 0xd800 :: u32) = of_nat h"
    "(ucast (of_nat (0xdc00 + h) :: u16) AND NOT 0xdc00 :: u32) = of_nat h"
proof -
  have "unat (of_nat h :: u32) = h" using assms by (intro unat_of_nat_small) simp
  then have "(push_bit 11 27 + of_nat h :: u32) AND NOT (push_bit 11 27) = of_nat h" 
    "(push_bit 10 55 + of_nat h :: u32) AND NOT (push_bit 10 55) = of_nat h"
    using assms by (intro strip_high_bits; simp)+
  moreover have "(0xd800 :: u32) = push_bit 11 27" "(0xdc00 :: u32) = push_bit 10 55" by simp_all
  ultimately show "(ucast (of_nat (0xd800 + h) :: u16) AND NOT 0xd800 :: u32) = of_nat h"
    "(ucast (of_nat (0xdc00 + h) :: u16) AND NOT 0xdc00 :: u32) = of_nat h"
    by (simp_all only: ucast_surrogates [OF assms])
qed


lemma c16rtomb_high:
  assumes "h < 0x400"
  shows "c16rtomb s (of_nat (0xd800 + h)) mb_initial =
    \<lparr>mb_ret = 0, mb_errno = None,
     mb_state = \<lparr>seq0 = 0, seq1 = 0, seq2 = of_nat (h * 4), seq3 = of_nat (h div 64)\<rparr>, mb_c = None\<rparr>"
proof -
  let ?c = "push_bit 10 (ucast (of_nat (0xd800 + h) :: u16) AND NOT 0xd800 :: u32)"
  have "unat (of_nat h :: u32) = h" using assms by (intro unat_of_nat_small) simp
  then have u: "unat ?c = h * 1024"
    unfolding strip_surrogates [OF assms] push_bit_eq_mult
    using assms by (simp add: unat_word_ariths)
  have "(0xff0000 :: u32) = push_bit 16 0xff" "(0xff00 :: u32) = push_bit 8 0xff" by simp_all
  moreover have "h * 1024 div 2 ^ 16 = h div 64" "h * 1024 div 2 ^ 8 = h * 4"
    using div_mult_mult2 [of 1024 h 64] div_mult_mult2 [of 256 "h * 4" 1] by simp_all
  ultimately have b: "(ucast (drop_bit 16 (?c AND 0xff0000)) :: u8) = of_nat (h div 64)"
    "(ucast (drop_bit 8 (?c AND 0x00ff00)) :: u8) = of_nat (h * 4)"
    using byte_field [of 16 ?c] byte_field [of 8 ?c] by (simp_all only: u)
  have high: "is_high_surrogate (of_nat (0xd800 + h))"
    using assms by (simp add: is_high_surrogate_def word_le_nat_alt word_less_nat_alt unat_surrogates del: of_nat_add)
  show ?thesis
    unfolding c16rtomb_def Let_def
    by (simp only: high mbsinit_initial b if_True) (simp add: mbstate_set_byte_def mb_initial_def)
qed

lemma surrogate_bytes:
  assumes "h < 0x400"
  shows "unat (of_nat (h * 4) :: u8) = (h mod 64) * 4" "unat (of_nat (h div 64) :: u8) = h div 64"
proof -
  have "h * 4 mod (64 * 4) = (h mod 64) * 4" by (rule mult_mod_left [symmetric])
  then show "unat (of_nat (h * 4) :: u8) = (h mod 64) * 4"
    by (simp only: unat_of_nat take_bit_eq_mod) simp
  have "h div 64 < 16" using assms by (simp add: less_mult_imp_div_less)
  then show "unat (of_nat (h div 64) :: u8) = h div 64" by (intro unat_of_nat_small) simp
qed

lemma surrogate_join:
  fixes x y z :: u32
  assumes "unat x < 16" "unat y = q * 4" "q < 64" "unat z < 0x400"
  shows "unat ((push_bit 16 x OR push_bit 8 y OR z) + 0x10000) =
    0x10000 + unat x * 0x10000 + q * 0x400 + unat z"
proof -
  have "push_bit 8 y = push_bit 10 (of_nat q)"
    using assms(2,3) by (simp add: word_unat_eq_iff push_bit_eq_mult unat_word_ariths unat_of_nat_small)
  then have "push_bit 8 y OR z = z + push_bit 10 (of_nat q)"
    using or_push_bit_eq_add [of z 10 "of_nat q"] assms(4) by (simp add: or.commute)
  moreover have u: "unat (z + push_bit 10 (of_nat q)) = unat z + q * 1024"
    using assms(3,4) by (simp add: push_bit_eq_mult unat_word_ariths unat_of_nat_small)
  ultimately have "push_bit 16 x OR push_bit 8 y OR z = (z + push_bit 10 (of_nat q)) + push_bit 16 x"
    using or_push_bit_eq_add [of "z + push_bit 10 (of_nat q)" 16 x] assms(3,4)
    by (simp add: or.assoc) (simp add: or.commute)
  moreover have "unat (push_bit 16 x) = unat x * 0x10000"
    using assms(1) by (simp add: push_bit_eq_mult unat_word_ariths)
  ultimately show ?thesis
    using u assms by (simp only: unat_word_ariths) simp
qed

lemma c16rtomb_low:
  assumes "0 < h" "h < 0x400" "l < 0x400"
  shows "c16rtomb True (of_nat (0xdc00 + l))
      \<lparr>seq0 = 0, seq1 = 0, seq2 = of_nat (h * 4), seq3 = of_nat (h div 64)\<rparr> =
    \<lparr>mb_ret = 4, mb_errno = None, mb_state = mb_initial,
     mb_c = Some (utf8_bytes (0x10000 + h * 1024 + l))\<rparr>"
proof -
  let ?st = "\<lparr>seq0 = 0, seq1 = 0, seq2 = of_nat (h * 4), seq3 = of_nat (h div 64)\<rparr>"
  let ?lo = "ucast (of_nat (0xdc00 + l) :: u16) AND NOT 0xdc00 :: u32"
  let ?X = "push_bit 16 (ucast (mbstate_get_byte ?st 3)) OR
            push_bit 8 (ucast (mbstate_get_byte ?st 2)) OR ?lo"
  note sb = surrogate_bytes [OF assms(2)]
  have split: "h = h div 64 * 64 + h mod 64" by simp
  have "h mod 64 * 4 \<noteq> 0 \<or> h div 64 \<noteq> 0" using assms(1) split by linarith
  then have init: "\<not> mbsinit (Some ?st)"
    using sb by (simp only: mbsinit_def option.case mbstate_t.simps word_unat_eq_iff unat_0 simp_thms)
      auto
  have low: "is_low_surrogate (of_nat (0xdc00 + l))"
    using assms(3) by (simp add: is_low_surrogate_def word_le_nat_alt word_less_nat_alt unat_surrogates del: of_nat_add)
  have get: "mbstate_get_byte ?st 3 = of_nat (h div 64)" "mbstate_get_byte ?st 2 = of_nat (h * 4)"
    by (simp_all add: mbstate_get_byte_def)
  have "unat ?lo = l" 
    unfolding strip_surrogates [OF assms(3)] using assms(3) by (intro unat_of_nat_small) simp
  then have "unat (?X + 0x10000) = 0x10000 + h div 64 * 0x10000 + h mod 64 * 0x400 + l"
    unfolding get using assms sb surrogate_join [of "ucast (of_nat (h div 64) :: u8)" "ucast (of_nat (h * 4) :: u8)" "h mod 64" ?lo]
    by (simp add: less_mult_imp_div_less del: of_nat_mult)
  also have "\<dots> = 0x10000 + h * 1024 + l" using split by linarith
  finally have u: "unat (?X + 0x10000) = 0x10000 + h * 1024 + l" .
  have len: "length (utf8_bytes (0x10000 + h * 1024 + l)) = 4"
    by (simp add: utf8_bytes_def)
  have "0x10000 + h * 1024 + l < 0x200000" using assms by simp
  then have "c32rtomb True (?X + 0x10000) mb_initial = 
    \<lparr>mb_ret = of_nat 4, mb_errno = None, mb_state = mb_initial, mb_c = Some (utf8_bytes (0x10000 + h * 1024 + l))\<rparr>"
    by (simp only: c32rtomb_eq u len if_True)
  then show ?thesis
    unfolding c16rtomb_def Let_def
    by (simp only: init low if_True if_False simp_thms mb_out.simps reset_small) simp
qed


lemma u16_halves:
  fixes w :: u16
  shows "push_bit 8 (ucast (ucast (drop_bit 8 (w AND 0xff00)) :: u8)) OR
    ucast (ucast (w AND 0x00ff) :: u8) = w"
proof -
  have m: "(0xff00 :: u16) = push_bit 8 (mask 8)" "(0x00ff :: u16) = mask 8" by (simp_all add: mask_numeral)
  show ?thesis unfolding m by (rule bit_eqI) (auto simp: bit_simps)
qed

lemma surrogate_units:
  assumes "0x10000 \<le> unat c" "unat c \<le> 0x10ffff"
  shows "(ucast ((c - 0x10000 AND 0x3ff) OR 0xdc00 :: u32) :: u16) = utf16_low (unat c)"
    and "(ucast (drop_bit 10 (c - 0x10000 AND 0xffc00) OR 0xd800 :: u32) :: u16) = utf16_high (unat c)"
proof -
  define d where "d = c - 0x10000"
  have u: "unat d = unat c - 0x10000"
    using assms by (simp add: d_def unat_sub_if' )
  have m: "(0x3ff :: u32) = mask 10"
    "(0xdc00 :: u32) = push_bit 10 55" "(0xd800 :: u32) = push_bit 11 27" by (simp_all add: mask_numeral)
  have "unat c = 64 * 1024 + unat d" using u assms by simp
  then have lo: "unat (d AND 0x3ff) = unat c mod 1024"
    unfolding m unat_and_mask using mod_mult_self3 [of 64 1024 "unat d"] by simp
  have "drop_bit 10 (0xffc00 :: u32) = mask 10" by (simp add: mask_numeral)
  then have "unat (drop_bit 10 (d AND 0xffc00)) = unat d div 1024 mod 1024"
    by (simp only: drop_bit_and unat_and_mask unat_drop_bit) simp
  moreover have "unat d div 1024 < 1024" using u assms by (simp add: less_mult_imp_div_less)
  ultimately have hi: "unat (drop_bit 10 (d AND 0xffc00)) = (unat c - 0x10000) div 1024" 
    "unat (drop_bit 10 (d AND 0xffc00)) < 1024" using u by simp_all
  have "(d AND 0x3ff) OR 0xdc00 = (d AND 0x3ff) + push_bit 10 55"
    unfolding m(2) by (rule or_push_bit_eq_add) (simp add: lo)
  then show "(ucast ((c - 0x10000 AND 0x3ff) OR 0xdc00 :: u32) :: u16) = utf16_low (unat c)"
    unfolding d_def [symmetric]
    using lo by (simp add: word_unat_eq_iff unat_ucast_mod utf16_low_def unat_word_ariths unat_surrogates del: of_nat_add)
  have "drop_bit 10 (d AND 0xffc00) OR 0xd800 = drop_bit 10 (d AND 0xffc00) + push_bit 11 27"
    unfolding m(3) by (rule or_push_bit_eq_add) (use hi(2) in simp)
  then show "(ucast (drop_bit 10 (c - 0x10000 AND 0xffc00) OR 0xd800 :: u32) :: u16) = utf16_high (unat c)"
    unfolding d_def [symmetric]
    using hi by (simp add: word_unat_eq_iff unat_ucast_mod utf16_high_def unat_word_ariths unat_surrogates del: of_nat_add)
qed

lemma begin_surrogate_eq:
  assumes "0x10000 \<le> unat c" "unat c \<le> 0x10ffff" "0 < k" "k \<le> 4"
  shows "mb_ret (begin_surrogate c (of_nat k) st) = - 3 \<and>
    mb_errno (begin_surrogate c (of_nat k) st) = None \<and>
    mb_c (begin_surrogate c (of_nat k) st) = Some (utf16_high (unat c)) \<and>
    mbspartialc16 (mb_state (begin_surrogate c (of_nat k) st)) \<and>
    finish_surrogate (mb_state (begin_surrogate c (of_nat k) st)) =
      \<lparr>mb_ret = of_nat k, mb_errno = None, mb_state = mb_initial, mb_c = Some (utf16_low (unat c))\<rparr>"
proof -
  consider "k = 1" | "k = 2" | "k = 3" | "k = 4" using assms(3,4) by linarith
  then have k: "(ucast (of_nat k AND 0xff :: u64) :: u8) = of_nat k" "of_nat k \<noteq> (0 :: u8)"
    "(ucast (of_nat k :: u8) :: u64) = of_nat k" by (cases; simp)+
  have r: "mbstate_reset_and_return (of_nat k) c = 
    \<lparr>mb_ret = of_nat k, mb_errno = None, mb_state = mb_initial, mb_c = c\<rparr>" for c :: "u16 option"
    using assms(4) by (intro reset_small) simp
  show ?thesis
    unfolding begin_surrogate_def Let_def surrogate_units [OF assms(1,2)] k(1)
    by (simp add: finish_surrogate_def mbspartialc16_def mbstate_get_byte_def mbstate_set_byte_def k r
        u16_halves [simplified])
qed


section \<open>Properties\<close>

text \<open>C30. A surrogate pair whose high unit is not \<open>0xd800\<close> is encoded by two calls of
  \<open>c16rtomb\<close>: the first stores nothing and returns 0, the second stores the four UTF-8 bytes
  of the character.\<close>

theorem c16rtomb_pair:
  assumes "0x10400 \<le> c" "c \<le> 0x10ffff"
  shows "mb_ret (c16rtomb True (utf16_high c) mb_initial) = 0 \<and>
    c16rtomb True (utf16_low c) (mb_state (c16rtomb True (utf16_high c) mb_initial)) =
      \<lparr>mb_ret = 4, mb_errno = None, mb_state = mb_initial, mb_c = Some (utf8_bytes c)\<rparr>"
proof -
  define d where "d = c - 0x10000"
  define h where "h = d div 1024"
  have c: "c = 0x10000 + d" and d: "0x400 \<le> d" "d < 0x400 * 1024" using assms by (simp_all add: d_def)
  have h: "0 < h" "h < 0x400" 
    using d(1) less_mult_imp_div_less [OF d(2)] by (simp_all add: h_def div_greater_zero_iff)
  have "c mod 1024 = d mod 1024"
    unfolding c using mod_mult_self3 [of 64 1024 d] by simp
  then have "c = 0x10000 + h * 1024 + c mod 1024"
    unfolding c h_def by simp
  then show ?thesis
    using c16rtomb_high [OF h(2), of True] c16rtomb_low [OF h, of "c mod 1024"]
    by (simp add: utf16_high_def utf16_low_def flip: d_def h_def del: of_nat_add of_nat_mult)
qed

theorem c16rtomb_pair_witness:
  "mb_ret (c16rtomb True (utf16_high 0x10abcd) mb_initial) = 0 \<and>
    c16rtomb True (utf16_low 0x10abcd) (mb_state (c16rtomb True (utf16_high 0x10abcd) mb_initial)) =
      \<lparr>mb_ret = 4, mb_errno = None, mb_state = mb_initial, mb_c = Some (utf8_bytes 0x10abcd)\<rparr>"
  using c16rtomb_pair [of "0x10abcd"] by simp

text \<open>C40. The pairs \<open>c16rtomb\<close> cannot encode. The high unit \<open>0xd800\<close> has no payload bits, so the
  state the first call leaves is the initial one; the second call takes its low unit for a
  lone surrogate and fails with \<open>EINVAL\<close>. This holds of all of U+10000 to U+103FF.\<close>

theorem c16rtomb_first_page_rejected:
  assumes "0x10000 \<le> c" "c < 0x10400"
  shows "c16rtomb s (utf16_high c) mb_initial =
      \<lparr>mb_ret = 0, mb_errno = None, mb_state = mb_initial, mb_c = None\<rparr> \<and>
    c16rtomb s (utf16_low c) (mb_state (c16rtomb s (utf16_high c) mb_initial)) =
      \<lparr>mb_ret = MB_ERR_ILLEGAL_SEQUENCE, mb_errno = Some EINVAL, mb_state = mb_initial, mb_c = None\<rparr>"
proof -
  have "(c - 0x10000) div 1024 = 0" using assms by simp
  then have 1: "c16rtomb s (utf16_high c) mb_initial = 
      \<lparr>mb_ret = 0, mb_errno = None, mb_state = mb_initial, mb_c = None\<rparr>"
    using c16rtomb_high [of 0 s] by (simp add: utf16_high_def mb_initial_def)
  have "is_low_surrogate (utf16_low c)" "\<not> is_high_surrogate (utf16_low c)"
    unfolding utf16_low_def
    by (simp_all add: is_low_surrogate_def is_high_surrogate_def word_le_nat_alt word_less_nat_alt unat_surrogates del: of_nat_add)
  then have 2: "c16rtomb s (utf16_low c) mb_initial =
      \<lparr>mb_ret = MB_ERR_ILLEGAL_SEQUENCE, mb_errno = Some EINVAL, mb_state = mb_initial, mb_c = None\<rparr>"
    by (simp add: c16rtomb_def mbstate_reset_and_return_illegal_def)
  show ?thesis by (simp add: 1 2)
qed

theorem c16rtomb_first_page_rejected_witness:
  "c16rtomb True (utf16_high 0x10330) mb_initial =
      \<lparr>mb_ret = 0, mb_errno = None, mb_state = mb_initial, mb_c = None\<rparr> \<and>
    c16rtomb True (utf16_low 0x10330) (mb_state (c16rtomb True (utf16_high 0x10330) mb_initial)) =
      \<lparr>mb_ret = MB_ERR_ILLEGAL_SEQUENCE, mb_errno = Some EINVAL, mb_state = mb_initial, mb_c = None\<rparr>"
  by (rule c16rtomb_first_page_rejected) simp_all

text \<open>C31. \<open>mbrtoc16\<close> turns the four bytes of a character outside the basic plane into its two
  units: the first call stores the high unit and returns \<open>-3\<close>; the second stores the low unit,
  returns 4 and resets the state, whatever its source argument is.\<close>

theorem mbrtoc16_pair:
  assumes "0x10000 \<le> c" "c \<le> 0x10ffff" "4 \<le> unat n" "unat n \<le> length (utf8_bytes c @ r)"
  shows "\<exists>st. mbrtoc16 True (Some (utf8_bytes c @ r)) n mb_initial =
      Some \<lparr>mb_ret = - 3, mb_errno = None, mb_state = st, mb_c = Some (utf16_high c)\<rparr> \<and>
    (\<forall>src m. mbrtoc16 True src m st =
      Some \<lparr>mb_ret = 4, mb_errno = None, mb_state = mb_initial, mb_c = Some (utf16_low c)\<rparr>)"
proof -
  have uc: "unat (of_nat c :: u32) = c" using assms(2) by (intro unat_of_nat_small) simp
  have len: "length (utf8_bytes c) = 4" using assms(1) by (simp add: utf8_bytes_def)
  have sc: "scalar (unat (of_nat c :: u32))" unfolding uc using assms by (simp add: scalar_def)
  have c0: "(of_nat c :: u32) \<noteq> 0" using uc assms(1) by (auto simp flip: word_unat_eq_iff)
  have tk: "take (unat n) (utf8_bytes c @ r) = utf8_bytes c @ take (unat n - 4) r"
    using len assms(3) by simp
  have m: "mbrtoc32 True (Some (utf8_bytes c @ r)) n mb_initial = Some
    \<lparr>mb_ret = 4, mb_errno = None, mb_state = mb_initial, mb_c = Some (of_nat c)\<rparr>"
  proof -
    have "0 < n" using assms(3) by (simp add: word_less_nat_alt)
    from mbrtoc32_refines_scan [of "[]" n "utf8_bytes c @ r", OF _ this assms(4)] show ?thesis
      using utf8_scan_bytes [OF sc, of "take (unat n - 4) r"] c0 len
      by (simp only: tk uc) (simp add: mb_prefix_lead mb_of_Nil mb_result_def)
  qed
  have np: "\<not> mbspartialc16 mb_initial"
    by (simp add: mbspartialc16_def mbstate_get_byte_def mb_initial_def)
  have lims: "\<not> (of_nat c :: u32) > 0x10ffff" "\<not> (of_nat c :: u32) < 0x10000"
    using assms(1,2) by (simp_all add: word_less_nat_alt uc)
  define b where "b = begin_surrogate (of_nat c) 4 mb_initial"
  have "mbrtoc16 True (Some (utf8_bytes c @ r)) n mb_initial = Some b"
    unfolding mbrtoc16_def b_def using lims
    by (simp add: np m mb_is_err_def)
  moreover have be: "mb_ret b = - 3 \<and> mb_errno b = None \<and> mb_c b = Some (utf16_high c) \<and>
    mbspartialc16 (mb_state b) \<and> finish_surrogate (mb_state b) =
      \<lparr>mb_ret = 4, mb_errno = None, mb_state = mb_initial, mb_c = Some (utf16_low c)\<rparr>"
    using begin_surrogate_eq [of "of_nat c" 4 mb_initial] assms(1,2) by (simp add: b_def uc)
  moreover have "mbrtoc16 True src k (mb_state b) = Some (finish_surrogate (mb_state b))" for src k
    using be by (simp add: mbrtoc16_def)
  ultimately show ?thesis
    by (intro exI [of _ "mb_state b"]) (simp add: mb_out.equality)
qed

theorem mbrtoc16_pair_witness:
  "\<exists>st. mbrtoc16 True (Some [0xf4, 0x8a, 0xaf, 0x8d]) 4 mb_initial =
      Some \<lparr>mb_ret = - 3, mb_errno = None, mb_state = st, mb_c = Some 0xdbea\<rparr> \<and>
    (\<forall>src m. mbrtoc16 True src m st =
      Some \<lparr>mb_ret = 4, mb_errno = None, mb_state = mb_initial, mb_c = Some 0xdfcd\<rparr>)"
  using mbrtoc16_pair [of "0x10abcd" 4 "[]"]
  by (simp add: utf8_bytes_def utf16_high_def utf16_low_def)

end
