(* ===== verification/Wchar_Strings.thy ===== *)
theory Wchar_Strings
  imports Uchar
begin

text \<open>
  The restartable string conversions of \<open>wchar.cpp\<close>: \<open>mbsnrtowcs\<close>, \<open>wcsnrtombs\<close> and
  their wrappers, loops over \<open>mbrtowc\<close> and \<open>wcrtomb\<close> with fast paths for ASCII.
\<close>

section \<open>Strings\<close>

definition mbrtowc ::
  "bool \<Rightarrow> u8 list option \<Rightarrow> u64 \<Rightarrow> mbstate_t \<Rightarrow> u32 mb_out option" where
  "mbrtowc pwc s n st = mbrtoc32 pwc s n st"

definition wcrtomb :: "bool \<Rightarrow> u32 \<Rightarrow> mbstate_t \<Rightarrow> u8 list mb_out" where
  "wcrtomb s wc st = c32rtomb s wc st"

text \<open>
  The string functions also update \<open>*src\<close>: it stays as it was, becomes null at the
  terminator, or moves to the given offset. \<open>ms_dst\<close> lists what is stored from \<open>dst[0]\<close> on.
\<close>

datatype src_pos = SrcSame | SrcNull | SrcAt nat

record 'a mbs_out =
  ms_ret :: u64
  ms_errno :: "int option"
  ms_state :: mbstate_t
  ms_dst :: "'a list"
  ms_src :: src_pos

definition mbs_return :: "nat \<Rightarrow> 'a list \<Rightarrow> src_pos \<Rightarrow> 'a mbs_out" where
  "mbs_return oc dst src =
     (let r = mbstate_reset_and_return (of_nat oc) (None :: unit option)
      in \<lparr>ms_ret = mb_ret r, ms_errno = None, ms_state = mb_state r, ms_dst = dst, ms_src = src\<rparr>)"

definition mbs_illegal :: "'a list \<Rightarrow> src_pos \<Rightarrow> 'a mbs_out" where
  "mbs_illegal dst src =
     \<lparr>ms_ret = MB_ERR_ILLEGAL_SEQUENCE, ms_errno = Some EILSEQ, ms_state = mb_initial,
      ms_dst = dst, ms_src = src\<rparr>"

text \<open>
  The measuring loop (\<open>dst\<close> null). \<open>s\<close> is \<open>*src + i\<close> and \<open>k\<close> is \<open>nmc - i\<close>.
\<close>

function mbsnrtowcs_measure ::
  "u8 list \<Rightarrow> nat \<Rightarrow> nat \<Rightarrow> mbstate_t \<Rightarrow> u32 mbs_out option" where
  "mbsnrtowcs_measure s k oc st =
     (if k = 0 then Some (mbs_return oc [] SrcSame)
      else case s of
          [] \<Rightarrow> None
        | b # s' \<Rightarrow>
            if unat b < 0x80 then
              if b = 0 then Some (mbs_return oc [] SrcSame)
              else mbsnrtowcs_measure s' (k - 1) (oc + 1) st
            else case mbrtowc False (Some s) (of_nat k) st of
                None \<Rightarrow> None
              | Some r \<Rightarrow>
                  if mb_ret r = MB_ERR_ILLEGAL_SEQUENCE then Some (mbs_illegal [] SrcSame)
                  else if mb_ret r = MB_ERR_INCOMPLETE_SEQUENCE then Some (mbs_illegal [] SrcSame)
                  else if mb_ret r = 0 then Some (mbs_return oc [] SrcSame)
                  else mbsnrtowcs_measure (drop (unat (mb_ret r)) s) (k - unat (mb_ret r)) (oc + 1)
                         (mb_state r))"
  by pat_completeness auto
termination
  by (relation "measure (\<lambda>(s, k, oc, st). length s)") (auto simp: unat_gt_0)

text \<open>
  The converting loop: \<open>i\<close> and \<open>o\<close> count input bytes and output characters; \<open>dst\<close> holds
  the characters stored so far. A character that \<open>mbrtowc\<close> stores before it reports the
  terminator is stored too.
\<close>

function mbsnrtowcs_convert ::
  "u8 list \<Rightarrow> nat \<Rightarrow> nat \<Rightarrow> nat \<Rightarrow> nat \<Rightarrow> u32 list \<Rightarrow> mbstate_t \<Rightarrow> u32 mbs_out option" where
  "mbsnrtowcs_convert s i nmc oc len dst st =
     (if \<not> (i < nmc \<and> oc < len) then Some (mbs_return oc dst (SrcAt i))
      else case s of
          [] \<Rightarrow> None
        | b # s' \<Rightarrow>
            if unat b < 0x80 then
              if b = 0 then Some (mbs_return oc (dst @ [ucast b]) SrcNull)
              else mbsnrtowcs_convert s' (i + 1) nmc (oc + 1) len (dst @ [ucast b]) st
            else case mbrtowc True (Some s) (of_nat (nmc - i)) st of
                None \<Rightarrow> None
              | Some r \<Rightarrow>
                  if mb_ret r = MB_ERR_ILLEGAL_SEQUENCE then Some (mbs_illegal dst (SrcAt i))
                  else if mb_ret r = MB_ERR_INCOMPLETE_SEQUENCE then
                    Some (mbs_illegal dst (SrcAt nmc))
                  else
                    let dst' = dst @ (case mb_c r of None \<Rightarrow> [] | Some c \<Rightarrow> [c]) in
                    if mb_ret r = 0 then Some (mbs_return oc dst' SrcNull)
                    else mbsnrtowcs_convert (drop (unat (mb_ret r)) s) (i + unat (mb_ret r)) nmc
                           (oc + 1) len dst' (mb_state r))"
  by pat_completeness auto
termination
  by (relation "measure (\<lambda>(s, i, nmc, oc, len, dst, st). length s)") (auto simp: unat_gt_0)

declare mbsnrtowcs_measure.simps [simp del] mbsnrtowcs_convert.simps [simp del]

text \<open>The first guard reads one byte of the source when \<open>nmc\<close> is positive.\<close>

definition mbsnrtowcs ::
  "bool \<Rightarrow> u8 list \<Rightarrow> u64 \<Rightarrow> u64 \<Rightarrow> mbstate_t \<Rightarrow> u32 mbs_out option" where
  "mbsnrtowcs dst src nmc len st =
     (if nmc > 0 \<and> mbstate_bytes_so_far st > 0 \<and> src = [] then None
      else if nmc > 0 \<and> mbstate_bytes_so_far st > 0 \<and> unat (hd src) < 0x80 then
        Some (mbs_illegal [] SrcSame)
      else if \<not> dst then mbsnrtowcs_measure src (unat nmc) 0 st
      else mbsnrtowcs_convert src 0 (unat nmc) 0 (unat len) [] st)"

definition mbsrtowcs :: "bool \<Rightarrow> u8 list \<Rightarrow> u64 \<Rightarrow> mbstate_t \<Rightarrow> u32 mbs_out option" where
  "mbsrtowcs dst src len st = mbsnrtowcs dst src (- 1) len st"

text \<open>
  \<open>wcsnrtombs\<close>: \<open>ws\<close> is \<open>*src + i\<close>. The bound \<open>MB_LEN_MAX\<close> is the size of its buffer.
\<close>

abbreviation MB_LEN_MAX :: nat where "MB_LEN_MAX \<equiv> 4"

definition wcs_return :: "u64 \<Rightarrow> int option \<Rightarrow> mbstate_t \<Rightarrow> u8 list \<Rightarrow> src_pos \<Rightarrow> u8 mbs_out" where
  "wcs_return r e st dst src =
     \<lparr>ms_ret = r, ms_errno = e, ms_state = st, ms_dst = dst, ms_src = src\<rparr>"

fun wcsnrtombs_measure :: "u32 list \<Rightarrow> nat \<Rightarrow> nat \<Rightarrow> mbstate_t \<Rightarrow> u8 mbs_out option" where
  "wcsnrtombs_measure ws k oc st =
     (if k = 0 then Some (wcs_return (of_nat oc) None st [] SrcSame)
      else case ws of
          [] \<Rightarrow> None
        | wc # ws' \<Rightarrow>
            if unat wc < 0x80 then
              if wc = 0 then Some (wcs_return (of_nat oc) None st [] SrcSame)
              else wcsnrtombs_measure ws' (k - 1) (oc + 1) st
            else
              let r = wcrtomb True wc st in
              if mb_ret r = MB_ERR_ILLEGAL_SEQUENCE then
                Some (wcs_return (mb_ret r) (mb_errno r) (mb_state r) [] SrcSame)
              else wcsnrtombs_measure ws' (k - 1) (oc + unat (mb_ret r)) (mb_state r))"

fun wcsnrtombs_convert ::
  "u32 list \<Rightarrow> nat \<Rightarrow> nat \<Rightarrow> nat \<Rightarrow> u8 list \<Rightarrow> mbstate_t \<Rightarrow> u8 mbs_out option" where
  "wcsnrtombs_convert ws i nwc len dst st =
     (if \<not> (i < nwc \<and> length dst < len) then
        Some (wcs_return (of_nat (length dst)) None st dst (SrcAt i))
      else case ws of
          [] \<Rightarrow> None
        | wc # ws' \<Rightarrow>
            if unat wc < 0x80 then
              if wc = 0 then
                Some (wcs_return (of_nat (length dst)) None st (dst @ [ucast wc]) SrcNull)
              else wcsnrtombs_convert ws' (i + 1) nwc len (dst @ [ucast wc]) st
            else
              let r = wcrtomb True wc st;
                  bs = (case mb_c r of None \<Rightarrow> [] | Some bs \<Rightarrow> bs) in
              if mb_ret r = MB_ERR_ILLEGAL_SEQUENCE then
                Some (wcs_return (mb_ret r) (mb_errno r) (mb_state r) dst (SrcAt i))
              else if \<not> len - length dst \<ge> MB_LEN_MAX \<and> unat (mb_ret r) > len - length dst then
                Some (wcs_return (of_nat (length dst)) None (mb_state r) dst (SrcAt i))
              else wcsnrtombs_convert ws' (i + 1) nwc len (dst @ bs) (mb_state r))"

declare wcsnrtombs_measure.simps [simp del] wcsnrtombs_convert.simps [simp del]

definition wcsnrtombs ::
  "bool \<Rightarrow> u32 list \<Rightarrow> u64 \<Rightarrow> u64 \<Rightarrow> mbstate_t \<Rightarrow> u8 mbs_out option" where
  "wcsnrtombs dst src nwc len st =
     (if \<not> mbsinit (Some st) then Some (mbs_illegal [] SrcSame)
      else if \<not> dst then wcsnrtombs_measure src (unat nwc) 0 st
      else wcsnrtombs_convert src 0 (unat nwc) (unat len) [] st)"

definition wcsrtombs :: "bool \<Rightarrow> u32 list \<Rightarrow> u64 \<Rightarrow> mbstate_t \<Rightarrow> u8 mbs_out option" where
  "wcsrtombs dst src len st = wcsnrtombs dst src (- 1) len st"

definition wc_valid :: "u32 \<Rightarrow> bool" where
  "wc_valid c \<longleftrightarrow> c \<noteq> 0 \<and> scalar (unat c)"

abbreviation utf8_string :: "u32 list \<Rightarrow> u8 list" where
  "utf8_string ws \<equiv> concat (map (\<lambda>c. utf8_bytes (unat c)) ws)"

definition wc_decode :: "u8 list \<Rightarrow> (u32 \<times> nat) option" where
  "wc_decode s =
     (case mbrtowc True (Some s) 4 mb_initial of
        None \<Rightarrow> None
      | Some out \<Rightarrow> (case mb_c out of None \<Rightarrow> None | Some c \<Rightarrow> Some (c, unat (mb_ret out))))"

lemma utf8_ascii: "unat c < 0x80 \<Longrightarrow> utf8_bytes (unat c) = [ucast (c :: u32)]"
  by (simp add: utf8_bytes_def)

lemma wcrtomb_utf8:
  "wc_valid c \<Longrightarrow> wcrtomb True c mb_initial =
    \<lparr>mb_ret = of_nat (length (utf8_bytes (unat c))), mb_errno = None, mb_state = mb_initial,
     mb_c = Some (utf8_bytes (unat c))\<rparr>"
  by (simp add: wcrtomb_def c32rtomb_utf8 wc_valid_def scalar_def)

lemma unat_utf8_len: "unat (of_nat (length (utf8_bytes c)) :: u64) = length (utf8_bytes c)"
  using utf8_bytes_len [of c] by (intro unat_of_nat_small) simp

lemma not_illegal_len: "(of_nat (length (utf8_bytes c)) :: u64) \<noteq> MB_ERR_ILLEGAL_SEQUENCE"
  "(of_nat (length (utf8_bytes c)) :: u64) \<noteq> MB_ERR_INCOMPLETE_SEQUENCE" "(of_nat (length (utf8_bytes c)) :: u64) \<noteq> 0"
proof -
  consider "length (utf8_bytes c) = 1" | "length (utf8_bytes c) = 2" | "length (utf8_bytes c) = 3" | "length (utf8_bytes c) = 4"
    using utf8_bytes_len [of c] by linarith
  then show "(of_nat (length (utf8_bytes c)) :: u64) \<noteq> MB_ERR_ILLEGAL_SEQUENCE"
  "(of_nat (length (utf8_bytes c)) :: u64) \<noteq> MB_ERR_INCOMPLETE_SEQUENCE" "(of_nat (length (utf8_bytes c)) :: u64) \<noteq> 0" 
    by (cases; simp)+
qed

lemma wcsnrtombs_measure_utf8:
  assumes "list_all wc_valid ws" "length ws < k"
  shows "wcsnrtombs_measure (ws @ 0 # r) k oc mb_initial =
    Some (wcs_return (of_nat (oc + length (utf8_string ws))) None mb_initial [] SrcSame)"
  using assms
proof (induction ws arbitrary: k oc)
  case Nil
  then show ?case by (subst wcsnrtombs_measure.simps) simp
next
  case (Cons c ws)
  then have "c \<noteq> 0" "wc_valid c" by (simp_all add: wc_valid_def)
  with Cons show ?case
    by (subst wcsnrtombs_measure.simps)
      (simp add: wcrtomb_utf8 not_illegal_len unat_utf8_len utf8_ascii add.assoc Let_def del: of_nat_add)
qed

lemma wcsnrtombs_convert_utf8:
  assumes "list_all wc_valid ws" "i + length ws < nwc" "length dst + length (utf8_string ws) < len"
  shows "wcsnrtombs_convert (ws @ 0 # r) i nwc len dst mb_initial =
    Some (wcs_return (of_nat (length dst + length (utf8_string ws))) None mb_initial
      (dst @ utf8_string ws @ [0]) SrcNull)"
  using assms
proof (induction ws arbitrary: i dst)
  case Nil
  then show ?case by (subst wcsnrtombs_convert.simps) simp
next
  case (Cons c ws)
  then have "c \<noteq> 0" "wc_valid c" by (simp_all add: wc_valid_def)
  moreover have "length (utf8_bytes (unat c)) \<le> len - length dst" using Cons.prems(3) by simp
  ultimately have "wcsnrtombs_convert (c # ws @ 0 # r) i nwc len dst mb_initial =
    wcsnrtombs_convert (ws @ 0 # r) (i + 1) nwc len (dst @ utf8_bytes (unat c)) mb_initial"
    using Cons.prems(2,3) by (subst wcsnrtombs_convert.simps, cases "unat c < 0x80")
      (simp_all add: wcrtomb_utf8 not_illegal_len unat_utf8_len utf8_ascii)
  with Cons.prems show ?case
    by (simp add: Cons.IH add.assoc del: of_nat_add)
qed

lemma mbsnrtowcs_convert_utf8:
  assumes "list_all wc_valid ws" "i + length (utf8_string ws) < nmc" "oc + length ws < len" "nmc < 2 ^ 64"
  shows "mbsnrtowcs_convert (utf8_string ws @ 0 # r) i nmc oc len dst mb_initial =
    Some (mbs_return (oc + length ws) (dst @ ws @ [0]) SrcNull)"
  using assms
proof (induction ws arbitrary: i oc dst)
  case Nil
  then show ?case by (subst mbsnrtowcs_convert.simps) simp
next
  case (Cons c ws)
  then have c: "c \<noteq> 0" "wc_valid c" "scalar (unat c)" by (simp_all add: wc_valid_def)
  show ?case
  proof (cases "unat c < 0x80")
    case True
    then have "unat (ucast c :: u8) = unat c" "(ucast (ucast c :: u8) :: u32) = c" "(ucast c :: u8) \<noteq> 0"
      using c(1) by (simp_all add: unat_ucast_mod word_unat_eq_iff)
    with True Cons show ?thesis
      by (subst mbsnrtowcs_convert.simps) (simp add: utf8_ascii)
  next
    case False
    define bs where "bs = utf8_bytes (unat c)"
    obtain b t where bt: "bs = b # t" using utf8_bytes_len(3) unfolding bs_def by (cases "utf8_bytes (unat c)") auto
    have "\<not> unat b < 0x80"
    proof
      assume "unat b < 0x80"
      moreover have "2 \<le> length (utf8_bytes (unat c))" using False by (simp add: utf8_bytes_def)
      ultimately show False
        using bt by (rule_tac utf8_bytes_lead [OF c(3)]) (simp add: bs_def mbrtoc32_lead_nat)
    qed
    moreover have "mbrtowc True (Some (bs @ utf8_string ws @ 0 # r)) (of_nat (nmc - i)) mb_initial =
     Some \<lparr>mb_ret = of_nat (length bs), mb_errno = None, mb_state = mb_initial, mb_c = Some c\<rparr>"
      unfolding mbrtowc_def bs_def
    proof (rule mbrtoc32_utf8)
      have "unat (of_nat (nmc - i) :: u64) = nmc - i" using Cons.prems(4) by (intro unat_of_nat_small) simp
      then show "length (utf8_bytes (unat c)) \<le> unat (of_nat (nmc - i) :: u64)"
        using Cons.prems by simp
    qed (use c in simp_all)
    ultimately have "mbsnrtowcs_convert (bs @ utf8_string ws @ 0 # r) i nmc oc len dst mb_initial =
     mbsnrtowcs_convert (utf8_string ws @ 0 # r) (i + length bs) nmc (oc + 1) len (dst @ [c]) mb_initial"
      using Cons.prems(2,3) not_illegal_len [of "unat c"] unat_utf8_len [of "unat c"]
      by (subst mbsnrtowcs_convert.simps) (simp add: bt  flip: bs_def)
    also have "\<dots> = Some (mbs_return (oc + length (c # ws)) (dst @ (c # ws) @ [0]) SrcNull)"
      using Cons.prems by (subst Cons.IH) (simp_all add: bs_def)
    finally show ?thesis by (simp add: bs_def)
  qed
qed


lemma mbs_return_small:
  assumes "k < 2 ^ 31"
  shows "mbs_return k dst src =
    \<lparr>ms_ret = of_nat k, ms_errno = None, ms_state = mb_initial, ms_dst = dst, ms_src = src\<rparr>"
proof -
  have "(scast (ucast (of_nat k :: u64) :: u32) :: u64) = of_nat k" 
  proof -
    have "ucast (of_nat k :: u64) = (of_nat k :: u32)"
      using assms by (simp add: word_unat_eq_iff unat_ucast_mod unat_of_nat_small)
    moreover have "sint (of_nat k :: u32) = int k"
    proof -
      have "uint (of_nat k :: u32) = int k"
        using assms by (simp add: unsigned_of_nat take_bit_nat_eq_self)
      then show ?thesis using assms by (simp only: sint_uint) (simp add: signed_take_bit_int_eq_self)
    qed
    ultimately show ?thesis by (simp only: scast_eq of_int_of_nat_eq)
  qed
  then show ?thesis by (simp add: mbs_return_def mbstate_reset_and_return_def Let_def)
qed


lemma wcrtomb_out:
  "mb_ret (wcrtomb True wc mb_initial) = MB_ERR_ILLEGAL_SEQUENCE \<or> wcrtomb True wc mb_initial = 
    \<lparr>mb_ret = of_nat (length (utf8_bytes (unat wc))), mb_errno = None, mb_state = mb_initial,
     mb_c = Some (utf8_bytes (unat wc))\<rparr>"
  by (simp add: wcrtomb_def c32rtomb_eq)

lemma wcsnrtombs_convert_bounds:
  assumes "wcsnrtombs_convert ws i nwc len dst mb_initial = Some out" "length dst \<le> len"
  shows "length (ms_dst out) \<le> len \<and> (\<exists>k \<le> length ws. ms_dst out = dst @ utf8_string (take k ws) @
    (if ms_src out = SrcNull then [0] else []))"
  using assms
proof (induction ws arbitrary: i dst)
  case Nil
  then show ?case by (subst (asm) wcsnrtombs_convert.simps) (auto simp: wcs_return_def split: if_splits)
next
  case (Cons c ws)
  let ?b = "utf8_bytes (unat c)"
  have halt: ?case if "out = wcs_return r e st dst (SrcAt j)" for r e st j
    using that Cons.prems(2) by (auto simp: wcs_return_def intro!: exI [of _ 0])
  have step: ?case if "wcsnrtombs_convert ws (i + 1) nwc len (dst @ ?b) mb_initial = Some out"
    "length (dst @ ?b) \<le> len"
  proof -
    from Cons.IH [OF that] obtain k where "length (ms_dst out) \<le> len" "k \<le> length ws"
      "ms_dst out = (dst @ ?b) @ utf8_string (take k ws) @ (if ms_src out = SrcNull then [0] else [])"
      by blast
    then show ?thesis by (auto intro!: exI [of _ "Suc k"])
  qed
  note w = wcsnrtombs_convert.simps [of "c # ws"] wcsnrtombs_convert.simps [of "0 # ws"]
  consider (stop) "\<not> (i < nwc \<and> length dst < len)" | (nul) "i < nwc" "length dst < len" "c = 0"
    | (ascii) "i < nwc" "length dst < len" "c \<noteq> 0" "unat c < 0x80"
    | (wide) "i < nwc" "length dst < len" "\<not> unat c < 0x80" by auto
  then show ?case
  proof cases
    case stop
    with Cons.prems(1) have "out = wcs_return (of_nat (length dst)) None mb_initial dst (SrcAt i)"
      by (simp add: w)
    then show ?thesis by (rule halt)
  next
    case nul
    with Cons.prems(1) show ?thesis
      by (auto simp: w wcs_return_def intro!: exI [of _ 0])
  next
    case ascii
    with Cons.prems(1) show ?thesis by (intro step) (simp_all add: w utf8_ascii)
  next
    case wide
    show ?thesis
    proof (cases "mb_ret (wcrtomb True c mb_initial) = MB_ERR_ILLEGAL_SEQUENCE")
      case True
      with wide Cons.prems(1) show ?thesis
        by (intro halt [OF sym]) (simp add: w Let_def)
    next
      case False
      then have r: "wcrtomb True c mb_initial = 
        \<lparr>mb_ret = of_nat (length ?b), mb_errno = None, mb_state = mb_initial, mb_c = Some ?b\<rparr>"
        using wcrtomb_out by blast
      show ?thesis
      proof (cases "length ?b \<le> len - length dst")
        case True
        with wide Cons.prems(1) show ?thesis
          by (intro step) (simp_all add: w r not_illegal_len unat_utf8_len)
      next
        case nofit: False
        with utf8_bytes_len [of "unat c"] have "\<not> len - length dst \<ge> MB_LEN_MAX" by linarith
        with wide Cons.prems(1) nofit show ?thesis
          by (intro halt [OF sym]) (simp add: w r not_illegal_len unat_utf8_len)
      qed
    qed
  qed
qed

lemma ms_dst_return [simp]: "ms_dst (mbs_return k dst src) = dst" "ms_dst (mbs_illegal dst src) = dst"
  by (simp_all add: mbs_return_def mbs_illegal_def Let_def)

lemma mbrtowc_cases:
  assumes "mb_prefix xs" "0 < k" "k \<le> length s" "k < 2 ^ 64"
  obtains (incomplete) out where "mbrtowc True (Some s) (of_nat k) (mb_of xs) = Some out" "mb_ret out = MB_ERR_INCOMPLETE_SEQUENCE"
  | (illegal) out where "mbrtowc True (Some s) (of_nat k) (mb_of xs) = Some out" "mb_ret out = MB_ERR_ILLEGAL_SEQUENCE"
  | (decoded) c m where "mbrtowc True (Some s) (of_nat k) (mb_of xs) =
      Some \<lparr>mb_ret = of_nat m, mb_errno = None, mb_state = mb_initial, mb_c = Some c\<rparr>"
      "m \<le> 4" "m \<le> k" "scalar (unat c)"
proof -
  have u: "unat (of_nat k :: u64) = k" using assms(4) by (intro unat_of_nat_small) simp
  then have "0 < (of_nat k :: u64)" using assms(2) by (simp add: word_less_nat_alt)
  note r = mbrtoc32_refines_scan [OF assms(1) this, unfolded u, OF assms(3), folded mbrtowc_def]
  show thesis
  proof (cases "utf8_scan (xs @ take k s)")
    case Incomplete
    show ?thesis by (rule incomplete [OF r]) (simp add: mb_result_def Incomplete)
  next
    case Illegal
    show ?thesis by (rule illegal [OF r]) (simp add: mb_result_def Illegal)
  next
    case (Decoded c len)
    note d = utf8_scan_Decoded [OF this] utf8_scan_Decoded_length [OF this]
    define m where "m = (if c = 0 then 0 else len - length xs)"
    have "len \<le> length (xs @ take k s)" using d(1) by blast
    then have "m \<le> 4" "m \<le> k" using d(3) by (auto simp: m_def)
    moreover have "mb_result xs (xs @ take k s) =
      \<lparr>mb_ret = of_nat m, mb_errno = None, mb_state = mb_initial, mb_c = Some c\<rparr>"
      by (simp add: mb_result_def Decoded m_def)
    moreover have "scalar (unat c)" using d(1) by blast
    ultimately show ?thesis using r by (intro decoded) simp_all
  qed
qed

lemma small_ret:
  assumes "m \<le> 4"
  shows "unat (of_nat m :: u64) = m" "(of_nat m :: u64) \<noteq> MB_ERR_ILLEGAL_SEQUENCE"
    "(of_nat m :: u64) \<noteq> MB_ERR_INCOMPLETE_SEQUENCE"
proof -
  consider "m = 0" | "m = 1" | "m = 2" | "m = 3" | "m = 4" using assms by linarith
  then show "unat (of_nat m :: u64) = m" "(of_nat m :: u64) \<noteq> MB_ERR_ILLEGAL_SEQUENCE"
    "(of_nat m :: u64) \<noteq> MB_ERR_INCOMPLETE_SEQUENCE" by (cases; simp)+
qed

lemma ascii_scalar: "unat (b :: u8) < 0x80 \<Longrightarrow> scalar (unat b)"
  by (simp add: scalar_def)

lemma mbsnrtowcs_convert_safe:
  assumes "mb_prefix xs" "nmc \<le> i + length s" "nmc < 2 ^ 64"
  shows "\<exists>out. mbsnrtowcs_convert s i nmc (length dst) len dst (mb_of xs) = Some out \<and>
    length (ms_dst out) \<le> max len (length dst) \<and>
    (\<exists>cs. ms_dst out = dst @ cs \<and> list_all (\<lambda>c. scalar (unat c)) cs)"
  using assms
proof (induction s arbitrary: i dst xs rule: length_induct)
  case (1 s)
  show ?case
  proof (cases "i < nmc \<and> length dst < len")
    case False
    then show ?thesis by (subst mbsnrtowcs_convert.simps) auto
  next
    case True
    then obtain b s' where s: "s = b # s'" using 1(3) by (cases s) auto
    have step: ?thesis if eq: "mbsnrtowcs_convert s i nmc (length dst) len dst (mb_of xs) =
        mbsnrtowcs_convert (drop m s) (i + m) nmc (length (dst @ [c])) len (dst @ [c]) (mb_of ys)"
      and m: "0 < m" "m \<le> length s" and ys: "mb_prefix ys" and c: "scalar (unat c)" for m c ys
    proof -
      have "length (drop m s) < length s" "nmc \<le> (i + m) + length (drop m s)" using m 1(3) by simp_all
      then obtain out cs where "mbsnrtowcs_convert (drop m s) (i + m) nmc (length (dst @ [c])) len (dst @ [c]) (mb_of ys) = Some out"
        "length (ms_dst out) \<le> max len (length (dst @ [c]))" "ms_dst out = (dst @ [c]) @ cs" "list_all (\<lambda>c. scalar (unat c)) cs"
        using "1.IH" ys 1(4) by blast
      then show ?thesis using eq c True by (auto intro!: exI [of _ "c # cs"])
    qed
    have nil: "mb_prefix []" by (simp add: mb_prefix_lead)
    show ?thesis
    proof (cases "unat b < 0x80")
      case ascii: True
      show ?thesis
      proof (cases "b = 0")
        case True
        with \<open>i < nmc \<and> length dst < len\<close> show ?thesis
          by (subst mbsnrtowcs_convert.simps) (simp add: s scalar_def)
      next
        case False
        with \<open>i < nmc \<and> length dst < len\<close> ascii 1(2) show ?thesis
          by (intro step [of 1 "ucast b" xs]) (subst mbsnrtowcs_convert.simps, simp_all add: s ascii_scalar)
      qed
    next
      case False
      have "0 < nmc - i" "nmc - i \<le> length s" "nmc - i < 2 ^ 64" using True 1(3,4) by auto
      from 1(2) this show ?thesis
      proof (cases rule: mbrtowc_cases)
        case (incomplete out)
        with True False show ?thesis
          by (subst mbsnrtowcs_convert.simps) (simp add: s)
      next
        case (illegal out)
        with True False show ?thesis
          by (subst mbsnrtowcs_convert.simps) (simp add: s)
      next
        case (decoded c m)
        show ?thesis
        proof (cases "m = 0")
          case True
          with decoded False \<open>i < nmc \<and> length dst < len\<close> show ?thesis
            by (subst mbsnrtowcs_convert.simps) (simp add: s small_ret)
        next
          case m: False
          have "m \<le> length s" using decoded(3) \<open>nmc - i \<le> length s\<close> by simp
          moreover have "(of_nat m :: u64) \<noteq> 0" using m small_ret(1) [OF decoded(2)] by auto
          ultimately show ?thesis using m False decoded True nil
            by (intro step [of m c "[]"]) (subst mbsnrtowcs_convert.simps, simp_all add: s small_ret mb_of_Nil)
        qed
      qed
    qed
  qed
qed

interpretation utf8: prefix_codec "\<lambda>c. utf8_bytes (unat c)" wc_decode wc_valid
proof
  show "wc_decode (utf8_bytes (unat c) @ r) = Some (c, length (utf8_bytes (unat c)))"
    if "wc_valid c" for c r
  proof -
    have "mbrtowc True (Some (utf8_bytes (unat c) @ r)) 4 mb_initial =
      Some \<lparr>mb_ret = of_nat (length (utf8_bytes (unat c))), mb_errno = None, mb_state = mb_initial, mb_c = Some c\<rparr>"
      unfolding mbrtowc_def
      by (rule mbrtoc32_utf8) (use that utf8_bytes_len [of "unat c"] in \<open>simp_all add: wc_valid_def\<close>)
    then show ?thesis by (simp add: wc_decode_def unat_utf8_len)
  qed
qed (simp add: utf8_bytes_len)

section \<open>Properties\<close>

text \<open>C24. Round trip of strings. \<open>wcsnrtombs\<close> followed by \<open>mbsnrtowcs\<close> gives back every string
  of Unicode scalar values that fits the buffers, terminator included, with the right counts
  and a null source pointer after each conversion.\<close>

theorem wcs_mbs_roundtrip:
  assumes "list_all wc_valid ws" "length ws < unat nwc" "length (utf8_string ws) < unat len"
    and "length (utf8_string ws) < unat nmc" "length ws < unat wlen" "length ws < 2 ^ 31"
  shows "\<exists>bs. wcsnrtombs True (ws @ 0 # r) nwc len mb_initial =
      Some \<lparr>ms_ret = of_nat (length bs), ms_errno = None, ms_state = mb_initial, ms_dst = bs @ [0], ms_src = SrcNull\<rparr> \<and>
    mbsnrtowcs True (bs @ [0]) nmc wlen mb_initial =
      Some \<lparr>ms_ret = of_nat (length ws), ms_errno = None, ms_state = mb_initial, ms_dst = ws @ [0], ms_src = SrcNull\<rparr>"
proof (intro exI conjI)
  show "wcsnrtombs True (ws @ 0 # r) nwc len mb_initial =
      Some \<lparr>ms_ret = of_nat (length (utf8_string ws)), ms_errno = None, ms_state = mb_initial, ms_dst = utf8_string ws @ [0], ms_src = SrcNull\<rparr>"
    using assms(1-3) by (simp add: wcsnrtombs_def wcsnrtombs_convert_utf8 wcs_return_def)
  have "mbstate_bytes_so_far mb_initial = 0"
    by (simp add: mbstate_bytes_so_far_def mb_initial_def)
  then show "mbsnrtowcs True (utf8_string ws @ [0]) nmc wlen mb_initial =
      Some \<lparr>ms_ret = of_nat (length ws), ms_errno = None, ms_state = mb_initial, ms_dst = ws @ [0], ms_src = SrcNull\<rparr>"
    using assms mbsnrtowcs_convert_utf8 [of ws 0 "unat nmc" 0 "unat wlen" "[]" "[]"]
    by (simp add: mbsnrtowcs_def mbs_return_small)
qed

theorem wcs_mbs_roundtrip_witness:
  "\<exists>bs. wcsnrtombs True [0x41, 0x20ac, 0] 3 5 mb_initial =
      Some \<lparr>ms_ret = of_nat (length bs), ms_errno = None, ms_state = mb_initial,
            ms_dst = bs @ [0], ms_src = SrcNull\<rparr> \<and>
    mbsnrtowcs True (bs @ [0]) 5 3 mb_initial =
      Some \<lparr>ms_ret = 2, ms_errno = None, ms_state = mb_initial,
            ms_dst = [0x41, 0x20ac, 0], ms_src = SrcNull\<rparr>"
  using wcs_mbs_roundtrip [of "[0x41, 0x20ac]" 3 5 5 3 "[]"]
  by (simp add: wc_valid_def scalar_def utf8_bytes_def)

text \<open>C32. A short buffer. Whatever the source, \<open>wcsnrtombs\<close> stores at most \<open>len\<close> bytes, and what it
  stores is the encoding of a prefix of the source: never part of a character.\<close>

theorem wcsnrtombs_whole_characters:
  assumes "wcsnrtombs True ws nwc len mb_initial = Some out"
  shows "length (ms_dst out) \<le> unat len \<and> (\<exists>k \<le> length ws. ms_dst out = utf8_string (take k ws) @
    (if ms_src out = SrcNull then [0] else []))"
  using wcsnrtombs_convert_bounds [of ws 0 "unat nwc" "unat len" "[]" out] assms
  by (simp add: wcsnrtombs_def)

theorem wcsnrtombs_whole_characters_witness:
  "\<exists>out. wcsnrtombs True [0x41, 0x20ac, 0] 3 3 mb_initial = Some out \<and> length (ms_dst out) \<le> 3 \<and>
    (\<exists>k \<le> length [0x41, 0x20ac, 0 :: u32]. ms_dst out = utf8_string (take k [0x41, 0x20ac, 0]) @
      (if ms_src out = SrcNull then [0] else []))"
proof -
  have "wcsnrtombs True [0x41, 0x20ac, 0] 3 3 mb_initial = Some (wcs_return 1 None mb_initial [0x41] (SrcAt 1))"
    by (simp add: wcsnrtombs_def wcsnrtombs_convert.simps wcrtomb_def c32rtomb_eq utf8_bytes_def)
  from this wcsnrtombs_whole_characters [OF this] show ?thesis by (intro exI) simp
qed

text \<open>C33. Safety. For every byte string, valid or not, \<open>mbsnrtowcs\<close> returns, reads none but its
  \<open>nmc\<close> bytes, stores at most \<open>len\<close> characters, and stores only Unicode scalar values.\<close>

theorem mbsnrtowcs_safe:
  assumes "mb_prefix xs" "unat nmc \<le> length s"
  shows "\<exists>out. mbsnrtowcs True s nmc len (mb_of xs) = Some out \<and>
    length (ms_dst out) \<le> unat len \<and> list_all (\<lambda>c. scalar (unat c)) (ms_dst out)"
proof -
  have "nmc > 0 \<longrightarrow> s \<noteq> []" using assms(2) by (auto simp: word_less_nat_alt)
  then show ?thesis
    using mbsnrtowcs_convert_safe [OF assms(1), of "unat nmc" 0 s "[]" "unat len"] assms(2)
    by (auto simp: mbsnrtowcs_def)
qed

theorem mbsnrtowcs_safe_witness:
  "\<exists>out. mbsnrtowcs True [0xff, 0xe2] 2 1 (mb_of [0xe2, 0x82]) = Some out \<and>
    length (ms_dst out) \<le> 1 \<and> list_all (\<lambda>c. scalar (unat c)) (ms_dst out)"
  using mbsnrtowcs_safe [of "[0xe2, 0x82]" 2 "[0xff, 0xe2]" 1]
  by (simp add: mb_prefix_lead mb_cont_def mbrtoc32_lead_def)

text \<open>Different strings have different encodings: \<open>wcsnrtombs\<close> is injective on strings of
  Unicode scalar values that fit the buffer.\<close>

lemma wcsnrtombs_inj:
  assumes "list_all wc_valid ws" "list_all wc_valid vs"
    and "length ws < unat nwc" "length vs < unat nwc" "length (utf8_string ws) < unat len" "length (utf8_string vs) < unat len"
    and "wcsnrtombs True (ws @ 0 # r) nwc len mb_initial = wcsnrtombs True (vs @ 0 # q) nwc len mb_initial"
  shows "ws = vs"
proof (rule utf8.string_inj [OF assms(1,2)])
  have "wcsnrtombs True (us @ 0 # t) nwc len mb_initial =
      Some (wcs_return (of_nat (length (utf8_string us))) None mb_initial (utf8_string us @ [0]) SrcNull)"
    if "list_all wc_valid us" "length us < unat nwc" "length (utf8_string us) < unat len" for us t
    using wcsnrtombs_convert_utf8 [OF that(1), of 0 "unat nwc" "[]" "unat len" t] that(2,3)
    by (simp add: wcsnrtombs_def)
  note eq = this [OF assms(1,3,5), of r] this [OF assms(2,4,6), of q]
  show "utf8_string ws = utf8_string vs"
    using assms(7) unfolding eq wcs_return_def by (simp only: option.inject mbs_out.iffs append_same_eq)
qed

end
