(* ===== verification/Bionic_Futex.thy ===== *)
theory Bionic_Futex
  imports Bionic_Prelude "HOL-Library.Monad_Syntax"
begin

text \<open>
  Time conversions (\<open>bionic_time_conversions.cpp\<close>), the futex wrappers
  (\<open>bionic_futex.h\<close>, \<open>bionic_futex.cpp\<close>) and the view of the kernel's futex that the
  concurrent components share. The system call is not part of this library: it is a
  parameter, first as a function from a call to a result, then (\<open>futex_ops\<close>) as the sets of
  outcomes of its blocking and waking halves, with the documented behaviour in \<open>futex_laws\<close>.
\<close>

section \<open>Time conversions\<close>

record timespec =
  tv_sec :: int
  tv_nsec :: int

record timeval =
  tvl_sec :: int
  tvl_usec :: int

abbreviation NS_PER_S :: int where "NS_PER_S \<equiv> 1000000000"

definition timespec_from_timeval :: "timeval \<Rightarrow> timespec \<Rightarrow> timespec \<times> bool" where
  "timespec_from_timeval tv ts =
     (let ts' = ts\<lparr>tv_sec := tvl_sec tv\<rparr> in
      if tvl_usec tv \<ge> 1000000 \<or> tvl_usec tv < 0 then (ts', False)
      else (ts'\<lparr>tv_nsec := tvl_usec tv * 1000\<rparr>, True))"

text \<open>C division truncates towards zero; \<open>cdiv\<close> and \<open>crem\<close> follow it.\<close>

definition cdiv :: "int \<Rightarrow> int \<Rightarrow> int" where
  "cdiv a b = sgn a * (\<bar>a\<bar> div b)"

definition crem :: "int \<Rightarrow> int \<Rightarrow> int" where
  "crem a b = a - cdiv a b * b"

definition timespec_from_ms :: "int \<Rightarrow> timespec" where
  "timespec_from_ms ms = \<lparr>tv_sec = cdiv ms 1000, tv_nsec = crem ms 1000 * 1000000\<rparr>"

definition timeval_from_timespec :: "timespec \<Rightarrow> timeval" where
  "timeval_from_timespec ts = \<lparr>tvl_sec = tv_sec ts, tvl_usec = cdiv (tv_nsec ts) 1000\<rparr>"

text \<open>Signed 64-bit arithmetic: a result outside the range of the type is undefined and gives \<open>None\<close>.\<close>

definition checked64 :: "int \<Rightarrow> int option" where
  "checked64 x = (if - (2 ^ 63) \<le> x \<and> x < 2 ^ 63 then Some x else None)"

text \<open>The two clock readings are arguments: \<open>cur_m\<close> of the monotonic, \<open>cur_r\<close> of the real-time clock.\<close>

definition monotonic_time_from_realtime_time ::
  "timespec \<Rightarrow> timespec \<Rightarrow> timespec \<Rightarrow> timespec option" where
  "monotonic_time_from_realtime_time cur_m cur_r realtime_time =
     do { ns \<leftarrow> checked64 (tv_nsec realtime_time - tv_nsec cur_r);
          ns \<leftarrow> checked64 (ns + tv_nsec cur_m);
          (ns, sec) \<leftarrow>
            (if ns \<ge> NS_PER_S then do {
               sec \<leftarrow> checked64 (tv_sec realtime_time + 1);
               Some (ns - NS_PER_S, sec) }
             else if ns < 0 then do {
               sec \<leftarrow> checked64 (tv_sec realtime_time - 1);
               Some (ns + NS_PER_S, sec) }
             else Some (ns, tv_sec realtime_time));
          sec \<leftarrow> checked64 (sec - tv_sec cur_r);
          sec \<leftarrow> checked64 (sec + tv_sec cur_m);
          Some \<lparr>tv_sec = sec, tv_nsec = ns\<rparr> }"

abbreviation (input) CLOCK_REALTIME :: int where "CLOCK_REALTIME \<equiv> 0"
abbreviation (input) CLOCK_MONOTONIC :: int where "CLOCK_MONOTONIC \<equiv> 1"

definition check_timespec :: "timespec option \<Rightarrow> bool \<Rightarrow> int option" where
  "check_timespec ts null_allowed =
     (case ts of
        None \<Rightarrow> if null_allowed then Some 0 else None
      | Some t \<Rightarrow>
          Some (if tv_nsec t < 0 \<or> tv_nsec t \<ge> NS_PER_S then EINVAL
                else if tv_sec t < 0 then ETIMEDOUT else 0))"

section \<open>The futex wrappers\<close>

record futex_call =
  fc_op :: int
  fc_value :: int
  fc_timeout :: "timespec option"
  fc_bitset :: int

abbreviation (input) FUTEX_WAIT :: int where "FUTEX_WAIT \<equiv> 0"
abbreviation (input) FUTEX_WAKE :: int where "FUTEX_WAKE \<equiv> 1"
abbreviation (input) FUTEX_LOCK_PI :: int where "FUTEX_LOCK_PI \<equiv> 6"
abbreviation (input) FUTEX_UNLOCK_PI :: int where "FUTEX_UNLOCK_PI \<equiv> 7"
abbreviation (input) FUTEX_WAIT_BITSET :: int where "FUTEX_WAIT_BITSET \<equiv> 9"
abbreviation (input) FUTEX_WAKE_PRIVATE :: int where "FUTEX_WAKE_PRIVATE \<equiv> 129"
abbreviation (input) FUTEX_LOCK_PI_PRIVATE :: int where "FUTEX_LOCK_PI_PRIVATE \<equiv> 134"
abbreviation (input) FUTEX_UNLOCK_PI_PRIVATE :: int where "FUTEX_UNLOCK_PI_PRIVATE \<equiv> 135"
abbreviation (input) FUTEX_WAIT_BITSET_PRIVATE :: int where "FUTEX_WAIT_BITSET_PRIVATE \<equiv> 137"
abbreviation (input) FUTEX_BITSET_MATCH_ANY :: int where "FUTEX_BITSET_MATCH_ANY \<equiv> - 1"

text \<open>
  The system call takes the kernel's state and gives its result and the value it stored in
  \<open>errno\<close>. The wrapper returns the new kernel state, the thread's \<open>errno\<close> and the result.
\<close>

type_synonym 'k syscall = "futex_call \<Rightarrow> 'k \<Rightarrow> 'k \<times> int \<times> int"

definition futex :: "'k syscall \<Rightarrow> futex_call \<Rightarrow> int \<Rightarrow> 'k \<Rightarrow> 'k \<times> int \<times> int" where
  "futex sys call errno k =
     (let saved_errno = errno; (k', result, errno') = sys call k in
      if result = - 1 then (k', saved_errno, - errno') else (k', errno, result))"

definition futex_wake :: "'k syscall \<Rightarrow> int \<Rightarrow> int \<Rightarrow> 'k \<Rightarrow> 'k \<times> int \<times> int" where
  "futex_wake sys count =
     futex sys \<lparr>fc_op = FUTEX_WAKE, fc_value = count, fc_timeout = None, fc_bitset = 0\<rparr>"

definition futex_wake_ex :: "'k syscall \<Rightarrow> bool \<Rightarrow> int \<Rightarrow> int \<Rightarrow> 'k \<Rightarrow> 'k \<times> int \<times> int" where
  "futex_wake_ex sys shared count =
     futex sys \<lparr>fc_op = (if shared then FUTEX_WAKE else FUTEX_WAKE_PRIVATE), fc_value = count,
                fc_timeout = None, fc_bitset = 0\<rparr>"

definition futex_wait ::
  "'k syscall \<Rightarrow> int \<Rightarrow> timespec option \<Rightarrow> int \<Rightarrow> 'k \<Rightarrow> 'k \<times> int \<times> int" where
  "futex_wait sys val timeout =
     futex sys \<lparr>fc_op = FUTEX_WAIT, fc_value = val, fc_timeout = timeout, fc_bitset = 0\<rparr>"

definition futex_wait_ex :: "'k syscall \<Rightarrow> bool \<Rightarrow> int \<Rightarrow> int \<Rightarrow> 'k \<Rightarrow> 'k \<times> int \<times> int" where
  "futex_wait_ex sys shared val =
     futex sys \<lparr>fc_op = (if shared then FUTEX_WAIT_BITSET else FUTEX_WAIT_BITSET_PRIVATE),
                fc_value = val, fc_timeout = None, fc_bitset = FUTEX_BITSET_MATCH_ANY\<rparr>"

definition futex_pi_unlock :: "'k syscall \<Rightarrow> bool \<Rightarrow> int \<Rightarrow> 'k \<Rightarrow> 'k \<times> int \<times> int" where
  "futex_pi_unlock sys shared =
     futex sys \<lparr>fc_op = (if shared then FUTEX_UNLOCK_PI else FUTEX_UNLOCK_PI_PRIVATE),
                fc_value = 0, fc_timeout = None, fc_bitset = 0\<rparr>"

text \<open>\<open>None\<close> is an overflow in the conversion of the deadline.\<close>

definition FutexWithTimeout ::
  "'k syscall \<Rightarrow> timespec \<Rightarrow> timespec \<Rightarrow> int \<Rightarrow> int \<Rightarrow> bool \<Rightarrow> timespec option \<Rightarrow> int \<Rightarrow> int \<Rightarrow> 'k \<Rightarrow>
   ('k \<times> int \<times> int) option" where
  "FutexWithTimeout sys cur_m cur_r op val use_realtime_clock abs_timeout bitset errno k =
     (let call = (\<lambda>t. \<lparr>fc_op = op, fc_value = val, fc_timeout = t, fc_bitset = bitset\<rparr>) in
      case abs_timeout of
        None \<Rightarrow> Some (futex sys (call None) errno k)
      | Some t \<Rightarrow>
          if use_realtime_clock then do {
            c \<leftarrow> monotonic_time_from_realtime_time cur_m cur_r t;
            Some (if tv_sec c < 0 then (k, errno, - ETIMEDOUT) else futex sys (call (Some c)) errno k) }
          else Some (futex sys (call (Some t)) errno k))"

definition futex_wait_ex_timeout ::
  "'k syscall \<Rightarrow> timespec \<Rightarrow> timespec \<Rightarrow> bool \<Rightarrow> int \<Rightarrow> bool \<Rightarrow> timespec option \<Rightarrow> int \<Rightarrow> 'k \<Rightarrow>
   ('k \<times> int \<times> int) option" where
  "futex_wait_ex_timeout sys cur_m cur_r shared val use_realtime_clock abs_timeout =
     FutexWithTimeout sys cur_m cur_r
       (if shared then FUTEX_WAIT_BITSET else FUTEX_WAIT_BITSET_PRIVATE) val
       use_realtime_clock abs_timeout FUTEX_BITSET_MATCH_ANY"

definition futex_pi_lock_ex ::
  "'k syscall \<Rightarrow> timespec \<Rightarrow> timespec \<Rightarrow> bool \<Rightarrow> bool \<Rightarrow> timespec option \<Rightarrow> int \<Rightarrow> 'k \<Rightarrow>
   ('k \<times> int \<times> int) option" where
  "futex_pi_lock_ex sys cur_m cur_r shared use_realtime_clock abs_timeout =
     FutexWithTimeout sys cur_m cur_r
       (if shared then FUTEX_LOCK_PI else FUTEX_LOCK_PI_PRIVATE) 0
       use_realtime_clock abs_timeout 0"

definition timespec_ns :: "timespec \<Rightarrow> int" where
  "timespec_ns t = tv_sec t * NS_PER_S + tv_nsec t"

definition timespec_normal :: "timespec \<Rightarrow> bool" where
  "timespec_normal t \<longleftrightarrow> 0 \<le> tv_nsec t \<and> tv_nsec t < NS_PER_S"

section \<open>Sleeping and waking\<close>

text \<open>
  One futex word as interleaved threads see it. A wait of thread \<open>t\<close> on a word that holds \<open>v\<close>
  with expected value \<open>e\<close> either sleeps (\<open>None\<close>) or returns at once; a sleeping thread leaves
  the call with some result; a wake takes the number of threads to wake. Each operation lists
  its possible outcomes. \<open>fx_asleep\<close> says which threads are queued and not yet woken.
\<close>

record 'k futex_ops =
  fx_wait :: "tid \<Rightarrow> u32 \<Rightarrow> u32 \<Rightarrow> 'k \<Rightarrow> ('k \<times> int option) list"
  fx_leave :: "tid \<Rightarrow> 'k \<Rightarrow> ('k \<times> int) list"
  fx_wake :: "nat \<Rightarrow> 'k \<Rightarrow> ('k \<times> int) list"
  fx_asleep :: "'k \<Rightarrow> tid \<Rightarrow> bool"

text \<open>
  The behaviour futex(2) documents: a wait queues only its caller, and only when the word holds
  the expected value; a thread that leaves is no longer queued, and one that was woken does not
  report a timeout; a wake queues nobody, and wakes at least one queued thread if there is one
  (all of them when its count is \<open>INT_MAX\<close>).
\<close>

definition futex_wait_law :: "'k futex_ops \<Rightarrow> bool" where
  "futex_wait_law fx \<longleftrightarrow> (\<forall>t v e k k' r. (k', r) \<in> set (fx_wait fx t v e k) \<longrightarrow>
     (\<forall>u. u \<noteq> t \<longrightarrow> fx_asleep fx k' u = fx_asleep fx k u) \<and>
     (fx_asleep fx k' t \<longrightarrow> fx_asleep fx k t \<or> r = None \<and> v = e))"

definition futex_leave_law :: "'k futex_ops \<Rightarrow> bool" where
  "futex_leave_law fx \<longleftrightarrow> (\<forall>t k k' r. (k', r) \<in> set (fx_leave fx t k) \<longrightarrow>
     (\<forall>u. u \<noteq> t \<longrightarrow> fx_asleep fx k' u = fx_asleep fx k u) \<and> \<not> fx_asleep fx k' t \<and>
     (\<not> fx_asleep fx k t \<longrightarrow> r \<noteq> - ETIMEDOUT))"

definition INT_MAX_nat :: nat where "INT_MAX_nat = 2147483647"

definition futex_wake_law :: "'k futex_ops \<Rightarrow> bool" where
  "futex_wake_law fx \<longleftrightarrow> (\<forall>n k k' r. (k', r) \<in> set (fx_wake fx n k) \<longrightarrow>
     (\<forall>u. fx_asleep fx k' u \<longrightarrow> fx_asleep fx k u) \<and>
     (0 < n \<longrightarrow> (\<exists>u. fx_asleep fx k u) \<longrightarrow> (\<exists>u. fx_asleep fx k u \<and> \<not> fx_asleep fx k' u)) \<and>
     (n = INT_MAX_nat \<longrightarrow> (\<forall>u. \<not> fx_asleep fx k' u)))"

definition futex_laws :: "'k futex_ops \<Rightarrow> bool" where
  "futex_laws fx \<longleftrightarrow> futex_wait_law fx \<and> futex_leave_law fx \<and> futex_wake_law fx"

text \<open>A first-come first-served queue of threads, the instance the examples run on.\<close>

definition futex_queue :: "tid list futex_ops" where
  "futex_queue = \<lparr>
     fx_wait = (\<lambda>t v e q. if v = e then [(q @ [t], None)] else [(q, Some (- EAGAIN))]),
     fx_leave = (\<lambda>t q. if t \<in> set q then [(removeAll t q, - EINTR), (removeAll t q, - ETIMEDOUT)]
                       else [(q, 0)]),
     fx_wake = (\<lambda>n q. if n = INT_MAX_nat then [([], int (length q))]
                       else [(filter (\<lambda>u. u \<notin> set (take n q)) q, int (min n (length q)))]),
     fx_asleep = (\<lambda>q t. t \<in> set q)\<rparr>"

lemma futex_waitD:
  assumes "futex_laws fx" "(k', r) \<in> set (fx_wait fx t v e k)"
  shows "u \<noteq> t \<Longrightarrow> fx_asleep fx k' u = fx_asleep fx k u"
    and "fx_asleep fx k' t \<Longrightarrow> \<not> fx_asleep fx k t \<Longrightarrow> r = None"
    and "fx_asleep fx k' t \<Longrightarrow> \<not> fx_asleep fx k t \<Longrightarrow> v = e"
  using assms unfolding futex_laws_def futex_wait_law_def by blast+

lemma futex_leaveD:
  assumes "futex_laws fx" "(k', r) \<in> set (fx_leave fx t k)"
  shows "u \<noteq> t \<Longrightarrow> fx_asleep fx k' u = fx_asleep fx k u" and "\<not> fx_asleep fx k' t"
    and "\<not> fx_asleep fx k t \<Longrightarrow> r \<noteq> - ETIMEDOUT"
  using assms unfolding futex_laws_def futex_leave_law_def by blast+

lemma futex_wakeD:
  assumes "futex_laws fx" "(k', r) \<in> set (fx_wake fx n k)"
  shows "fx_asleep fx k' u \<Longrightarrow> fx_asleep fx k u"
    and "0 < n \<Longrightarrow> fx_asleep fx k u \<Longrightarrow> \<exists>v. fx_asleep fx k v \<and> \<not> fx_asleep fx k' v"
    and "n = INT_MAX_nat \<Longrightarrow> \<not> fx_asleep fx k' u"
  using assms unfolding futex_laws_def futex_wake_law_def by blast+

lemma futex_queue_laws: "futex_laws futex_queue"
proof -
  have "futex_wait_law futex_queue"
    by (auto simp: futex_wait_law_def futex_queue_def split: if_splits)
  moreover have "futex_leave_law futex_queue"
    by (auto simp: futex_leave_law_def futex_queue_def split: if_splits)
  moreover have "futex_wake_law futex_queue"
    unfolding futex_wake_law_def
  proof (intro allI impI conjI)
    fix n k k' r u
    assume "(k', r) \<in> set (fx_wake futex_queue n k)"
    then have k': "k' = (if n = INT_MAX_nat then [] else filter (\<lambda>u. u \<notin> set (take n k)) k)"
      by (simp add: futex_queue_def split: if_splits)
    show "fx_asleep futex_queue k u" if "fx_asleep futex_queue k' u"
      using that by (auto simp: k' futex_queue_def split: if_splits)
    show "\<not> fx_asleep futex_queue k' u" if "n = INT_MAX_nat"
      using that by (simp add: k' futex_queue_def)
    show "\<exists>u. fx_asleep futex_queue k u \<and> \<not> fx_asleep futex_queue k' u"
      if "0 < n" "\<exists>u. fx_asleep futex_queue k u"
      using that by (cases k; cases n) (auto simp: k' futex_queue_def)
  qed
  ultimately show ?thesis by (simp add: futex_laws_def)
qed

text \<open>
  The contract of a component that sleeps on a futex without losing wake-ups. \<open>asleep\<close> lists the
  queued threads, \<open>at_sleep\<close> the places where a thread can be queued; \<open>flagged\<close> says that the
  shared word tells the next thread that leaves to wake somebody, and \<open>duty\<close> that a thread is on
  its way to wake somebody or to look at the word again. \<open>K\<close> is what the component knows of a
  thread that is about to step. The law: a step that leaves threads queued keeps somebody
  responsible for them.
\<close>

definition responsible :: "('g \<Rightarrow> tid \<Rightarrow> bool) \<Rightarrow> ('l \<Rightarrow> bool) \<Rightarrow> ('l \<Rightarrow> bool) \<Rightarrow> 'g \<Rightarrow> tid \<Rightarrow> 'l \<Rightarrow> bool" where
  "responsible asleep at_sleep duty g t l \<longleftrightarrow> duty l \<or> at_sleep l \<and> \<not> asleep g t"

locale sleep_protocol =
  fixes f :: "('g, 'l) thread_step"
    and asleep :: "'g \<Rightarrow> tid \<Rightarrow> bool"
    and at_sleep duty :: "'l \<Rightarrow> bool"
    and flagged :: "'g \<Rightarrow> bool"
    and K :: "'g \<Rightarrow> tid \<Rightarrow> 'l \<Rightarrow> bool"
  assumes own: "K g t l \<Longrightarrow> (g', l') \<in> set (f t g l) \<Longrightarrow> (asleep g t \<longrightarrow> at_sleep l) \<Longrightarrow>
      asleep g' t \<Longrightarrow> at_sleep l'"
    and others: "K g t l \<Longrightarrow> (g', l') \<in> set (f t g l) \<Longrightarrow> u \<noteq> t \<Longrightarrow> asleep g' u \<Longrightarrow> asleep g u"
    and keep: "K g t l \<Longrightarrow> (g', l') \<in> set (f t g l) \<Longrightarrow> (asleep g t \<longrightarrow> at_sleep l) \<Longrightarrow>
      flagged g' \<or> responsible asleep at_sleep duty g' t l' \<or>
      \<not> flagged g \<and> \<not> responsible asleep at_sleep duty g t l \<and> (asleep g' t \<longrightarrow> asleep g t) \<or>
      (\<exists>u. u \<noteq> t \<and> asleep g u \<and> \<not> asleep g' u) \<or> (\<forall>u. \<not> asleep g' u)"
begin

definition no_lost_wakeup :: "'g \<Rightarrow> (tid \<Rightarrow> 'l) \<Rightarrow> bool" where
  "no_lost_wakeup g ls \<longleftrightarrow> (\<forall>t. asleep g t \<longrightarrow> at_sleep (ls t)) \<and>
     ((\<exists>t. asleep g t) \<longrightarrow> flagged g \<or> (\<exists>u. responsible asleep at_sleep duty g u (ls u)))"

lemma no_lost_wakeup_step:
  assumes inv: "no_lost_wakeup g ls" and K: "K g t (ls t)" and st: "(g', l') \<in> set (f t g (ls t))"
  shows "no_lost_wakeup g' (ls(t := l'))"
proof -
  let ?ls = "ls(t := l')"
  have at: "asleep g u \<Longrightarrow> at_sleep (ls u)" for u using inv by (simp add: no_lost_wakeup_def)
  note oth = others [OF K st]
  have at': "asleep g' u \<Longrightarrow> at_sleep (?ls u)" for u
    using own [OF K st] at oth [of u] by (cases "u = t") auto
  have mono: "responsible asleep at_sleep duty g' u (?ls u)"
    if "u \<noteq> t" "responsible asleep at_sleep duty g u (ls u)" for u
    using that oth by (auto simp: responsible_def)
  have "flagged g' \<or> (\<exists>u. responsible asleep at_sleep duty g' u (?ls u))" if s: "asleep g' s" for s
  proof -
    consider "flagged g'" | "responsible asleep at_sleep duty g' t l'"
      | "\<not> flagged g" "\<not> responsible asleep at_sleep duty g t (ls t)" "asleep g' t \<longrightarrow> asleep g t"
      | u where "u \<noteq> t" "asleep g u" "\<not> asleep g' u"
      using keep [OF K st] at s by blast
    then show ?thesis
    proof cases
      case 2
      then show ?thesis by (intro disjI2 exI [of _ t]) simp
    next
      case 3
      then have "asleep g s" using oth [of s] s by (cases "s = t") auto
      then obtain u where "responsible asleep at_sleep duty g u (ls u)"
        using inv 3(1) by (auto simp: no_lost_wakeup_def)
      with 3(2) mono show ?thesis by (cases "u = t") auto
    next
      case (4 u)
      then show ?thesis using at [of u] by (intro disjI2 exI [of _ u]) (simp add: responsible_def)
    qed simp
  qed
  with at' show ?thesis unfolding no_lost_wakeup_def by blast
qed

lemma no_lost_wakeup_reach:
  assumes "par_reach f s0 s" "no_lost_wakeup (fst s0) (snd s0)"
    and "\<And>g ls t. par_reach f s0 (g, ls) \<Longrightarrow> K g t (ls t)"
  shows "no_lost_wakeup (fst s) (snd s)"
  using assms(1,2)
proof (induction rule: par_reach.induct)
  case (step s s')
  from step.hyps(2) obtain g ls t g' l' where s: "s = (g, ls)" "s' = (g', ls(t := l'))"
    and st: "(g', l') \<in> set (f t g (ls t))" by (auto elim: par_step.cases)
  have "K g t (ls t)" using assms(3) step.hyps(1) s by blast
  then have "no_lost_wakeup g' (ls(t := l'))"
    using st step.IH step.prems by (intro no_lost_wakeup_step) (simp_all add: s)
  then show ?case by (simp only: s fst_conv snd_conv)
qed

lemma asleep_reach:
  assumes "par_reach f (g0, ls0) (g, ls)" "\<And>t. \<not> asleep g0 t"
    and "\<And>g ls t. par_reach f (g0, ls0) (g, ls) \<Longrightarrow> K g t (ls t)"
    and "asleep g t" "\<not> flagged g"
  shows "\<exists>u. responsible asleep at_sleep duty g u (ls u)"
proof -
  have "no_lost_wakeup (fst (g0, ls0)) (snd (g0, ls0))"
    using assms(2) by (simp add: no_lost_wakeup_def)
  then have "no_lost_wakeup (fst (g, ls)) (snd (g, ls))"
    by (rule no_lost_wakeup_reach [OF assms(1)]) (rule assms(3))
  with assms(4,5) show ?thesis by (auto simp: no_lost_wakeup_def)
qed

end

text \<open>
  The same for a component described by the kinds of its steps: it leaves the futex alone, waits,
  leaves a wait, or wakes somebody. The futex laws then give the protocol.
\<close>

definition futex_quiet where
  "futex_quiet fut at_sleep duty flagged g l g' l' \<longleftrightarrow>
     fut g' = fut g \<and> \<not> at_sleep l \<and> \<not> at_sleep l' \<and>
     (flagged g \<or> duty l \<longrightarrow> flagged g' \<or> duty l')"

definition futex_waits where
  "futex_waits fx fut at_sleep duty flagged t g l g' l' \<longleftrightarrow>
     (\<exists>v e r. (fut g', r) \<in> set (fx_wait fx t v e (fut g)) \<and> \<not> at_sleep l \<and> \<not> duty l \<and>
       flagged g' = flagged g \<and> (v = e \<longrightarrow> flagged g) \<and> at_sleep l' = (r = None))"

definition futex_leaves where
  "futex_leaves fx fut at_sleep duty flagged t g l g' l' \<longleftrightarrow>
     (\<exists>r. (fut g', r) \<in> set (fx_leave fx t (fut g)) \<and> at_sleep l \<and> \<not> duty l \<and> \<not> at_sleep l' \<and>
       flagged g' = flagged g \<and> (duty l' \<or> r = - ETIMEDOUT))"

definition futex_wakes where
  "futex_wakes fx fut at_sleep g l g' l' \<longleftrightarrow>
     (\<exists>n r. (fut g', r) \<in> set (fx_wake fx n (fut g)) \<and> 0 < n \<and> \<not> at_sleep l \<and> \<not> at_sleep l')"

lemma futex_waitsI:
  "(fut g', r) \<in> set (fx_wait fx t v e (fut g)) \<Longrightarrow> \<not> at_sleep l \<Longrightarrow> \<not> duty l \<Longrightarrow>
   flagged g' = flagged g \<Longrightarrow> (v = e \<Longrightarrow> flagged g) \<Longrightarrow> at_sleep l' = (r = None) \<Longrightarrow>
   futex_waits fx fut at_sleep duty flagged t g l g' l'"
  unfolding futex_waits_def by blast

lemma futex_leavesI:
  "(fut g', r) \<in> set (fx_leave fx t (fut g)) \<Longrightarrow> at_sleep l \<Longrightarrow> \<not> duty l \<Longrightarrow> \<not> at_sleep l' \<Longrightarrow>
   flagged g' = flagged g \<Longrightarrow> duty l' \<or> r = - ETIMEDOUT \<Longrightarrow>
   futex_leaves fx fut at_sleep duty flagged t g l g' l'"
  unfolding futex_leaves_def by blast

lemma futex_wakesI:
  "(fut g', r) \<in> set (fx_wake fx n (fut g)) \<Longrightarrow> 0 < n \<Longrightarrow> \<not> at_sleep l \<Longrightarrow> \<not> at_sleep l' \<Longrightarrow>
   futex_wakes fx fut at_sleep g l g' l'"
  unfolding futex_wakes_def by blast

locale futex_client =
  fixes f :: "('g, 'l) thread_step"
    and fx :: "'k futex_ops"
    and fut :: "'g \<Rightarrow> 'k"
    and at_sleep duty :: "'l \<Rightarrow> bool"
    and flagged :: "'g \<Rightarrow> bool"
    and K :: "'g \<Rightarrow> tid \<Rightarrow> 'l \<Rightarrow> bool"
  assumes kinds: "K g t l \<Longrightarrow> (g', l') \<in> set (f t g l) \<Longrightarrow>
      futex_quiet fut at_sleep duty flagged g l g' l' \<or>
      futex_waits fx fut at_sleep duty flagged t g l g' l' \<or>
      futex_leaves fx fut at_sleep duty flagged t g l g' l' \<or>
      futex_wakes fx fut at_sleep g l g' l'"
begin

lemma others_kinds:
  assumes "futex_laws fx" "K g t l" "(g', l') \<in> set (f t g l)" "u \<noteq> t"
    and "fx_asleep fx (fut g') u"
  shows "fx_asleep fx (fut g) u"
  using kinds [OF assms(2,3)] assms(4,5)
  by (auto simp: futex_quiet_def futex_waits_def futex_leaves_def futex_wakes_def
      dest: futex_waitD(1) [OF assms(1)] futex_leaveD(1) [OF assms(1)] futex_wakeD(1) [OF assms(1)])

lemma own_kinds:
  assumes "futex_laws fx" "K g t l" "(g', l') \<in> set (f t g l)"
    and "fx_asleep fx (fut g) t \<longrightarrow> at_sleep l" "fx_asleep fx (fut g') t"
  shows "at_sleep l'"
  using kinds [OF assms(2,3)] assms(4,5)
  by (auto simp: futex_quiet_def futex_waits_def futex_leaves_def futex_wakes_def
      dest: futex_waitD(2) [OF assms(1)] futex_leaveD(2) [OF assms(1)] futex_wakeD(1) [OF assms(1)])

lemma keep_kinds:
  assumes laws: "futex_laws fx" and "K g t l" "(g', l') \<in> set (f t g l)"
    and own: "fx_asleep fx (fut g) t \<longrightarrow> at_sleep l"
  shows "flagged g' \<or> responsible (\<lambda>g. fx_asleep fx (fut g)) at_sleep duty g' t l' \<or>
    \<not> flagged g \<and> \<not> responsible (\<lambda>g. fx_asleep fx (fut g)) at_sleep duty g t l \<and>
    (fx_asleep fx (fut g') t \<longrightarrow> fx_asleep fx (fut g) t) \<or>
    (\<exists>u. u \<noteq> t \<and> fx_asleep fx (fut g) u \<and> \<not> fx_asleep fx (fut g') u) \<or>
    (\<forall>u. \<not> fx_asleep fx (fut g') u)"
proof -
  let ?R = "responsible (\<lambda>g. fx_asleep fx (fut g)) at_sleep duty"
  consider (quiet) "futex_quiet fut at_sleep duty flagged g l g' l'"
    | (waits) "futex_waits fx fut at_sleep duty flagged t g l g' l'"
    | (leaves) "futex_leaves fx fut at_sleep duty flagged t g l g' l'"
    | (wakes) "futex_wakes fx fut at_sleep g l g' l'"
    using kinds [OF assms(2,3)] by blast
  then have "flagged g' \<or> ?R g' t l' \<or>
      \<not> flagged g \<and> \<not> ?R g t l \<and> (fx_asleep fx (fut g') t \<longrightarrow> fx_asleep fx (fut g) t) \<or>
      futex_wakes fx fut at_sleep g l g' l'"
  proof cases
    case quiet
    then show ?thesis unfolding futex_quiet_def responsible_def by simp blast
  next
    case waits
    then obtain v e r where w: "(fut g', r) \<in> set (fx_wait fx t v e (fut g))"
      and c: "\<not> at_sleep l" "\<not> duty l" "flagged g' = flagged g" "v = e \<longrightarrow> flagged g"
      unfolding futex_waits_def by blast
    have "fx_asleep fx (fut g') t \<Longrightarrow> flagged g"
      using futex_waitD(3) [OF laws w] own c by blast
    with c show ?thesis by (auto simp: responsible_def)
  next
    case leaves
    then obtain r where w: "(fut g', r) \<in> set (fx_leave fx t (fut g))"
      and c: "at_sleep l" "\<not> duty l" "flagged g' = flagged g" "duty l' \<or> r = - ETIMEDOUT"
      unfolding futex_leaves_def by blast
    have "duty l' \<or> fx_asleep fx (fut g) t" using futex_leaveD(3) [OF laws w] c(4) by blast
    with c futex_leaveD(2) [OF laws w] show ?thesis by (auto simp: responsible_def)
  next
    case wakes
    then show ?thesis by blast
  qed
  moreover have "(\<exists>u. u \<noteq> t \<and> fx_asleep fx (fut g) u \<and> \<not> fx_asleep fx (fut g') u) \<or>
      (\<forall>u. \<not> fx_asleep fx (fut g') u)" if "futex_wakes fx fut at_sleep g l g' l'"
  proof -
    from that obtain n r where w: "(fut g', r) \<in> set (fx_wake fx n (fut g))" and "0 < n" "\<not> at_sleep l"
      unfolding futex_wakes_def by blast
    show ?thesis
    proof (cases "\<exists>u. fx_asleep fx (fut g) u")
      case True
      then obtain v where "fx_asleep fx (fut g) v" "\<not> fx_asleep fx (fut g') v"
        using futex_wakeD(2) [OF laws w \<open>0 < n\<close>] by blast
      with own \<open>\<not> at_sleep l\<close> show ?thesis by (intro disjI1 exI [of _ v]) auto
    next
      case False
      then show ?thesis using futex_wakeD(1) [OF laws w] by blast
    qed
  qed
  ultimately show ?thesis by argo
qed

end

sublocale futex_client \<subseteq> sleep_protocol f "\<lambda>g. fx_asleep fx (fut g)" at_sleep duty flagged
  "\<lambda>g t l. futex_laws fx \<and> K g t l"
  by unfold_locales (use own_kinds others_kinds keep_kinds in blast)+

text \<open>
  Components that wake everybody at once need less: whoever is queued is covered by the mark in
  the shared word or by a thread that is about to wake all.
\<close>

definition wake_all_step where
  "wake_all_step fx fut duty flagged t g l g' l' \<longleftrightarrow>
     ((fut g' = fut g \<or> (\<exists>r. (fut g', r) \<in> set (fx_leave fx t (fut g))) \<or>
       (\<exists>v e r. (fut g', r) \<in> set (fx_wait fx t v e (fut g)) \<and> (v = e \<longrightarrow> flagged g))) \<and>
      (flagged g \<or> duty l \<longrightarrow> flagged g' \<or> duty l')) \<or>
     (\<exists>r. (fut g', r) \<in> set (fx_wake fx INT_MAX_nat (fut g)))"

lemma wake_all_quietI:
  "fut g' = fut g \<Longrightarrow> (flagged g \<or> duty l \<Longrightarrow> flagged g' \<or> duty l') \<Longrightarrow>
   wake_all_step fx fut duty flagged t g l g' l'"
  unfolding wake_all_step_def by blast

lemma wake_all_waitI:
  "(fut g', r) \<in> set (fx_wait fx t v e (fut g)) \<Longrightarrow> (v = e \<Longrightarrow> flagged g) \<Longrightarrow>
   (flagged g \<or> duty l \<Longrightarrow> flagged g' \<or> duty l') \<Longrightarrow> wake_all_step fx fut duty flagged t g l g' l'"
  unfolding wake_all_step_def by blast

lemma wake_all_leaveI:
  "(fut g', r) \<in> set (fx_leave fx t (fut g)) \<Longrightarrow>
   (flagged g \<or> duty l \<Longrightarrow> flagged g' \<or> duty l') \<Longrightarrow> wake_all_step fx fut duty flagged t g l g' l'"
  unfolding wake_all_step_def by blast

lemma wake_all_wakeI:
  "(fut g', r) \<in> set (fx_wake fx INT_MAX_nat (fut g)) \<Longrightarrow> wake_all_step fx fut duty flagged t g l g' l'"
  unfolding wake_all_step_def by blast

locale wake_all_client =
  fixes f :: "('g, 'l) thread_step"
    and fx :: "'k futex_ops"
    and fut :: "'g \<Rightarrow> 'k"
    and duty :: "'l \<Rightarrow> bool"
    and flagged :: "'g \<Rightarrow> bool"
    and K :: "'g \<Rightarrow> tid \<Rightarrow> 'l \<Rightarrow> bool"
  assumes all_step: "K g t l \<Longrightarrow> (g', l') \<in> set (f t g l) \<Longrightarrow>
    wake_all_step fx fut duty flagged t g l g' l'"
begin

lemma all_step_inv:
  assumes laws: "futex_laws fx" and K: "K g t (ls t)" and st: "(g', l') \<in> set (f t g (ls t))"
    and inv: "\<And>u. fx_asleep fx (fut g) u \<Longrightarrow> flagged g \<or> (\<exists>v. duty (ls v))"
    and u: "fx_asleep fx (fut g') u"
  shows "flagged g' \<or> (\<exists>v. duty ((ls(t := l')) v))"
proof -
  have no: False if "(fut g', r) \<in> set (fx_wake fx INT_MAX_nat (fut g))" for r
    using futex_wakeD(3) [OF laws that] u by simp
  have keep: "flagged g \<or> duty (ls t) \<longrightarrow> flagged g' \<or> duty l'"
    using all_step [OF K st] no unfolding wake_all_step_def by blast
  have "flagged g \<or> (\<exists>v. fx_asleep fx (fut g) v)"
  proof -
    consider "fut g' = fut g" | r where "(fut g', r) \<in> set (fx_leave fx t (fut g))"
      | v e r where "(fut g', r) \<in> set (fx_wait fx t v e (fut g))" "v = e \<longrightarrow> flagged g"
      using all_step [OF K st] no unfolding wake_all_step_def by blast
    then show ?thesis
    proof cases
      case 2
      then show ?thesis using futex_leaveD(1,2) [OF laws 2] u by (cases "u = t") auto
    next
      case 3
      then show ?thesis using futex_waitD(1,3) [OF laws 3(1)] u by (cases "u = t") auto
    qed (use u in auto)
  qed
  then have "flagged g \<or> (\<exists>v. duty (ls v))" using inv by blast
  then show ?thesis
  proof
    assume "\<exists>v. duty (ls v)"
    then obtain v where "duty (ls v)" by blast
    with keep show ?thesis by (cases "v = t") (auto intro: exI [of _ v])
  qed (use keep in auto)
qed

lemma all_asleep_reach:
  assumes laws: "futex_laws fx" and r: "par_reach f (g0, ls0) (g, ls)" and i: "\<And>t. \<not> fx_asleep fx (fut g0) t"
    and K: "\<And>g ls t. par_reach f (g0, ls0) (g, ls) \<Longrightarrow> K g t (ls t)"
    and "fx_asleep fx (fut g) u"
  shows "flagged g \<or> (\<exists>v. duty (ls v))"
proof -
  have "\<forall>u. fx_asleep fx (fut (fst s)) u \<longrightarrow> flagged (fst s) \<or> (\<exists>v. duty (snd s v))"
    if "par_reach f (g0, ls0) s" for s
    using that
  proof (induction rule: par_reach.induct)
    case start
    then show ?case using i by simp
  next
    case (step s s')
    from step.hyps(2) obtain g ls t g' l' where s: "s = (g, ls)" "s' = (g', ls(t := l'))"
      and st: "(g', l') \<in> set (f t g (ls t))" by (auto elim: par_step.cases)
    have k: "K g t (ls t)" by (rule K) (use step.hyps(1) s in simp)
    from all_step_inv [where ls = ls and t = t, OF laws k st] step.IH show ?case
      by (simp only: s fst_conv snd_conv) blast
  qed
  from this [OF r] assms(5) show ?thesis by auto
qed

end

section \<open>Properties\<close>

text \<open>Clock readings and deadlines for which the arithmetic stays in range: as \<open>clock_gettime\<close> gives them
  and \<open>check_timespec\<close> lets them pass, but for seconds of \<open>2 ^ 62\<close> and more.\<close>

definition timespec_in_range :: "timespec \<Rightarrow> bool" where
  "timespec_in_range t \<longleftrightarrow> timespec_normal t \<and> 0 \<le> tv_sec t \<and> tv_sec t < 2 ^ 62"

lemma checked64_simps [simp]: "- (2 ^ 63) \<le> x \<Longrightarrow> x < 2 ^ 63 \<Longrightarrow> checked64 x = Some x"
  by (simp add: checked64_def)

lemma monotonic_time_eq:
  assumes "timespec_in_range t" "timespec_in_range cur_m" "timespec_in_range cur_r"
  shows "\<exists>d. monotonic_time_from_realtime_time cur_m cur_r t = Some d \<and> timespec_normal d \<and>
    timespec_ns d = timespec_ns t - timespec_ns cur_r + timespec_ns cur_m"
  using assms
  by (simp add: monotonic_time_from_realtime_time_def timespec_in_range_def timespec_normal_def timespec_ns_def algebra_simps)

text \<open>A deadline that a caller may use for `never' overflows when the nanoseconds carry.\<close>

lemma monotonic_time_overflow:
  assumes "tv_sec t = 2 ^ 63 - 1" "timespec_normal t" "timespec_normal cur_m" "timespec_normal cur_r"
    "tv_nsec t - tv_nsec cur_r + tv_nsec cur_m \<ge> NS_PER_S"
  shows "monotonic_time_from_realtime_time cur_m cur_r t = None"
  using assms by (simp add: monotonic_time_from_realtime_time_def timespec_normal_def checked64_def)

lemma futex_errno: "futex sys call errno k = (k', errno', r) \<Longrightarrow> errno' = errno"
  by (auto simp: futex_def Let_def split: prod.splits if_splits)

text \<open>C36. Deadlines. For clock readings and deadlines in range (\<open>timespec_in_range\<close>) no signed addition
  overflows, and a wait with a real-time deadline asks the kernel for a well-formed monotonic
  deadline that is exactly as far from the monotonic clock as the given one is from the
  real-time clock; when that deadline is before the epoch the call times out without waiting.\<close>

theorem FutexWithTimeout_deadline:
  assumes "timespec_in_range t" "timespec_in_range cur_m" "timespec_in_range cur_r"
  shows "\<exists>d. timespec_normal d \<and> timespec_ns d - timespec_ns cur_m = timespec_ns t - timespec_ns cur_r \<and>
    FutexWithTimeout sys cur_m cur_r op val True (Some t) bitset errno k =
      Some (if tv_sec d < 0 then (k, errno, - ETIMEDOUT)
       else futex sys \<lparr>fc_op = op, fc_value = val, fc_timeout = Some d, fc_bitset = bitset\<rparr> errno k)"
proof -
  obtain d where "monotonic_time_from_realtime_time cur_m cur_r t = Some d" "timespec_normal d"
    "timespec_ns d = timespec_ns t - timespec_ns cur_r + timespec_ns cur_m"
    using monotonic_time_eq [OF assms] by blast
  then show ?thesis by (intro exI [of _ d]) (simp add: FutexWithTimeout_def Let_def)
qed

theorem FutexWithTimeout_deadline_witness:
  "\<exists>d. timespec_normal d \<and> timespec_ns d - timespec_ns \<lparr>tv_sec = 5, tv_nsec = 999999999\<rparr> = 2 \<and>
    FutexWithTimeout (\<lambda>call k. (k + 1, 0, 0)) \<lparr>tv_sec = 5, tv_nsec = 999999999\<rparr>
      \<lparr>tv_sec = 100, tv_nsec = 999999999\<rparr> 9 2 True (Some \<lparr>tv_sec = 101, tv_nsec = 1\<rparr>) 0 7 (0 :: nat) =
      Some (if tv_sec d < 0 then (0, 7, - ETIMEDOUT)
       else futex (\<lambda>call k. (k + 1, 0, 0))
         \<lparr>fc_op = 9, fc_value = 2, fc_timeout = Some d, fc_bitset = 0\<rparr> 7 0)"
  using FutexWithTimeout_deadline [of "\<lparr>tv_sec = 101, tv_nsec = 1\<rparr>" "\<lparr>tv_sec = 5, tv_nsec = 999999999\<rparr>"
      "\<lparr>tv_sec = 100, tv_nsec = 999999999\<rparr>" "\<lambda>call k. (k + 1, 0, 0)" 9 2 0 7 "0 :: nat"]
  by (simp only: timespec_in_range_def timespec_normal_def timespec_ns_def timespec.simps) simp

lemma futex_keeps_errno:
  assumes "FutexWithTimeout sys cur_m cur_r op val rt timeout bitset errno k = Some (k', errno', r)"
  shows "errno' = errno"
  using assms by (auto simp: FutexWithTimeout_def Let_def bind_eq_Some_conv dest: futex_errno split: option.splits if_splits)

lemma timeval_roundtrip:
  assumes "timespec_from_timeval tv ts = (ts', True)"
  shows "timeval_from_timespec ts' = tv \<and> timespec_normal ts'"
  using assms by (auto simp: timespec_from_timeval_def timeval_from_timespec_def timespec_normal_def
    cdiv_def Let_def sgn_if split: if_splits)

lemma timespec_from_ms_eq:
  "timespec_ns (timespec_from_ms ms) = ms * 1000000"
  by (simp add: timespec_from_ms_def timespec_ns_def crem_def algebra_simps)

end
