(* ===== verification/Bionic_Lock.thy ===== *)
theory Bionic_Lock
  imports Bionic_Futex
begin

text \<open>
  \<open>Lock\<close> (\<open>private/bionic_lock.h\<close>) and the spin lock built on it (\<open>pthread_spinlock.cpp\<close>).
  Every atomic access and every futex call is one step of a thread. \<open>lock_pc\<close> says where in
  \<open>lock\<close> or \<open>unlock\<close> a thread is; a thread that is in neither may call \<open>lock\<close> or \<open>trylock\<close>, and
  the holder may call \<open>unlock\<close>. Memory is sequentially consistent.
\<close>

section \<open>Lock\<close>

datatype LockState = Unlocked | LockedWithoutWaiter | LockedWithWaiter

fun LockState_word :: "LockState \<Rightarrow> u32" where
  "LockState_word Unlocked = 0"
| "LockState_word LockedWithoutWaiter = 1"
| "LockState_word LockedWithWaiter = 2"

record 'k Lock =
  lk_state :: LockState
  lk_process_shared :: bool
  lk_futex :: 'k

definition Lock_init :: "bool \<Rightarrow> 'k \<Rightarrow> 'k Lock" where
  "Lock_init process_shared k =
     \<lparr>lk_state = Unlocked, lk_process_shared = process_shared, lk_futex = k\<rparr>"

definition Lock_trylock :: "'k Lock \<Rightarrow> 'k Lock \<times> bool" where
  "Lock_trylock g =
     (if lk_state g = Unlocked then (g\<lparr>lk_state := LockedWithoutWaiter\<rparr>, True) else (g, False))"

datatype lock_pc =
    LkOut
  | LkCas
  | LkExchange
  | LkWait
  | LkSleep
  | LkHeld
  | LkWake

text \<open>\<open>lock\<close>: the first attempt, the loop around the exchange, and the wait.\<close>

definition Lock_lock_step ::
  "'k futex_ops \<Rightarrow> tid \<Rightarrow> 'k Lock \<Rightarrow> lock_pc \<Rightarrow> ('k Lock \<times> lock_pc) list" where
  "Lock_lock_step fx t g pc =
     (case pc of
        LkCas \<Rightarrow> (case Lock_trylock g of (g', ok) \<Rightarrow> [(g', if ok then LkHeld else LkExchange)])
      | LkExchange \<Rightarrow>
          [(g\<lparr>lk_state := LockedWithWaiter\<rparr>, if lk_state g \<noteq> Unlocked then LkWait else LkHeld)]
      | LkWait \<Rightarrow>
          map (\<lambda>(k, r). (g\<lparr>lk_futex := k\<rparr>, case r of None \<Rightarrow> LkSleep | Some _ \<Rightarrow> LkExchange))
            (fx_wait fx t (LockState_word (lk_state g)) (LockState_word LockedWithWaiter) (lk_futex g))
      | LkSleep \<Rightarrow> map (\<lambda>(k, r). (g\<lparr>lk_futex := k\<rparr>, LkExchange)) (fx_leave fx t (lk_futex g))
      | _ \<Rightarrow> [])"

text \<open>\<open>unlock\<close>: the exchange, and the wake when there may be a waiter.\<close>

definition Lock_unlock_step ::
  "'k futex_ops \<Rightarrow> 'k Lock \<Rightarrow> lock_pc \<Rightarrow> ('k Lock \<times> lock_pc) list" where
  "Lock_unlock_step fx g pc =
     (case pc of
        LkHeld \<Rightarrow>
          [(g\<lparr>lk_state := Unlocked\<rparr>, if lk_state g = LockedWithWaiter then LkWake else LkOut)]
      | LkWake \<Rightarrow> map (\<lambda>(k, r). (g\<lparr>lk_futex := k\<rparr>, LkOut)) (fx_wake fx 1 (lk_futex g))
      | _ \<Rightarrow> [])"

definition Lock_step :: "'k futex_ops \<Rightarrow> ('k Lock, lock_pc) thread_step" where
  "Lock_step fx t g pc =
     (case pc of
        LkOut \<Rightarrow>
          [(g, LkCas)] @ (case Lock_trylock g of (g', ok) \<Rightarrow> [(g', if ok then LkHeld else LkOut)])
      | LkHeld \<Rightarrow> Lock_unlock_step fx g pc
      | LkWake \<Rightarrow> Lock_unlock_step fx g pc
      | _ \<Rightarrow> Lock_lock_step fx t g pc)"

section \<open>The spin lock\<close>

datatype spin_pc = SpOut | Spin nat | SpLock lock_pc

definition pthread_spin_init :: "bool \<Rightarrow> 'k \<Rightarrow> 'k Lock \<times> int" where
  "pthread_spin_init pshared k = (Lock_init pshared k, 0)"

definition pthread_spin_destroy :: "'k Lock \<Rightarrow> 'k Lock \<times> int" where
  "pthread_spin_destroy g = (case Lock_trylock g of (g', ok) \<Rightarrow> (g', if ok then 0 else EBUSY))"

definition pthread_spin_trylock :: "'k Lock \<Rightarrow> 'k Lock \<times> int" where
  "pthread_spin_trylock g = (case Lock_trylock g of (g', ok) \<Rightarrow> (g', if ok then 0 else EBUSY))"

text \<open>\<open>Spin i\<close> is the head of the bounded loop of \<open>pthread_spin_lock\<close>.\<close>

definition pthread_spin_step :: "'k futex_ops \<Rightarrow> ('k Lock, spin_pc) thread_step" where
  "pthread_spin_step fx t g pc =
     (case pc of
        SpOut \<Rightarrow>
          [(g, Spin 0)] @
          (case pthread_spin_trylock g of (g', r) \<Rightarrow> [(g', if r = 0 then SpLock LkHeld else SpOut)])
      | Spin i \<Rightarrow>
          if i < 10000 then
            (case Lock_trylock g of (g', ok) \<Rightarrow> [(g', if ok then SpLock LkHeld else Spin (i + 1))])
          else [(g, SpLock LkCas)]
      | SpLock p \<Rightarrow>
          map (\<lambda>(g', p'). (g', if p' = LkOut then SpOut else SpLock p'))
            (Lock_lock_step fx t g p @ Lock_unlock_step fx g p))"

section \<open>Mutual exclusion\<close>

text \<open>The ghost value is the holder, if there is one.\<close>

definition lock_G :: "tid option \<Rightarrow> 'k Lock \<Rightarrow> bool" where
  "lock_G h g \<longleftrightarrow> (h = None \<longleftrightarrow> lk_state g = Unlocked)"

definition lock_L :: "tid option \<Rightarrow> tid \<Rightarrow> lock_pc \<Rightarrow> bool" where
  "lock_L h t pc \<longleftrightarrow> (pc = LkHeld \<longleftrightarrow> h = Some t)"

lemmas Lock_step_defs = Lock_step_def Lock_lock_step_def Lock_unlock_step_def Lock_trylock_def

lemma Lock_step_ghost:
  assumes "lock_G h g" "lock_L h t pc" "(g', pc') \<in> set (Lock_step fx t g pc)"
  shows "\<exists>h'. lock_G h' g' \<and> lock_L h' t pc' \<and> (\<forall>u m. u \<noteq> t \<longrightarrow> lock_L h u m \<longrightarrow> lock_L h' u m)"
proof -
  have "lock_G (if pc' = LkHeld then Some t else if pc = LkHeld then None else h) g' \<and>
      lock_L (if pc' = LkHeld then Some t else if pc = LkHeld then None else h) t pc' \<and>
      (\<forall>u m. u \<noteq> t \<longrightarrow> lock_L h u m \<longrightarrow>
        lock_L (if pc' = LkHeld then Some t else if pc = LkHeld then None else h) u m)"
    using assms by (cases pc)
      (auto simp: Lock_step_defs lock_G_def lock_L_def split: if_splits option.splits)
  then show ?thesis by blast
qed

interpretation lock: par_ghost "Lock_step fx" lock_G lock_L for fx
  by unfold_locales (rule Lock_step_ghost)

definition spin_abs :: "spin_pc \<Rightarrow> lock_pc" where
  "spin_abs pc = (case pc of SpLock p \<Rightarrow> p | _ \<Rightarrow> LkOut)"

lemma Lock_step_inner:
  "(g', q) \<in> set (Lock_lock_step fx t g p @ Lock_unlock_step fx g p) \<Longrightarrow>
   (g', q) \<in> set (Lock_step fx t g p)"
  by (cases p) (simp_all add: Lock_step_def Lock_lock_step_def Lock_unlock_step_def)

lemma pthread_spin_step_sim:
  assumes "(g', pc') \<in> set (pthread_spin_step fx t g pc)"
  shows "(g', spin_abs pc') \<in> set (Lock_step fx t g (spin_abs pc)) \<or>
    g' = g \<and> spin_abs pc' = spin_abs pc"
proof (cases pc)
  case SpOut
  with assms show ?thesis
    by (cases "lk_state g = Unlocked")
      (auto simp: pthread_spin_step_def pthread_spin_trylock_def Lock_trylock_def Lock_step_def
        spin_abs_def)
next
  case (Spin i)
  with assms show ?thesis
    by (cases "lk_state g = Unlocked"; cases "i < 10000")
      (auto simp: pthread_spin_step_def Lock_trylock_def Lock_step_def spin_abs_def)
next
  case (SpLock p)
  with assms obtain q where q: "(g', q) \<in> set (Lock_lock_step fx t g p @ Lock_unlock_step fx g p)"
    and "pc' = (if q = LkOut then SpOut else SpLock q)"
    unfolding pthread_spin_step_def SpLock spin_pc.case set_map by force
  then have "spin_abs pc' = q" by (simp add: spin_abs_def)
  with Lock_step_inner [OF q] show ?thesis by (simp add: SpLock spin_abs_def)
qed

interpretation spin: par_simulation "pthread_spin_step fx" "Lock_step fx" id spin_abs for fx
  by unfold_locales (simp only: id_apply pthread_spin_step_sim)

section \<open>No lost wake-ups\<close>

definition lock_duty :: "lock_pc \<Rightarrow> bool" where
  "lock_duty pc \<longleftrightarrow> pc = LkWake \<or> pc = LkExchange"

lemma LockState_word_waiter: "LockState_word s = 2 \<longleftrightarrow> s = LockedWithWaiter"
  by (cases s) simp_all

abbreviation lock_asleep_pc :: "lock_pc \<Rightarrow> bool" where
  "lock_asleep_pc pc \<equiv> pc = LkSleep"

abbreviation lock_flagged :: "'k Lock \<Rightarrow> bool" where
  "lock_flagged g \<equiv> lk_state g = LockedWithWaiter"

lemma Lock_step_kinds:
  assumes "(g', pc') \<in> set (Lock_step fx t g pc)"
  shows "futex_quiet lk_futex lock_asleep_pc lock_duty lock_flagged g pc g' pc' \<or>
    futex_waits fx lk_futex lock_asleep_pc lock_duty lock_flagged t g pc g' pc' \<or>
    futex_leaves fx lk_futex lock_asleep_pc lock_duty lock_flagged t g pc g' pc' \<or>
    futex_wakes fx lk_futex lock_asleep_pc g pc g' pc'"
proof (cases pc)
  case LkWait
  with assms obtain k r where
    w: "(k, r) \<in> set (fx_wait fx t (LockState_word (lk_state g)) 2 (lk_futex g))"
    and "g' = g\<lparr>lk_futex := k\<rparr>" "pc' = (case r of None \<Rightarrow> LkSleep | Some _ \<Rightarrow> LkExchange)"
    by (auto simp: Lock_step_defs)
  with LkWait have "futex_waits fx lk_futex lock_asleep_pc lock_duty lock_flagged t g pc g' pc'"
    by (intro futex_waitsI [where r = r and v = "LockState_word (lk_state g)" and e = 2])
      (simp_all add: lock_duty_def LockState_word_waiter split: option.splits)
  then show ?thesis by simp
next
  case LkSleep
  with assms obtain k r where "(k, r) \<in> set (fx_leave fx t (lk_futex g))"
    and "g' = g\<lparr>lk_futex := k\<rparr>" "pc' = LkExchange" by (auto simp: Lock_step_defs)
  with LkSleep have "futex_leaves fx lk_futex lock_asleep_pc lock_duty lock_flagged t g pc g' pc'"
    by (intro futex_leavesI [where r = r]) (simp_all add: lock_duty_def)
  then show ?thesis by simp
next
  case LkWake
  with assms obtain k r where "(k, r) \<in> set (fx_wake fx 1 (lk_futex g))"
    and "g' = g\<lparr>lk_futex := k\<rparr>" "pc' = LkOut" by (auto simp: Lock_step_defs)
  with LkWake have "futex_wakes fx lk_futex lock_asleep_pc g pc g' pc'"
    by (intro futex_wakesI [where r = r and n = 1]) simp_all
  then show ?thesis by simp
qed (use assms in \<open>auto simp: Lock_step_defs futex_quiet_def lock_duty_def split: if_splits\<close>)

interpretation lock_sleep: futex_client "Lock_step fx" fx lk_futex lock_asleep_pc lock_duty
  lock_flagged "\<lambda>g t pc. True" for fx
  by unfold_locales (rule Lock_step_kinds)

section \<open>Properties\<close>

lemma Lock_reach:
  assumes "par_reach (Lock_step fx) (Lock_init ps k, \<lambda>_. LkOut) (g, ls)"
  obtains h where "lock_G h g" "\<And>t. lock_L h t (ls t)"
  by (rule lock.ghost_reach [OF assms, of None])
    (auto simp: lock_G_def lock_L_def Lock_init_def)

text \<open>C11. Mutual exclusion of \<open>Lock\<close>. Whatever the futex does, in every reachable state the lock
  word is \<open>Unlocked\<close> and nobody holds the lock, or it is not and exactly one thread does.\<close>

theorem Lock_mutual_exclusion:
  assumes "par_reach (Lock_step fx) (Lock_init ps k, \<lambda>_. LkOut) (g, ls)"
  shows "lk_state g = Unlocked \<and> (\<forall>t. ls t \<noteq> LkHeld) \<or>
    lk_state g \<noteq> Unlocked \<and> (\<exists>!t. ls t = LkHeld)"
  using assms by (rule Lock_reach) (auto simp: lock_G_def lock_L_def)

theorem Lock_mutual_exclusion_witness:
  "\<exists>!t :: tid. ((\<lambda>_. LkOut)(1 := LkHeld, 2 := LkSleep)) t = LkHeld"
proof -
  have "par_run (Lock_step futex_queue) (Lock_init False [], \<lambda>_. LkOut)
      [(1, 0), (1, 0), (2, 0), (2, 0), (2, 0), (2, 0)] =
    Some (\<lparr>lk_state = LockedWithWaiter, lk_process_shared = False, lk_futex = [2]\<rparr>,
          (\<lambda>_. LkOut)(1 := LkHeld, 2 := LkSleep))"
    by (simp add: Lock_init_def Lock_step_defs futex_queue_def fun_upd_twist)
  from Lock_mutual_exclusion [OF par_run_reach [OF this]] show ?thesis
    by (simp only: Lock.simps LockState.distinct simp_thms)
qed

text \<open>C12. No lost wake-ups in \<open>Lock\<close>. If the futex behaves as documented and some thread is queued
  on it, then the lock word says that there are waiters, or a thread is about to call wake, or
  one that was woken or never slept is about to try the exchange.\<close>

theorem Lock_no_lost_wakeup:
  assumes "futex_laws fx" "\<And>t. \<not> fx_asleep fx k t"
    and "par_reach (Lock_step fx) (Lock_init ps k, \<lambda>_. LkOut) (g, ls)"
    and "fx_asleep fx (lk_futex g) t"
  shows "lk_state g = LockedWithWaiter \<or>
    (\<exists>u. ls u = LkWake \<or> ls u = LkExchange \<or> ls u = LkSleep \<and> \<not> fx_asleep fx (lk_futex g) u)"
proof (rule disjCI)
  assume "\<not> (\<exists>u. ls u = LkWake \<or> ls u = LkExchange \<or> ls u = LkSleep \<and> \<not> fx_asleep fx (lk_futex g) u)"
  then show "lk_state g = LockedWithWaiter"
    using lock_sleep.asleep_reach [OF assms(3), of t] assms(1,2,4)
    by (auto simp: responsible_def lock_duty_def Lock_init_def)
qed

theorem Lock_no_lost_wakeup_witness:
  "\<exists>u :: tid. ((\<lambda>_. LkOut)(1 := LkWake, 2 := LkSleep)) u = LkWake \<or>
    ((\<lambda>_. LkOut)(1 := LkWake, 2 := LkSleep)) u = LkExchange \<or>
    ((\<lambda>_. LkOut)(1 := LkWake, 2 := LkSleep)) u = LkSleep \<and> \<not> fx_asleep futex_queue [2] u"
proof -
  have "par_run (Lock_step futex_queue) (Lock_init False [], \<lambda>_. LkOut)
      [(1, 0), (1, 0), (2, 0), (2, 0), (2, 0), (2, 0), (1, 0)] =
    Some (\<lparr>lk_state = Unlocked, lk_process_shared = False, lk_futex = [2]\<rparr>,
          (\<lambda>_. LkOut)(1 := LkWake, 2 := LkSleep))"
    by (simp add: Lock_init_def Lock_step_defs futex_queue_def fun_upd_twist)
  note r = par_run_reach [OF this]
  have "\<not> fx_asleep futex_queue [] t" "fx_asleep futex_queue [2] 2" for t
    by (simp_all add: futex_queue_def)
  with Lock_no_lost_wakeup [OF futex_queue_laws _ r, of 2] show ?thesis
    by (simp only: Lock.simps LockState.distinct simp_thms)
qed

text \<open>C35. The spin lock implements \<open>Lock\<close>: every run of \<open>pthread_spin_lock\<close>, \<open>pthread_spin_trylock\<close>
  and \<open>pthread_spin_unlock\<close> is a run of \<open>Lock\<close>, so at most one thread holds it.\<close>

theorem spin_mutual_exclusion:
  assumes "par_reach (pthread_spin_step fx) (fst (pthread_spin_init ps k), \<lambda>_. SpOut) (g, ls)"
  shows "par_reach (Lock_step fx) (Lock_init ps k, \<lambda>_. LkOut) (g, spin_abs \<circ> ls) \<and>
    (lk_state g = Unlocked \<and> (\<forall>t. ls t \<noteq> SpLock LkHeld) \<or>
     lk_state g \<noteq> Unlocked \<and> (\<exists>!t. ls t = SpLock LkHeld))"
proof -
  have "par_reach (Lock_step fx) (Lock_init ps k, \<lambda>_. LkOut) (g, spin_abs \<circ> ls)"
    using spin.reach_sim [OF assms] by (simp add: pthread_spin_init_def spin_abs_def comp_def)
  moreover from this obtain h where "lock_G h g" "\<And>t. lock_L h t (spin_abs (ls t))"
    by (rule Lock_reach) auto
  moreover have "spin_abs p = LkHeld \<longleftrightarrow> p = SpLock LkHeld" for p
    by (simp add: spin_abs_def split: spin_pc.splits)
  ultimately show ?thesis by (auto simp: lock_G_def lock_L_def)
qed

theorem spin_mutual_exclusion_witness:
  "\<exists>!t :: tid. ((\<lambda>_. SpOut)(1 := SpLock LkHeld, 2 := Spin 1)) t = SpLock LkHeld"
proof -
  have "par_run (pthread_spin_step futex_queue) (fst (pthread_spin_init False []), \<lambda>_. SpOut)
      [(1, 0), (1, 0), (2, 0), (2, 0)] =
    Some (\<lparr>lk_state = LockedWithoutWaiter, lk_process_shared = False, lk_futex = []\<rparr>,
          (\<lambda>_. SpOut)(1 := SpLock LkHeld, 2 := Spin 1))"
    by (simp add: pthread_spin_init_def Lock_init_def pthread_spin_step_def Lock_trylock_def
        fun_upd_twist)
  from spin_mutual_exclusion [OF par_run_reach [OF this]] show ?thesis
    by (simp only: Lock.simps LockState.distinct simp_thms)
qed

end
