(* ===== verification/Pthread_Mutex.thy ===== *)
theory Pthread_Mutex
  imports Bionic_Futex
begin

text \<open>
  \<open>pthread_mutex.cpp\<close>: the attribute word, priority-inheritance mutexes, and the normal,
  recursive and error-checking mutexes as interleaved atomic steps on the 16-bit state word.
  Builds with 64-bit pointers are modelled.
\<close>

section \<open>Attributes\<close>

abbreviation (input) PTHREAD_MUTEX_NORMAL :: int where "PTHREAD_MUTEX_NORMAL \<equiv> 0"
abbreviation (input) PTHREAD_MUTEX_RECURSIVE :: int where "PTHREAD_MUTEX_RECURSIVE \<equiv> 1"
abbreviation (input) PTHREAD_MUTEX_ERRORCHECK :: int where "PTHREAD_MUTEX_ERRORCHECK \<equiv> 2"
abbreviation (input) PTHREAD_PROCESS_PRIVATE :: int where "PTHREAD_PROCESS_PRIVATE \<equiv> 0"
abbreviation (input) PTHREAD_PROCESS_SHARED :: int where "PTHREAD_PROCESS_SHARED \<equiv> 1"
abbreviation (input) PTHREAD_PRIO_NONE :: int where "PTHREAD_PRIO_NONE \<equiv> 0"
abbreviation (input) PTHREAD_PRIO_INHERIT :: int where "PTHREAD_PRIO_INHERIT \<equiv> 1"

type_synonym mutexattr = u64

abbreviation (input) MUTEXATTR_TYPE_MASK :: mutexattr where "MUTEXATTR_TYPE_MASK \<equiv> 0x000f"
abbreviation (input) MUTEXATTR_SHARED_MASK :: mutexattr where "MUTEXATTR_SHARED_MASK \<equiv> 0x0010"
abbreviation (input) MUTEXATTR_PROTOCOL_MASK :: mutexattr where "MUTEXATTR_PROTOCOL_MASK \<equiv> 0x0020"
abbreviation (input) MUTEXATTR_PROTOCOL_SHIFT :: nat where "MUTEXATTR_PROTOCOL_SHIFT \<equiv> 5"

definition pthread_mutexattr_init :: "mutexattr \<times> int" where
  "pthread_mutexattr_init = (0, 0)"

definition pthread_mutexattr_destroy :: "mutexattr \<times> int" where
  "pthread_mutexattr_destroy = (- 1, 0)"

definition pthread_mutexattr_gettype :: "mutexattr \<Rightarrow> int option \<times> int" where
  "pthread_mutexattr_gettype attr =
     (let type = uint (attr AND MUTEXATTR_TYPE_MASK) in
      if type < PTHREAD_MUTEX_NORMAL \<or> type > PTHREAD_MUTEX_ERRORCHECK then (None, EINVAL)
      else (Some type, 0))"

definition pthread_mutexattr_settype :: "mutexattr \<Rightarrow> int \<Rightarrow> mutexattr \<times> int" where
  "pthread_mutexattr_settype attr type =
     (if type < PTHREAD_MUTEX_NORMAL \<or> type > PTHREAD_MUTEX_ERRORCHECK then (attr, EINVAL)
      else ((attr AND NOT MUTEXATTR_TYPE_MASK) OR of_int type, 0))"

definition pthread_mutexattr_setpshared :: "mutexattr \<Rightarrow> int \<Rightarrow> mutexattr \<times> int" where
  "pthread_mutexattr_setpshared attr pshared =
     (if pshared = PTHREAD_PROCESS_PRIVATE then (attr AND NOT MUTEXATTR_SHARED_MASK, 0)
      else if pshared = PTHREAD_PROCESS_SHARED then (attr OR MUTEXATTR_SHARED_MASK, 0)
      else (attr, EINVAL))"

definition pthread_mutexattr_getpshared :: "mutexattr \<Rightarrow> int \<times> int" where
  "pthread_mutexattr_getpshared attr =
     (if attr AND MUTEXATTR_SHARED_MASK \<noteq> 0 then PTHREAD_PROCESS_SHARED
      else PTHREAD_PROCESS_PRIVATE, 0)"

definition pthread_mutexattr_setprotocol :: "mutexattr \<Rightarrow> int \<Rightarrow> mutexattr \<times> int" where
  "pthread_mutexattr_setprotocol attr protocol =
     (if protocol \<noteq> PTHREAD_PRIO_NONE \<and> protocol \<noteq> PTHREAD_PRIO_INHERIT then (attr, EINVAL)
      else ((attr AND NOT MUTEXATTR_PROTOCOL_MASK) OR
              push_bit MUTEXATTR_PROTOCOL_SHIFT (of_int protocol), 0))"

definition pthread_mutexattr_getprotocol :: "mutexattr \<Rightarrow> int \<times> int" where
  "pthread_mutexattr_getprotocol attr =
     (uint (drop_bit MUTEXATTR_PROTOCOL_SHIFT (attr AND MUTEXATTR_PROTOCOL_MASK)), 0)"

section \<open>Priority-inheritance mutexes\<close>

record PIMutex =
  pi_type :: u8
  pi_shared :: bool
  pi_counter :: u16
  pi_owner_tid :: u32

abbreviation (input) FUTEX_TID_MASK :: u32 where "FUTEX_TID_MASK \<equiv> 0x3fffffff"

definition PIMutexTryLock :: "tid \<Rightarrow> PIMutex \<Rightarrow> PIMutex \<times> int" where
  "PIMutexTryLock tid mutex =
     (let old_owner = pi_owner_tid mutex in
      if old_owner = 0 then (mutex\<lparr>pi_owner_tid := tid\<rparr>, 0)
      else if tid = old_owner AND FUTEX_TID_MASK then
        if pi_type mutex = 0 then (mutex, EBUSY)
        else if pi_type mutex = 2 then (mutex, EDEADLK)
        else if pi_counter mutex = 0xffff then (mutex, EAGAIN)
        else (mutex\<lparr>pi_counter := pi_counter mutex + 1\<rparr>, 0)
      else (mutex, EBUSY))"

text \<open>
  \<open>pi_lock\<close> and \<open>pi_unlock\<close> are the kernel's \<open>FUTEX_LOCK_PI\<close> and \<open>FUTEX_UNLOCK_PI\<close> as the wrappers
  report them: the new owner word and zero or a negated error number.
\<close>

definition PIMutexTimedLock :: "(tid \<Rightarrow> u32 \<Rightarrow> u32 \<times> int) \<Rightarrow> tid \<Rightarrow> PIMutex \<Rightarrow> PIMutex \<times> int" where
  "PIMutexTimedLock pi_lock tid mutex =
     (case PIMutexTryLock tid mutex of (m, ret) \<Rightarrow>
        if ret = 0 then (m, 0)
        else if ret = EBUSY then
          (case pi_lock tid (pi_owner_tid m) of (w, r) \<Rightarrow> (m\<lparr>pi_owner_tid := w\<rparr>, - r))
        else (m, ret))"

text \<open>
  Between the load of the owner word and the last compare-exchange a contending thread may set
  the waiters flag; \<open>env\<close> is what the others do to the word meanwhile.
\<close>

definition PIMutexUnlock ::
  "(tid \<Rightarrow> u32 \<Rightarrow> u32 \<times> int) \<Rightarrow> (u32 \<Rightarrow> u32) \<Rightarrow> tid \<Rightarrow> PIMutex \<Rightarrow> PIMutex \<times> int" where
  "PIMutexUnlock pi_unlock env tid mutex =
     (let old_owner = pi_owner_tid mutex in
      if pi_type mutex = 0 \<and> old_owner = tid then (mutex\<lparr>pi_owner_tid := 0\<rparr>, 0)
      else if tid \<noteq> old_owner AND FUTEX_TID_MASK then (mutex, EPERM)
      else if pi_type mutex = 1 \<and> pi_counter mutex \<noteq> 0 then
        (mutex\<lparr>pi_counter := pi_counter mutex - 1\<rparr>, 0)
      else
        let m = mutex\<lparr>pi_owner_tid := env old_owner\<rparr> in
        if old_owner = tid \<and> pi_owner_tid m = tid then (m\<lparr>pi_owner_tid := 0\<rparr>, 0)
        else case pi_unlock tid (pi_owner_tid m) of (w, r) \<Rightarrow> (m\<lparr>pi_owner_tid := w\<rparr>, - r))"

definition PIMutexDestroy :: "PIMutex \<Rightarrow> PIMutex \<times> int" where
  "PIMutexDestroy mutex =
     (if pi_owner_tid mutex = 0 then (mutex\<lparr>pi_owner_tid := 0xffffffff\<rparr>, 0) else (mutex, EBUSY))"

section \<open>The state word\<close>

definition FIELD_MASK :: "nat \<Rightarrow> nat \<Rightarrow> u16" where
  "FIELD_MASK shift bits = push_bit shift (push_bit bits 1 - 1)"

definition FIELD_TO_BITS :: "u16 \<Rightarrow> nat \<Rightarrow> nat \<Rightarrow> u16" where
  "FIELD_TO_BITS val shift bits = push_bit shift (val AND (push_bit bits 1 - 1))"

definition MUTEX_STATE_MASK :: u16 where "MUTEX_STATE_MASK = FIELD_MASK 0 2"
definition MUTEX_STATE_BITS_UNLOCKED :: u16 where "MUTEX_STATE_BITS_UNLOCKED = FIELD_TO_BITS 0 0 2"
definition MUTEX_STATE_BITS_LOCKED_UNCONTENDED :: u16 where
  "MUTEX_STATE_BITS_LOCKED_UNCONTENDED = FIELD_TO_BITS 1 0 2"
definition MUTEX_STATE_BITS_LOCKED_CONTENDED :: u16 where
  "MUTEX_STATE_BITS_LOCKED_CONTENDED = FIELD_TO_BITS 2 0 2"

definition MUTEX_STATE_BITS_IS_UNLOCKED :: "u16 \<Rightarrow> bool" where
  "MUTEX_STATE_BITS_IS_UNLOCKED v \<longleftrightarrow> v AND MUTEX_STATE_MASK = MUTEX_STATE_BITS_UNLOCKED"

definition MUTEX_STATE_BITS_IS_LOCKED_UNCONTENDED :: "u16 \<Rightarrow> bool" where
  "MUTEX_STATE_BITS_IS_LOCKED_UNCONTENDED v \<longleftrightarrow>
     v AND MUTEX_STATE_MASK = MUTEX_STATE_BITS_LOCKED_UNCONTENDED"

definition MUTEX_STATE_BITS_IS_LOCKED_CONTENDED :: "u16 \<Rightarrow> bool" where
  "MUTEX_STATE_BITS_IS_LOCKED_CONTENDED v \<longleftrightarrow>
     v AND MUTEX_STATE_MASK = MUTEX_STATE_BITS_LOCKED_CONTENDED"

definition MUTEX_STATE_BITS_FLIP_CONTENTION :: "u16 \<Rightarrow> u16" where
  "MUTEX_STATE_BITS_FLIP_CONTENTION v =
     v XOR (MUTEX_STATE_BITS_LOCKED_CONTENDED XOR MUTEX_STATE_BITS_LOCKED_UNCONTENDED)"

definition MUTEX_COUNTER_MASK :: u16 where "MUTEX_COUNTER_MASK = FIELD_MASK 2 11"
definition MUTEX_COUNTER_BITS_ONE :: u16 where "MUTEX_COUNTER_BITS_ONE = FIELD_TO_BITS 1 2 11"

definition MUTEX_COUNTER_BITS_WILL_OVERFLOW :: "u16 \<Rightarrow> bool" where
  "MUTEX_COUNTER_BITS_WILL_OVERFLOW v \<longleftrightarrow> v AND MUTEX_COUNTER_MASK = MUTEX_COUNTER_MASK"

definition MUTEX_COUNTER_BITS_IS_ZERO :: "u16 \<Rightarrow> bool" where
  "MUTEX_COUNTER_BITS_IS_ZERO v \<longleftrightarrow> v AND MUTEX_COUNTER_MASK = 0"

definition MUTEX_SHARED_MASK :: u16 where "MUTEX_SHARED_MASK = FIELD_MASK 13 1"
definition MUTEX_TYPE_MASK :: u16 where "MUTEX_TYPE_MASK = FIELD_MASK 14 2"
definition MUTEX_TYPE_BITS_NORMAL :: u16 where "MUTEX_TYPE_BITS_NORMAL = FIELD_TO_BITS 0 14 2"
definition MUTEX_TYPE_BITS_RECURSIVE :: u16 where "MUTEX_TYPE_BITS_RECURSIVE = FIELD_TO_BITS 1 14 2"
definition MUTEX_TYPE_BITS_ERRORCHECK :: u16 where "MUTEX_TYPE_BITS_ERRORCHECK = FIELD_TO_BITS 2 14 2"
definition PI_MUTEX_STATE :: u16 where "PI_MUTEX_STATE = FIELD_TO_BITS 3 14 2"

record 'k pthread_mutex =
  mx_state :: u16
  mx_owner_tid :: u32
  mx_pi :: PIMutex
  mx_futex :: 'k

definition PIMutex_zero :: PIMutex where
  "PIMutex_zero = \<lparr>pi_type = 0, pi_shared = False, pi_counter = 0, pi_owner_tid = 0\<rparr>"

definition pthread_mutex_init :: "mutexattr option \<Rightarrow> 'k \<Rightarrow> 'k pthread_mutex \<times> int" where
  "pthread_mutex_init attr k =
     (let z = \<lparr>mx_state = 0, mx_owner_tid = 0, mx_pi = PIMutex_zero, mx_futex = k\<rparr> in
      case attr of
        None \<Rightarrow> (z\<lparr>mx_state := MUTEX_TYPE_BITS_NORMAL\<rparr>, 0)
      | Some a \<Rightarrow>
          let shared = (if a AND MUTEXATTR_SHARED_MASK \<noteq> 0 then MUTEX_SHARED_MASK else 0);
              type = a AND MUTEXATTR_TYPE_MASK in
          if type \<noteq> 0 \<and> type \<noteq> 1 \<and> type \<noteq> 2 then (z, EINVAL)
          else
            let state = shared OR (if type = 0 then MUTEX_TYPE_BITS_NORMAL
                                   else if type = 1 then MUTEX_TYPE_BITS_RECURSIVE
                                   else MUTEX_TYPE_BITS_ERRORCHECK) in
            if drop_bit MUTEXATTR_PROTOCOL_SHIFT (a AND MUTEXATTR_PROTOCOL_MASK) = 1 then
              (z\<lparr>mx_state := PI_MUTEX_STATE,
                 mx_pi := PIMutex_zero\<lparr>pi_type := ucast type,
                            pi_shared := (a AND MUTEXATTR_SHARED_MASK \<noteq> 0)\<rparr>\<rparr>, 0)
            else (z\<lparr>mx_state := state, mx_owner_tid := 0\<rparr>, 0))"

definition IsMutexDestroyed :: "u16 \<Rightarrow> bool" where
  "IsMutexDestroyed mutex_state \<longleftrightarrow> mutex_state = 0xffff"

text \<open>\<open>None\<close> is the abort of applications built for API level 28 or above.\<close>

definition HandleUsingDestroyedMutex :: "bool \<Rightarrow> int option" where
  "HandleUsingDestroyedMutex sdk28 = (if sdk28 then None else Some EBUSY)"

definition pthread_mutex_destroy :: "bool \<Rightarrow> 'k pthread_mutex \<Rightarrow> ('k pthread_mutex \<times> int) option" where
  "pthread_mutex_destroy sdk28 mutex =
     (let old_state = mx_state mutex in
      if IsMutexDestroyed old_state then
        map_option (\<lambda>r. (mutex, r)) (HandleUsingDestroyedMutex sdk28)
      else if old_state = PI_MUTEX_STATE then
        (case PIMutexDestroy (mx_pi mutex) of (p, result) \<Rightarrow>
           Some (if result = 0 then (mutex\<lparr>mx_pi := p, mx_state := 0xffff\<rparr>, 0)
                 else (mutex\<lparr>mx_pi := p\<rparr>, result)))
      else if MUTEX_STATE_BITS_IS_UNLOCKED old_state then Some (mutex\<lparr>mx_state := 0xffff\<rparr>, 0)
      else Some (mutex, EBUSY))"

section \<open>Threads\<close>

text \<open>
  \<open>mutex_pc\<close> names the next atomic access of a thread, with the local variables it needs:
  the timeout arguments, \<open>mtype\<close>, \<open>shared\<close> and \<open>old_state\<close>. Names starting with N belong to
  \<open>NormalMutexLock\<close>, with R to the rest of \<open>MutexLockWithTimeout\<close>, with T to
  \<open>pthread_mutex_trylock\<close> and with U to \<open>pthread_mutex_unlock\<close>.
\<close>

type_synonym mutex_timeout = "bool \<times> timespec option"

datatype mutex_pc =
    MOut
  | MLock mutex_timeout
  | MFast mutex_timeout u16
  | MWith mutex_timeout
  | NTry mutex_timeout u16
  | NSwap mutex_timeout u16
  | NWait mutex_timeout u16
  | NSleep mutex_timeout u16
  | ROwner mutex_timeout u16
  | RIncrement
  | RCas mutex_timeout u16 u16
  | RStore
  | RLoop mutex_timeout u16 u16 u16
  | RWait mutex_timeout u16 u16 u16
  | RSleep mutex_timeout u16 u16
  | RLoad mutex_timeout u16 u16
  | MTry
  | TNormal u16
  | TOwner u16
  | TCas u16 u16
  | MUnlock
  | UNormal u16
  | UWake
  | UOwner u16
  | UDecrement
  | UClear u16 u16
  | USwap u16 u16

text \<open>\<open>ml_held\<close> counts the successful locks minus the successful unlocks of the thread.\<close>

record mutex_thread =
  ml_pc :: mutex_pc
  ml_held :: nat
  ml_ret :: int

abbreviation mutex_idle :: mutex_thread where
  "mutex_idle \<equiv> \<lparr>ml_pc = MOut, ml_held = 0, ml_ret = 0\<rparr>"

definition mx_goto :: "mutex_thread \<Rightarrow> mutex_pc \<Rightarrow> mutex_thread" where
  "mx_goto l pc = l\<lparr>ml_pc := pc\<rparr>"

definition mx_return :: "mutex_thread \<Rightarrow> int \<Rightarrow> mutex_thread" where
  "mx_return l r = l\<lparr>ml_pc := MOut, ml_ret := r\<rparr>"

definition mx_locked :: "mutex_thread \<Rightarrow> mutex_thread" where
  "mx_locked l = l\<lparr>ml_pc := MOut, ml_ret := 0, ml_held := ml_held l + 1\<rparr>"

definition mx_unlocked :: "mutex_thread \<Rightarrow> mutex_pc \<Rightarrow> mutex_thread" where
  "mx_unlocked l pc = l\<lparr>ml_pc := pc, ml_ret := 0, ml_held := ml_held l - 1\<rparr>"

text \<open>What the code outside this file does: the futex, the PI calls of the kernel, and the target SDK.\<close>

record 'k mutex_env =
  me_fx :: "'k futex_ops"
  me_pi_lock :: "tid \<Rightarrow> u32 \<Rightarrow> u32 \<times> int"
  me_pi_unlock :: "tid \<Rightarrow> u32 \<Rightarrow> u32 \<times> int"
  me_pi_others :: "u32 \<Rightarrow> u32"
  me_sdk28 :: bool

type_synonym 'k mutex_outcomes = "('k pthread_mutex \<times> mutex_thread) list"

definition mx_destroyed :: "'k mutex_env \<Rightarrow> 'k pthread_mutex \<Rightarrow> mutex_thread \<Rightarrow> 'k mutex_outcomes" where
  "mx_destroyed e g l =
     (case HandleUsingDestroyedMutex (me_sdk28 e) of None \<Rightarrow> [] | Some r \<Rightarrow> [(g, mx_return l r)])"

definition mx_pi_result ::
  "'k pthread_mutex \<Rightarrow> mutex_thread \<Rightarrow> PIMutex \<times> int \<Rightarrow> (mutex_thread \<Rightarrow> mutex_thread) \<Rightarrow>
   'k mutex_outcomes" where
  "mx_pi_result g l pr ok =
     (case pr of (p, r) \<Rightarrow> [(g\<lparr>mx_pi := p\<rparr>, if r = 0 then ok l else mx_return l r)])"

text \<open>\<open>NormalMutexTryLock\<close>: the compare-exchange from unlocked to locked.\<close>

definition NormalMutexTryLock :: "u16 \<Rightarrow> 'k pthread_mutex \<Rightarrow> 'k pthread_mutex \<times> int" where
  "NormalMutexTryLock shared g =
     (if mx_state g = shared OR MUTEX_STATE_BITS_UNLOCKED
      then (g\<lparr>mx_state := shared OR MUTEX_STATE_BITS_LOCKED_UNCONTENDED\<rparr>, 0) else (g, EBUSY))"

definition RecursiveIncrement ::
  "u16 \<Rightarrow> 'k pthread_mutex \<Rightarrow> mutex_thread \<Rightarrow> 'k mutex_outcomes" where
  "RecursiveIncrement old_state g l =
     [(g, if MUTEX_COUNTER_BITS_WILL_OVERFLOW old_state then mx_return l EAGAIN
          else mx_goto l RIncrement)]"

definition RecursiveIncrement_add ::
  "'k pthread_mutex \<Rightarrow> mutex_thread \<Rightarrow> 'k mutex_outcomes" where
  "RecursiveIncrement_add g l = [(g\<lparr>mx_state := mx_state g + MUTEX_COUNTER_BITS_ONE\<rparr>, mx_locked l)]"

text \<open>\<open>NormalMutexLock\<close> after the failed first attempt.\<close>

definition NormalMutexLock_step ::
  "'k futex_ops \<Rightarrow> tid \<Rightarrow> 'k pthread_mutex \<Rightarrow> mutex_thread \<Rightarrow> 'k mutex_outcomes" where
  "NormalMutexLock_step fx t g l =
     (case ml_pc l of
        NTry tmo shared \<Rightarrow>
          (case NormalMutexTryLock shared g of (g', r) \<Rightarrow>
             [(g', if r = 0 then mx_locked l
                   else case check_timespec (snd tmo) True of
                       Some res \<Rightarrow> if res \<noteq> 0 then mx_return l res else mx_goto l (NSwap tmo shared)
                     | None \<Rightarrow> l)])
      | NSwap tmo shared \<Rightarrow>
          [(g\<lparr>mx_state := shared OR MUTEX_STATE_BITS_LOCKED_CONTENDED\<rparr>,
            if mx_state g \<noteq> shared OR MUTEX_STATE_BITS_UNLOCKED then mx_goto l (NWait tmo shared)
            else mx_locked l)]
      | NWait tmo shared \<Rightarrow>
          map (\<lambda>(k, r). (g\<lparr>mx_futex := k\<rparr>,
                 case r of None \<Rightarrow> mx_goto l (NSleep tmo shared)
                 | Some r \<Rightarrow> if r = - ETIMEDOUT then mx_return l ETIMEDOUT
                             else mx_goto l (NSwap tmo shared)))
            (fx_wait fx t (ucast (mx_state g)) (ucast (shared OR MUTEX_STATE_BITS_LOCKED_CONTENDED))
               (mx_futex g))
      | NSleep tmo shared \<Rightarrow>
          map (\<lambda>(k, r). (g\<lparr>mx_futex := k\<rparr>,
                 if r = - ETIMEDOUT then mx_return l ETIMEDOUT else mx_goto l (NSwap tmo shared)))
            (fx_leave fx t (mx_futex g))
      | _ \<Rightarrow> [])"

text \<open>
  \<open>MutexLockWithTimeout\<close>. A weak compare-exchange may fail although the word matches; a
  failure of either kind leaves the current word in \<open>old_state\<close>.
\<close>

definition MutexLockWithTimeout_step ::
  "'k futex_ops \<Rightarrow> tid \<Rightarrow> 'k pthread_mutex \<Rightarrow> mutex_thread \<Rightarrow> 'k mutex_outcomes" where
  "MutexLockWithTimeout_step fx t g l =
     (case ml_pc l of
        MWith tmo \<Rightarrow>
          let old_state = mx_state g; mtype = old_state AND MUTEX_TYPE_MASK;
              shared = old_state AND MUTEX_SHARED_MASK in
          [(g, mx_goto l (if mtype = MUTEX_TYPE_BITS_NORMAL then NTry tmo shared
                          else ROwner tmo old_state))]
      | ROwner tmo old_state \<Rightarrow>
          let mtype = old_state AND MUTEX_TYPE_MASK; shared = old_state AND MUTEX_SHARED_MASK in
          if t = mx_owner_tid g then
            if mtype = MUTEX_TYPE_BITS_ERRORCHECK then [(g, mx_return l EDEADLK)]
            else RecursiveIncrement old_state g l
          else [(g, mx_goto l (if old_state = mtype OR shared OR MUTEX_STATE_BITS_UNLOCKED
                               then RCas tmo mtype shared else RLoop tmo mtype shared old_state))]
      | RIncrement \<Rightarrow> RecursiveIncrement_add g l
      | RCas tmo mtype shared \<Rightarrow>
          if mx_state g = mtype OR shared OR MUTEX_STATE_BITS_UNLOCKED then
            [(g\<lparr>mx_state := mtype OR shared OR MUTEX_STATE_BITS_LOCKED_UNCONTENDED\<rparr>, mx_goto l RStore)]
          else [(g, mx_goto l (RLoop tmo mtype shared (mx_state g)))]
      | RStore \<Rightarrow> [(g\<lparr>mx_owner_tid := t\<rparr>, mx_locked l)]
      | RLoop tmo mtype shared old_state \<Rightarrow>
          if old_state = mtype OR shared OR MUTEX_STATE_BITS_UNLOCKED then
            (if mx_state g = old_state then
               [(g\<lparr>mx_state := mtype OR shared OR MUTEX_STATE_BITS_LOCKED_CONTENDED\<rparr>,
                 mx_goto l RStore)] else []) @
            [(g, mx_goto l (RLoop tmo mtype shared (mx_state g)))]
          else if MUTEX_STATE_BITS_IS_LOCKED_UNCONTENDED old_state then
            (if mx_state g = old_state then
               [(g\<lparr>mx_state := MUTEX_STATE_BITS_FLIP_CONTENTION old_state\<rparr>,
                 mx_goto l (RWait tmo mtype shared (MUTEX_STATE_BITS_FLIP_CONTENTION old_state)))]
             else []) @
            [(g, mx_goto l (RLoop tmo mtype shared (mx_state g)))]
          else [(g, mx_goto l (RWait tmo mtype shared old_state))]
      | RWait tmo mtype shared old_state \<Rightarrow>
          (case check_timespec (snd tmo) True of
             None \<Rightarrow> []
           | Some res \<Rightarrow>
               if res \<noteq> 0 then [(g, mx_return l res)]
               else map (\<lambda>(k, r). (g\<lparr>mx_futex := k\<rparr>,
                      case r of None \<Rightarrow> mx_goto l (RSleep tmo mtype shared)
                      | Some r \<Rightarrow> if r = - ETIMEDOUT then mx_return l ETIMEDOUT
                                  else mx_goto l (RLoad tmo mtype shared)))
                    (fx_wait fx t (ucast (mx_state g)) (ucast old_state) (mx_futex g)))
      | RSleep tmo mtype shared \<Rightarrow>
          map (\<lambda>(k, r). (g\<lparr>mx_futex := k\<rparr>,
                 if r = - ETIMEDOUT then mx_return l ETIMEDOUT
                 else mx_goto l (RLoad tmo mtype shared)))
            (fx_leave fx t (mx_futex g))
      | RLoad tmo mtype shared \<Rightarrow> [(g, mx_goto l (RLoop tmo mtype shared (mx_state g)))]
      | _ \<Rightarrow> NormalMutexLock_step fx t g l)"

text \<open>
  \<open>pthread_mutex_lock\<close> and \<open>__pthread_mutex_timedlock\<close>: the first load and the fast path of a
  normal mutex. They differ only in the timeout arguments (\<open>pthread_mutex_lock\<close> tries a PI
  mutex once more before it waits, which \<open>PIMutexTimedLock\<close> repeats).
\<close>

definition pthread_mutex_lock_step ::
  "'k mutex_env \<Rightarrow> tid \<Rightarrow> 'k pthread_mutex \<Rightarrow> mutex_thread \<Rightarrow> 'k mutex_outcomes" where
  "pthread_mutex_lock_step e t g l =
     (case ml_pc l of
        MLock tmo \<Rightarrow>
          let old_state = mx_state g in
          if old_state AND MUTEX_TYPE_MASK = MUTEX_TYPE_BITS_NORMAL then
            [(g, mx_goto l (MFast tmo (old_state AND MUTEX_SHARED_MASK)))]
          else if old_state = PI_MUTEX_STATE then
            mx_pi_result g l (PIMutexTimedLock (me_pi_lock e) t (mx_pi g)) mx_locked
          else if IsMutexDestroyed old_state then mx_destroyed e g l
          else [(g, mx_goto l (MWith tmo))]
      | MFast tmo shared \<Rightarrow>
          (case NormalMutexTryLock shared g of (g', r) \<Rightarrow>
             [(g', if r = 0 then mx_locked l else mx_goto l (MWith tmo))])
      | _ \<Rightarrow> MutexLockWithTimeout_step (me_fx e) t g l)"

definition pthread_mutex_trylock_step ::
  "'k mutex_env \<Rightarrow> tid \<Rightarrow> 'k pthread_mutex \<Rightarrow> mutex_thread \<Rightarrow> 'k mutex_outcomes" where
  "pthread_mutex_trylock_step e t g l =
     (case ml_pc l of
        MTry \<Rightarrow>
          let old_state = mx_state g; mtype = old_state AND MUTEX_TYPE_MASK in
          if mtype = MUTEX_TYPE_BITS_NORMAL then
            [(g, mx_goto l (TNormal (old_state AND MUTEX_SHARED_MASK)))]
          else if old_state = PI_MUTEX_STATE then
            mx_pi_result g l (PIMutexTryLock t (mx_pi g)) mx_locked
          else if IsMutexDestroyed old_state then mx_destroyed e g l
          else [(g, mx_goto l (TOwner old_state))]
      | TNormal shared \<Rightarrow>
          (case NormalMutexTryLock shared g of (g', r) \<Rightarrow>
             [(g', if r = 0 then mx_locked l else mx_return l r)])
      | TOwner old_state \<Rightarrow>
          let mtype = old_state AND MUTEX_TYPE_MASK; shared = old_state AND MUTEX_SHARED_MASK in
          if t = mx_owner_tid g then
            if mtype = MUTEX_TYPE_BITS_ERRORCHECK then [(g, mx_return l EBUSY)]
            else RecursiveIncrement old_state g l
          else [(g, mx_goto l (TCas mtype shared))]
      | TCas mtype shared \<Rightarrow>
          if mx_state g = mtype OR shared OR MUTEX_STATE_BITS_UNLOCKED then
            [(g\<lparr>mx_state := mtype OR shared OR MUTEX_STATE_BITS_LOCKED_UNCONTENDED\<rparr>, mx_goto l RStore)]
          else [(g, mx_return l EBUSY)]
      | _ \<Rightarrow> [])"

definition NormalMutexUnlock :: "u16 \<Rightarrow> 'k pthread_mutex \<Rightarrow> mutex_thread \<Rightarrow> 'k mutex_outcomes" where
  "NormalMutexUnlock shared g l =
     [(g\<lparr>mx_state := shared OR MUTEX_STATE_BITS_UNLOCKED\<rparr>,
       mx_unlocked l (if mx_state g = shared OR MUTEX_STATE_BITS_LOCKED_CONTENDED
                      then UWake else MOut))]"

declare NormalMutexUnlock_def [simp]

definition pthread_mutex_unlock_step ::
  "'k mutex_env \<Rightarrow> tid \<Rightarrow> 'k pthread_mutex \<Rightarrow> mutex_thread \<Rightarrow> 'k mutex_outcomes" where
  "pthread_mutex_unlock_step e t g l =
     (case ml_pc l of
        MUnlock \<Rightarrow>
          let old_state = mx_state g in
          if old_state AND MUTEX_TYPE_MASK = MUTEX_TYPE_BITS_NORMAL then
            [(g, mx_goto l (UNormal (old_state AND MUTEX_SHARED_MASK)))]
          else if old_state = PI_MUTEX_STATE then
            mx_pi_result g l (PIMutexUnlock (me_pi_unlock e) (me_pi_others e) t (mx_pi g))
              (\<lambda>l. mx_unlocked l MOut)
          else if IsMutexDestroyed old_state then mx_destroyed e g l
          else [(g, mx_goto l (UOwner old_state))]
      | UNormal shared \<Rightarrow> NormalMutexUnlock shared g l
      | UWake \<Rightarrow> map (\<lambda>(k, r). (g\<lparr>mx_futex := k\<rparr>, mx_return l 0)) (fx_wake (me_fx e) 1 (mx_futex g))
      | UOwner old_state \<Rightarrow>
          if t \<noteq> mx_owner_tid g then [(g, mx_return l EPERM)]
          else [(g, mx_goto l (if \<not> MUTEX_COUNTER_BITS_IS_ZERO old_state then UDecrement
                  else UClear (old_state AND MUTEX_TYPE_MASK) (old_state AND MUTEX_SHARED_MASK)))]
      | UDecrement \<Rightarrow> [(g\<lparr>mx_state := mx_state g - MUTEX_COUNTER_BITS_ONE\<rparr>, mx_unlocked l MOut)]
      | UClear mtype shared \<Rightarrow> [(g\<lparr>mx_owner_tid := 0\<rparr>, mx_goto l (USwap mtype shared))]
      | USwap mtype shared \<Rightarrow>
          [(g\<lparr>mx_state := mtype OR shared OR MUTEX_STATE_BITS_UNLOCKED\<rparr>,
            mx_unlocked l (if MUTEX_STATE_BITS_IS_LOCKED_CONTENDED (mx_state g) then UWake else MOut))]
      | _ \<Rightarrow> [])"

text \<open>
  A thread outside the functions may call any of them; unlocking a normal mutex it does not
  hold is undefined, so that call is left out. Thread identifiers are positive.
\<close>

definition mutex_calls ::
  "tid \<Rightarrow> mutex_timeout list \<Rightarrow> 'k pthread_mutex \<Rightarrow> mutex_thread \<Rightarrow> 'k mutex_outcomes" where
  "mutex_calls t tmos g l =
     map (\<lambda>tmo. (g, mx_goto l (MLock tmo))) tmos @ [(g, mx_goto l MTry)] @
     (if mx_state g AND MUTEX_TYPE_MASK = MUTEX_TYPE_BITS_NORMAL \<and> ml_held l = 0 then []
      else [(g, mx_goto l MUnlock)])"

definition mutex_step ::
  "'k mutex_env \<Rightarrow> mutex_timeout list \<Rightarrow> ('k pthread_mutex, mutex_thread) thread_step" where
  "mutex_step e tmos t g l =
     (if t = 0 then []
      else if ml_pc l = MOut then mutex_calls t tmos g l
      else pthread_mutex_lock_step e t g l @ pthread_mutex_trylock_step e t g l @
           pthread_mutex_unlock_step e t g l)"

text \<open>
  \<open>pthread_mutex_lock\<close> is the call with no timeout, \<open>MLock (False, None)\<close>. For a priority-inheritance
  mutex it calls \<open>PIMutexTryLock\<close> and then \<open>PIMutexTimedLock\<close>, which starts with the same attempt;
  in a single step both attempts see the same word. The timed variants choose the clock.
\<close>

definition pthread_mutex_timedlock ::
  "timespec option \<Rightarrow> 'k pthread_mutex \<Rightarrow> mutex_thread \<Rightarrow> 'k mutex_outcomes" where
  "pthread_mutex_timedlock abs_timeout g l = [(g, mx_goto l (MLock (True, abs_timeout)))]"

definition pthread_mutex_timedlock_monotonic_np ::
  "timespec option \<Rightarrow> 'k pthread_mutex \<Rightarrow> mutex_thread \<Rightarrow> 'k mutex_outcomes" where
  "pthread_mutex_timedlock_monotonic_np abs_timeout g l = [(g, mx_goto l (MLock (False, abs_timeout)))]"

definition pthread_mutex_clocklock ::
  "'k mutex_env \<Rightarrow> int \<Rightarrow> timespec option \<Rightarrow> 'k pthread_mutex \<Rightarrow> mutex_thread \<Rightarrow> 'k mutex_outcomes" where
  "pthread_mutex_clocklock e clock abs_timeout g l =
     (if clock = CLOCK_MONOTONIC then [(g, mx_goto l (MLock (False, abs_timeout)))]
      else if clock = CLOCK_REALTIME then [(g, mx_goto l (MLock (True, abs_timeout)))]
      else if IsMutexDestroyed (mx_state g) then mx_destroyed e g l
      else [(g, mx_return l EINVAL)])"

lemma clocklock_calls:
  assumes "ml_pc l = MOut" "clock = CLOCK_REALTIME \<or> clock = CLOCK_MONOTONIC"
  shows "pthread_mutex_clocklock e clock abs_timeout g l =
    (if clock = CLOCK_REALTIME then pthread_mutex_timedlock abs_timeout g l
     else pthread_mutex_timedlock_monotonic_np abs_timeout g l)"
    and "t \<noteq> 0 \<Longrightarrow> (clock = CLOCK_REALTIME, abs_timeout) \<in> set tmos \<Longrightarrow>
      set (pthread_mutex_clocklock e clock abs_timeout g l) \<subseteq> set (mutex_step e tmos t g l)"
  using assms by (auto simp: pthread_mutex_clocklock_def pthread_mutex_timedlock_def
      pthread_mutex_timedlock_monotonic_np_def mutex_step_def mutex_calls_def)

end
