(* ===== verification/Mutex_Invariant.thy ===== *)
theory Mutex_Invariant
  imports Pthread_Mutex
begin

text \<open>
  The invariants of the normal, recursive and error-checking mutexes. \<open>mx_word\<close> reads the state
  word as its four fields; a ghost value says which thread has the lock bits and how far it is;
  every step keeps the relation between the two, which is the \<open>par_ghost\<close> interface. The second
  half classifies every step for the \<open>futex_client\<close> interface.
\<close>

section \<open>The fields of the state word\<close>

definition mx_word :: "nat \<Rightarrow> bool \<Rightarrow> nat \<Rightarrow> nat \<Rightarrow> u16" where
  "mx_word ty sh c s = of_nat (ty * 16384 + (if sh then 8192 else 0) + c * 4 + s)"

definition mx_valid :: "nat \<Rightarrow> nat \<Rightarrow> nat \<Rightarrow> bool" where
  "mx_valid ty c s \<longleftrightarrow> ty < 3 \<and> c < 2048 \<and> s < 3"

lemma mutex_consts:
  "MUTEX_STATE_MASK = 3" "MUTEX_STATE_BITS_UNLOCKED = 0" "MUTEX_STATE_BITS_LOCKED_UNCONTENDED = 1"
  "MUTEX_STATE_BITS_LOCKED_CONTENDED = 2" "MUTEX_COUNTER_MASK = 0x1ffc" "MUTEX_COUNTER_BITS_ONE = 4"
  "MUTEX_SHARED_MASK = 0x2000" "MUTEX_TYPE_MASK = 0xc000" "MUTEX_TYPE_BITS_NORMAL = 0"
  "MUTEX_TYPE_BITS_RECURSIVE = 0x4000" "MUTEX_TYPE_BITS_ERRORCHECK = 0x8000" "PI_MUTEX_STATE = 0xc000"
  by (simp_all add: MUTEX_STATE_MASK_def MUTEX_STATE_BITS_UNLOCKED_def
      MUTEX_STATE_BITS_LOCKED_UNCONTENDED_def MUTEX_STATE_BITS_LOCKED_CONTENDED_def
      MUTEX_COUNTER_MASK_def MUTEX_COUNTER_BITS_ONE_def MUTEX_SHARED_MASK_def MUTEX_TYPE_MASK_def
      MUTEX_TYPE_BITS_NORMAL_def MUTEX_TYPE_BITS_RECURSIVE_def MUTEX_TYPE_BITS_ERRORCHECK_def
      PI_MUTEX_STATE_def FIELD_MASK_def FIELD_TO_BITS_def)

lemma unat_mx_word:
  "mx_valid ty c s \<Longrightarrow> unat (mx_word ty sh c s) = ty * 16384 + (if sh then 8192 else 0) + c * 4 + s"
  unfolding mx_word_def by (rule unat_of_nat_small) (simp add: mx_valid_def)

lemma field_masks:
  "(3 :: u16) = mask 2" "(0x1ffc :: u16) = mask 13 AND NOT (mask 2)"
  "(0x2000 :: u16) = mask 14 AND NOT (mask 13)" "(0xc000 :: u16) = NOT (mask 14)"
  by (simp_all add: mask_numeral)

lemma mx_word_fields:
  assumes "mx_valid ty c s"
  shows "mx_word ty sh c s AND 3 = of_nat s"
    and "mx_word ty sh c s AND 0x1ffc = of_nat (c * 4)"
    and "mx_word ty sh c s AND 0x2000 = mx_word 0 sh 0 0"
    and "mx_word ty sh c s AND 0xc000 = mx_word ty False 0 0"
proof -
  define x where "x = mx_word ty sh c s"
  let ?b = "if sh then 8192 else 0 :: nat"
  have u: "unat x = ty * 16384 + ?b + c * 4 + s" using assms by (simp add: x_def unat_mx_word)
  have b: "?b + c * 4 + s < 16384" "c * 4 + s < 8192" "s < 4" "c * 4 < 8192" "ty < 3"
    using assms by (auto simp: mx_valid_def)
  have m14: "unat x mod 16384 = ?b + c * 4 + s" and d14: "unat x div 16384 = ty"
    using b(1) mod_mult_self3 [of ty 16384 "?b + c * 4 + s"] div_mult_self3 [of 16384 ty "?b + c * 4 + s"]
    by (simp_all add: u add.assoc)
  have "unat x = (ty * 2 + (if sh then 1 else 0)) * 8192 + (c * 4 + s)" by (simp add: u)
  then have m13: "unat x mod 8192 = c * 4 + s"
    using b(2) mod_mult_self3 [of "ty * 2 + (if sh then 1 else 0)" 8192 "c * 4 + s"] by (metis mod_less)
  have "unat x = (ty * 4096 + (if sh then 2048 else 0) + c) * 4 + s" by (simp add: u)
  then have m2: "unat x mod 4 = s"
    using b(3) mod_mult_self3 [of "ty * 4096 + (if sh then 2048 else 0) + c" 4 s] by (metis mod_less)
  show "x AND 3 = of_nat s"
    unfolding field_masks using m2 b(3) by (simp add: word_unat_eq_iff unat_and_mask unat_of_nat_small)
  have "(c * 4 + s) div 4 = c" using b(3) by simp
  then show "x AND 0x1ffc = of_nat (c * 4)"
    unfolding field_masks and.assoc [symmetric] using m13 b(4)
    by (simp add: word_unat_eq_iff unat_and_not_mask unat_and_mask unat_of_nat_small del: of_nat_mult)
  have "(?b + c * 4 + s) div 8192 * 8192 = ?b"
    using b(2) by (auto simp: add.assoc)
  then show "x AND 0x2000 = mx_word 0 sh 0 0"
    unfolding field_masks and.assoc [symmetric] using m14
    by (simp add: word_unat_eq_iff unat_and_not_mask unat_and_mask unat_mx_word mx_valid_def)
  show "x AND 0xc000 = mx_word ty False 0 0"
    unfolding field_masks using d14 b(5)
    by (simp add: word_unat_eq_iff unat_and_not_mask unat_mx_word mx_valid_def)
qed

lemma mx_word_inject:
  assumes "mx_valid ty c s" "mx_valid ty' c' s'"
  shows "mx_word ty sh c s = mx_word ty' sh' c' s' \<longleftrightarrow> ty = ty' \<and> sh = sh' \<and> c = c' \<and> s = s'"
proof
  assume eq: "mx_word ty sh c s = mx_word ty' sh' c' s'"
  note f = mx_word_fields [OF assms(1), of sh] and f' = mx_word_fields [OF assms(2), of sh']
  have v: "s < 3" "s' < 3" "c < 2048" "c' < 2048" "ty < 3" "ty' < 3"
    using assms by (simp_all add: mx_valid_def)
  have "unat (of_nat s :: u16) = unat (of_nat s' :: u16)"
    using f(1) f'(1) unfolding eq by (rule arg_cong [OF trans [OF sym]])
  then have "s = s'" using v by (simp add: unat_of_nat_small)
  moreover have "unat (of_nat (c * 4) :: u16) = unat (of_nat (c' * 4) :: u16)"
    using f(2) f'(2) unfolding eq by (rule arg_cong [OF trans [OF sym]])
  then have "c = c'" using v by (simp add: unat_of_nat_small del: of_nat_mult)
  moreover have "unat (mx_word 0 sh 0 0) = unat (mx_word 0 sh' 0 0)"
    using f(3) f'(3) unfolding eq by (rule arg_cong [OF trans [OF sym]])
  then have "sh = sh'" by (simp add: unat_mx_word mx_valid_def split: if_splits)
  moreover have "unat (mx_word ty False 0 0) = unat (mx_word ty' False 0 0)"
    using f(4) f'(4) unfolding eq by (rule arg_cong [OF trans [OF sym]])
  then have "ty = ty'" using v by (simp add: unat_mx_word mx_valid_def)
  ultimately show "ty = ty' \<and> sh = sh' \<and> c = c' \<and> s = s'" by simp
qed simp

text \<open>The macros on encoded words.\<close>

lemma mx_word_0: "mx_word 0 False 0 s = of_nat s" "mx_word 0 False 0 0 = 0"
  by (simp_all add: mx_word_def)

lemma mx_state_tests:
  assumes "mx_valid ty c s"
  shows "MUTEX_STATE_BITS_IS_UNLOCKED (mx_word ty sh c s) \<longleftrightarrow> s = 0"
    and "MUTEX_STATE_BITS_IS_LOCKED_UNCONTENDED (mx_word ty sh c s) \<longleftrightarrow> s = 1"
    and "MUTEX_STATE_BITS_IS_LOCKED_CONTENDED (mx_word ty sh c s) \<longleftrightarrow> s = 2"
    and "MUTEX_COUNTER_BITS_IS_ZERO (mx_word ty sh c s) \<longleftrightarrow> c = 0"
    and "MUTEX_COUNTER_BITS_WILL_OVERFLOW (mx_word ty sh c s) \<longleftrightarrow> c = 2047"
proof -
  have v: "s < 3" "c * 4 < 8192" using assms by (simp_all add: mx_valid_def)
  then have u: "unat (of_nat s :: u16) = s" "unat (of_nat (c * 4) :: u16) = c * 4"
    by (intro unat_of_nat_small; simp)+
  note f = mx_word_fields [OF assms, of sh]
  show "MUTEX_STATE_BITS_IS_UNLOCKED (mx_word ty sh c s) \<longleftrightarrow> s = 0"
    "MUTEX_STATE_BITS_IS_LOCKED_UNCONTENDED (mx_word ty sh c s) \<longleftrightarrow> s = 1"
    "MUTEX_STATE_BITS_IS_LOCKED_CONTENDED (mx_word ty sh c s) \<longleftrightarrow> s = 2"
    unfolding MUTEX_STATE_BITS_IS_UNLOCKED_def MUTEX_STATE_BITS_IS_LOCKED_UNCONTENDED_def
      MUTEX_STATE_BITS_IS_LOCKED_CONTENDED_def mutex_consts f(1) word_unat_eq_iff u by simp_all
  show "MUTEX_COUNTER_BITS_IS_ZERO (mx_word ty sh c s) \<longleftrightarrow> c = 0"
    "MUTEX_COUNTER_BITS_WILL_OVERFLOW (mx_word ty sh c s) \<longleftrightarrow> c = 2047"
    unfolding MUTEX_COUNTER_BITS_IS_ZERO_def MUTEX_COUNTER_BITS_WILL_OVERFLOW_def mutex_consts f(2)
      word_unat_eq_iff u by auto
qed

lemma mx_word_or:
  assumes "ty < 3" "s < 3"
  shows "mx_word ty False 0 0 OR mx_word 0 sh 0 0 OR of_nat s = mx_word ty sh 0 s"
    and "mx_word 0 sh 0 0 OR of_nat s = mx_word 0 sh 0 s"
proof -
  have us: "unat (of_nat s :: u16) = s" using assms by (intro unat_of_nat_small) simp
  have sh: "mx_word 0 sh 0 0 = push_bit 13 (of_bool sh)" by (simp add: mx_word_def)
  have ty: "mx_word ty False 0 0 = push_bit 14 (of_nat ty)"
    by (simp add: mx_word_def push_bit_eq_mult)
  have 1: "of_nat s OR push_bit 13 (of_bool sh) = (of_nat s + push_bit 13 (of_bool sh) :: u16)"
    by (rule or_push_bit_eq_add) (use us assms in simp)
  have u1: "unat (of_nat s + push_bit 13 (of_bool sh) :: u16) = s + (if sh then 8192 else 0)"
    using assms us by (simp add: unat_word_ariths)
  then show 2: "mx_word 0 sh 0 0 OR of_nat s = mx_word 0 sh 0 s"
    unfolding sh or.commute [of "push_bit 13 (of_bool sh)"] 1
    using assms by (simp add: word_unat_eq_iff unat_mx_word mx_valid_def)
  have "mx_word 0 sh 0 s OR push_bit 14 (of_nat ty) = mx_word 0 sh 0 s + push_bit 14 (of_nat ty)"
    by (rule or_push_bit_eq_add) (use assms in \<open>simp add: unat_mx_word mx_valid_def\<close>)
  moreover have "mx_word 0 sh 0 s + push_bit 14 (of_nat ty) = mx_word ty sh 0 s"
    by (simp add: mx_word_def push_bit_eq_mult)
  ultimately show "mx_word ty False 0 0 OR mx_word 0 sh 0 0 OR of_nat s = mx_word ty sh 0 s"
    unfolding or.assoc 2 ty or.commute [of "push_bit 14 (of_nat ty)"] by simp
qed

lemma mx_word_add: "mx_word ty sh c s + 4 = mx_word ty sh (Suc c) s"
  "0 < c \<Longrightarrow> mx_word ty sh c s - 4 = mx_word ty sh (c - 1) s"
  by (simp_all add: mx_word_def of_nat_diff algebra_simps)

lemma mx_word_flip:
  assumes "mx_valid ty c 1"
  shows "MUTEX_STATE_BITS_FLIP_CONTENTION (mx_word ty sh c 1) = mx_word ty sh c 2"
proof -
  let ?y = "mx_word ty sh c 0"
  have m: "?y AND 3 = 0" using mx_word_fields(1) [of ty c 0 sh] assms by (simp add: mx_valid_def)
  have n: "?y AND mask 2 = 0" using m by (simp only: field_masks)
  have nb: "\<not> i < 2" if "bit ?y i" for i
  proof
    assume "i < 2"
    with that have "bit (?y AND mask 2) i" by (simp add: bit_and_iff bit_mask_iff)
    with n show False by simp
  qed
  have b: "bit (1 :: u16) i \<longleftrightarrow> i = 0" "bit (2 :: u16) i \<longleftrightarrow> i = 1" "bit (3 :: u16) i \<longleftrightarrow> i < 2" for i
  proof -
    show "bit (1 :: u16) i \<longleftrightarrow> i = 0" by (simp add: bit_1_iff)
    have "(2 :: u16) = push_bit 1 1" by simp
    then show "bit (2 :: u16) i \<longleftrightarrow> i = 1" by (simp only: bit_push_bit_iff) (auto simp: bit_1_iff)
    show "bit (3 :: u16) i \<longleftrightarrow> i < 2" by (simp only: field_masks bit_mask_iff) auto
  qed
  have "\<not> bit ?y 0" "\<not> bit ?y 1" using nb [of 0] nb [of 1] by auto
  then have "bit (?y AND 1) i \<longleftrightarrow> bit 0 i" "bit (?y AND 2) i \<longleftrightarrow> bit 0 i" for i
    by (simp_all only: bit_and_iff b bit_0_eq bot_apply bot_bool_def) metis+
  then have "?y AND 1 = 0" "?y AND 2 = 0" by (auto intro: bit_eqI)
  then have "?y + 1 = ?y OR 1" "?y + 2 = ?y OR 2"
    by (simp_all add: or_eq_add_word)
  moreover have "(?y OR 1) XOR 3 = ?y OR 2"
  proof (rule bit_eqI)
    fix i :: nat
    have "i < 2 \<longleftrightarrow> i = 0 \<or> i = 1" by auto
    with nb [of i] show "bit ((?y OR 1) XOR 3) i \<longleftrightarrow> bit (?y OR 2) i"
      by (simp only: bit_xor_iff bit_or_iff b) auto
  qed
  moreover have "mx_word ty sh c 1 = ?y + 1" "mx_word ty sh c 2 = ?y + 2" by (simp_all add: mx_word_def)
  ultimately show ?thesis by (simp add: MUTEX_STATE_BITS_FLIP_CONTENTION_def mutex_consts)
qed

section \<open>The invariant\<close>

text \<open>The ghost value says which thread has the lock bits, and how far it is.\<close>

datatype mutex_mode = Acquiring | Holding nat | Releasing

definition mx_mine :: "(tid \<times> mutex_mode) option \<Rightarrow> tid \<Rightarrow> mutex_mode option" where
  "mx_mine h t = (case h of None \<Rightarrow> None | Some (u, m) \<Rightarrow> if u = t then Some m else None)"

definition mx_G :: "nat \<Rightarrow> bool \<Rightarrow> (tid \<times> mutex_mode) option \<Rightarrow> 'k pthread_mutex \<Rightarrow> bool" where
  "mx_G ty sh h g \<longleftrightarrow> ty < 3 \<and>
     (case h of
        None \<Rightarrow> mx_state g = mx_word ty sh 0 0 \<and> mx_owner_tid g = 0
      | Some (t, m) \<Rightarrow> t \<noteq> 0 \<and>
          (\<exists>s \<in> {1, 2}. case m of
             Acquiring \<Rightarrow> ty \<noteq> 0 \<and> mx_state g = mx_word ty sh 0 s \<and> mx_owner_tid g = 0
           | Holding n \<Rightarrow> 0 < n \<and> n \<le> 2048 \<and> (ty \<noteq> 1 \<longrightarrow> n = 1) \<and>
               mx_state g = mx_word ty sh (n - 1) s \<and> mx_owner_tid g = (if ty = 0 then 0 else t)
           | Releasing \<Rightarrow> ty \<noteq> 0 \<and> mx_state g = mx_word ty sh 0 s \<and> mx_owner_tid g = 0))"

definition mx_old :: "nat \<Rightarrow> bool \<Rightarrow> u16 \<Rightarrow> nat \<Rightarrow> nat \<Rightarrow> bool" where
  "mx_old ty sh w c s \<longleftrightarrow> w = mx_word ty sh c s \<and> mx_valid ty c s \<and> (s = 0 \<longrightarrow> c = 0)"

definition mx_pc_ok :: "nat \<Rightarrow> bool \<Rightarrow> mutex_mode option \<Rightarrow> mutex_pc \<Rightarrow> bool" where
  "mx_pc_ok ty sh me pc \<longleftrightarrow>
     (case pc of
        MFast _ w \<Rightarrow> ty = 0 \<and> w = mx_word 0 sh 0 0
      | NTry _ w \<Rightarrow> ty = 0 \<and> w = mx_word 0 sh 0 0
      | NSwap _ w \<Rightarrow> ty = 0 \<and> w = mx_word 0 sh 0 0
      | NWait _ w \<Rightarrow> ty = 0 \<and> w = mx_word 0 sh 0 0
      | NSleep _ w \<Rightarrow> ty = 0 \<and> w = mx_word 0 sh 0 0
      | TNormal w \<Rightarrow> ty = 0 \<and> w = mx_word 0 sh 0 0
      | UNormal w \<Rightarrow> ty = 0 \<and> w = mx_word 0 sh 0 0 \<and> me = Some (Holding 1)
      | MUnlock \<Rightarrow> ty = 0 \<longrightarrow> me = Some (Holding 1)
      | ROwner _ w \<Rightarrow> ty \<noteq> 0 \<and> (\<exists>c s. mx_old ty sh w c s \<and> (\<forall>n. me = Some (Holding n) \<longrightarrow> c = n - 1))
      | TOwner w \<Rightarrow> ty \<noteq> 0 \<and> (\<exists>c s. mx_old ty sh w c s \<and> (\<forall>n. me = Some (Holding n) \<longrightarrow> c = n - 1))
      | UOwner w \<Rightarrow> ty \<noteq> 0 \<and> (\<exists>c s. mx_old ty sh w c s \<and> (\<forall>n. me = Some (Holding n) \<longrightarrow> c = n - 1))
      | RIncrement \<Rightarrow> ty = 1 \<and> (\<exists>n. me = Some (Holding n) \<and> n < 2048)
      | UDecrement \<Rightarrow> ty = 1 \<and> (\<exists>n. me = Some (Holding n) \<and> 1 < n)
      | RCas _ w v \<Rightarrow> ty \<noteq> 0 \<and> w = mx_word ty False 0 0 \<and> v = mx_word 0 sh 0 0 \<and> me = None
      | TCas w v \<Rightarrow> ty \<noteq> 0 \<and> w = mx_word ty False 0 0 \<and> v = mx_word 0 sh 0 0 \<and> me = None
      | RSleep _ w v \<Rightarrow> ty \<noteq> 0 \<and> w = mx_word ty False 0 0 \<and> v = mx_word 0 sh 0 0 \<and> me = None
      | RLoad _ w v \<Rightarrow> ty \<noteq> 0 \<and> w = mx_word ty False 0 0 \<and> v = mx_word 0 sh 0 0 \<and> me = None
      | RLoop _ w v old \<Rightarrow> ty \<noteq> 0 \<and> w = mx_word ty False 0 0 \<and> v = mx_word 0 sh 0 0 \<and> me = None \<and>
          (\<exists>c s. mx_old ty sh old c s)
      | RWait _ w v old \<Rightarrow> ty \<noteq> 0 \<and> w = mx_word ty False 0 0 \<and> v = mx_word 0 sh 0 0 \<and> me = None \<and>
          (\<exists>c. mx_old ty sh old c 2)
      | UClear w v \<Rightarrow> ty \<noteq> 0 \<and> w = mx_word ty False 0 0 \<and> v = mx_word 0 sh 0 0 \<and> me = Some (Holding 1)
      | USwap w v \<Rightarrow> ty \<noteq> 0 \<and> w = mx_word ty False 0 0 \<and> v = mx_word 0 sh 0 0 \<and> me = Some Releasing
      | RStore \<Rightarrow> ty \<noteq> 0 \<and> me = Some Acquiring
      | _ \<Rightarrow> True)"

lemma mx_pc_ok_simps [simp]:
  "mx_pc_ok ty sh me (MFast x0 w) \<longleftrightarrow> ty = 0 \<and> w = mx_word 0 sh 0 0"
  "mx_pc_ok ty sh me (NTry x0 w) \<longleftrightarrow> ty = 0 \<and> w = mx_word 0 sh 0 0"
  "mx_pc_ok ty sh me (NSwap x0 w) \<longleftrightarrow> ty = 0 \<and> w = mx_word 0 sh 0 0"
  "mx_pc_ok ty sh me (NWait x0 w) \<longleftrightarrow> ty = 0 \<and> w = mx_word 0 sh 0 0"
  "mx_pc_ok ty sh me (NSleep x0 w) \<longleftrightarrow> ty = 0 \<and> w = mx_word 0 sh 0 0"
  "mx_pc_ok ty sh me (TNormal w) \<longleftrightarrow> ty = 0 \<and> w = mx_word 0 sh 0 0"
  "mx_pc_ok ty sh me (UNormal w) \<longleftrightarrow> ty = 0 \<and> w = mx_word 0 sh 0 0 \<and> me = Some (Holding 1)"
  "mx_pc_ok ty sh me MUnlock \<longleftrightarrow> ty = 0 \<longrightarrow> me = Some (Holding 1)"
  "mx_pc_ok ty sh me (ROwner x0 w) \<longleftrightarrow> ty \<noteq> 0 \<and> (\<exists>c s. mx_old ty sh w c s \<and> (\<forall>n. me = Some (Holding n) \<longrightarrow> c = n - 1))"
  "mx_pc_ok ty sh me (TOwner w) \<longleftrightarrow> ty \<noteq> 0 \<and> (\<exists>c s. mx_old ty sh w c s \<and> (\<forall>n. me = Some (Holding n) \<longrightarrow> c = n - 1))"
  "mx_pc_ok ty sh me (UOwner w) \<longleftrightarrow> ty \<noteq> 0 \<and> (\<exists>c s. mx_old ty sh w c s \<and> (\<forall>n. me = Some (Holding n) \<longrightarrow> c = n - 1))"
  "mx_pc_ok ty sh me RIncrement \<longleftrightarrow> ty = 1 \<and> (\<exists>n. me = Some (Holding n) \<and> n < 2048)"
  "mx_pc_ok ty sh me UDecrement \<longleftrightarrow> ty = 1 \<and> (\<exists>n. me = Some (Holding n) \<and> 1 < n)"
  "mx_pc_ok ty sh me (RCas x0 w v) \<longleftrightarrow> ty \<noteq> 0 \<and> w = mx_word ty False 0 0 \<and> v = mx_word 0 sh 0 0 \<and> me = None"
  "mx_pc_ok ty sh me (TCas w v) \<longleftrightarrow> ty \<noteq> 0 \<and> w = mx_word ty False 0 0 \<and> v = mx_word 0 sh 0 0 \<and> me = None"
  "mx_pc_ok ty sh me (RSleep x0 w v) \<longleftrightarrow> ty \<noteq> 0 \<and> w = mx_word ty False 0 0 \<and> v = mx_word 0 sh 0 0 \<and> me = None"
  "mx_pc_ok ty sh me (RLoad x0 w v) \<longleftrightarrow> ty \<noteq> 0 \<and> w = mx_word ty False 0 0 \<and> v = mx_word 0 sh 0 0 \<and> me = None"
  "mx_pc_ok ty sh me (RLoop x0 w v old) \<longleftrightarrow> ty \<noteq> 0 \<and> w = mx_word ty False 0 0 \<and> v = mx_word 0 sh 0 0 \<and> me = None \<and> (\<exists>c s. mx_old ty sh old c s)"
  "mx_pc_ok ty sh me (RWait x0 w v old) \<longleftrightarrow> ty \<noteq> 0 \<and> w = mx_word ty False 0 0 \<and> v = mx_word 0 sh 0 0 \<and> me = None \<and> (\<exists>c. mx_old ty sh old c 2)"
  "mx_pc_ok ty sh me (UClear w v) \<longleftrightarrow> ty \<noteq> 0 \<and> w = mx_word ty False 0 0 \<and> v = mx_word 0 sh 0 0 \<and> me = Some (Holding 1)"
  "mx_pc_ok ty sh me (USwap w v) \<longleftrightarrow> ty \<noteq> 0 \<and> w = mx_word ty False 0 0 \<and> v = mx_word 0 sh 0 0 \<and> me = Some Releasing"
  "mx_pc_ok ty sh me RStore \<longleftrightarrow> ty \<noteq> 0 \<and> me = Some Acquiring"
  "mx_pc_ok ty sh me MOut"
  "mx_pc_ok ty sh me (MLock x)"
  "mx_pc_ok ty sh me (MWith x)"
  "mx_pc_ok ty sh me MTry"
  "mx_pc_ok ty sh me UWake"
  by (simp_all add: mx_pc_ok_def)

definition mx_mode_held :: "mutex_mode option \<Rightarrow> nat" where
  "mx_mode_held me = (case me of Some (Holding n) \<Rightarrow> n | Some Releasing \<Rightarrow> 1 | _ \<Rightarrow> 0)"

definition mx_loc :: "nat \<Rightarrow> bool \<Rightarrow> mutex_mode option \<Rightarrow> mutex_thread \<Rightarrow> bool" where
  "mx_loc ty sh me l \<longleftrightarrow> ml_held l = mx_mode_held me \<and> mx_pc_ok ty sh me (ml_pc l) \<and>
     (me = Some Acquiring \<longrightarrow> ml_pc l = RStore) \<and>
     (me = Some Releasing \<longrightarrow> (\<exists>w v. ml_pc l = USwap w v))"

definition mx_L :: "nat \<Rightarrow> bool \<Rightarrow> (tid \<times> mutex_mode) option \<Rightarrow> tid \<Rightarrow> mutex_thread \<Rightarrow> bool" where
  "mx_L ty sh h t l \<longleftrightarrow> mx_loc ty sh (mx_mine h t) l"

lemma mx_mine_simps [simp]:
  "mx_mine None t = None" "mx_mine (Some (t, m)) t = Some m" "u \<noteq> t \<Longrightarrow> mx_mine (Some (u, m)) t = None"
  by (simp_all add: mx_mine_def)

lemma mx_mine_Some: "mx_mine h t = Some m \<longleftrightarrow> h = Some (t, m)"
  by (auto simp: mx_mine_def split: option.splits)

text \<open>What a thread can read from the shared word.\<close>

lemma mx_G_state:
  assumes "mx_G ty sh h g"
  obtains c s where "mx_old ty sh (mx_state g) c s" "s = 0 \<longleftrightarrow> h = None"
    "\<And>t n. h = Some (t, Holding n) \<Longrightarrow> c = n - 1" 
  using assms unfolding mx_G_def
  by (force simp: mx_old_def mx_valid_def split: option.splits prod.splits mutex_mode.splits)

definition mx_next where
  "mx_next ty sh h t g' l' \<longleftrightarrow> (\<exists>h'. mx_G ty sh h' g' \<and> mx_loc ty sh (mx_mine h' t) l' \<and>
     (\<forall>u. u \<noteq> t \<longrightarrow> mx_mine h' u = mx_mine h u))"

lemma mx_nextI:
  "mx_G ty sh h' g' \<Longrightarrow> mx_loc ty sh (mx_mine h' t) l' \<Longrightarrow>
   (h' = h \<or> (h = None \<or> (\<exists>m. h = Some (t, m))) \<and> (h' = None \<or> (\<exists>m. h' = Some (t, m)))) \<Longrightarrow>
   mx_next ty sh h t g' l'"
  unfolding mx_next_def by (intro exI [of _ h']) (auto simp: mx_mine_def)

lemma mx_G_cong: "mx_state g' = mx_state g \<Longrightarrow> mx_owner_tid g' = mx_owner_tid g \<Longrightarrow> mx_G ty sh h g' = mx_G ty sh h g"
  by (simp add: mx_G_def split: option.split prod.split mutex_mode.split)

text \<open>Steps that change neither the word nor the owner, and keep or end the call.\<close>

lemma mx_quiet_step:
  assumes "mx_G ty sh h g" "mx_loc ty sh (mx_mine h t) l"
    and "ml_pc l \<noteq> RStore" "\<And>w v. ml_pc l \<noteq> USwap w v"
    and "mx_state g' = mx_state g" "mx_owner_tid g' = mx_owner_tid g"
    and "ml_held l' = ml_held l" "mx_pc_ok ty sh (mx_mine h t) (ml_pc l')"
  shows "mx_next ty sh h t g' l'"
  using assms by (intro mx_nextI [where h' = h]) (auto simp: mx_G_cong [of g' g] mx_loc_def)

text \<open>A free mutex is taken; the holder gives it back.\<close>

lemma mx_G_free: "mx_G ty sh h g \<Longrightarrow> mx_state g = mx_word ty sh 0 0 \<Longrightarrow> h = None"
  by (erule mx_G_state) (auto simp: mx_old_def mx_word_inject mx_valid_def)

lemma mx_take_normal:
  assumes "mx_G 0 sh h g" "mx_loc 0 sh (mx_mine h t) l" "t \<noteq> 0" "mx_state g = mx_word 0 sh 0 0" "s \<in> {1, 2}"
  shows "mx_next 0 sh h t (g\<lparr>mx_state := mx_word 0 sh 0 s\<rparr>) (mx_locked l)"
proof -
  have h: "h = None" using assms(1,4) by (rule mx_G_free)
  have "mx_G 0 sh (Some (t, Holding 1)) (g\<lparr>mx_state := mx_word 0 sh 0 s\<rparr>)"
    using assms(1,3,5) h by (auto simp: mx_G_def)
  then show ?thesis
    using assms(2) h by (intro mx_nextI [where h' = "Some (t, Holding 1)"])
      (auto simp: mx_loc_def mx_locked_def mx_mode_held_def)
qed

lemma mx_take:
  assumes "mx_G ty sh h g" "mx_loc ty sh (mx_mine h t) l" "t \<noteq> 0" "ty \<noteq> 0" "mx_state g = mx_word ty sh 0 0" "s \<in> {1, 2}"
  shows "mx_next ty sh h t (g\<lparr>mx_state := mx_word ty sh 0 s\<rparr>) (mx_goto l RStore)"
proof -
  have h: "h = None" using assms(1,5) by (rule mx_G_free)
  have "mx_G ty sh (Some (t, Acquiring)) (g\<lparr>mx_state := mx_word ty sh 0 s\<rparr>)"
    using assms(1,3,4,6) h by (auto simp: mx_G_def)
  then show ?thesis
    using assms(2,4) h by (intro mx_nextI [where h' = "Some (t, Acquiring)"])
      (auto simp: mx_loc_def mx_goto_def mx_mode_held_def)
qed

lemma mx_store:
  assumes "mx_G ty sh h g" "mx_loc ty sh (mx_mine h t) l" "ml_pc l = RStore"
  shows "mx_next ty sh h t (g\<lparr>mx_owner_tid := t\<rparr>) (mx_locked l)"
proof -
  have h: "h = Some (t, Acquiring)" "ty \<noteq> 0" using assms(2,3) by (auto simp: mx_loc_def mx_mine_Some)
  then have "mx_G ty sh (Some (t, Holding 1)) (g\<lparr>mx_owner_tid := t\<rparr>)"
    using assms(1) by (auto simp: mx_G_def)
  then show ?thesis
    using assms(2) h by (intro mx_nextI [where h' = "Some (t, Holding 1)"])
      (auto simp: mx_loc_def mx_locked_def mx_mode_held_def)
qed

lemma mx_increment:
  assumes "mx_G ty sh h g" "mx_loc ty sh (mx_mine h t) l" "ml_pc l = RIncrement"
  shows "mx_next ty sh h t (g\<lparr>mx_state := mx_state g + 4\<rparr>) (mx_locked l)"
proof -
  obtain n where h: "h = Some (t, Holding n)" "n < 2048" "ty = 1"
    using assms(2,3) by (auto simp: mx_loc_def mx_mine_Some)
  then have "mx_G ty sh (Some (t, Holding (n + 1))) (g\<lparr>mx_state := mx_state g + 4\<rparr>)"
    using assms(1) by (auto simp: mx_G_def mx_word_add)
  then show ?thesis
    using assms(2) h by (intro mx_nextI [where h' = "Some (t, Holding (n + 1))"])
      (auto simp: mx_loc_def mx_locked_def mx_mode_held_def)
qed

lemma mx_decrement:
  assumes "mx_G ty sh h g" "mx_loc ty sh (mx_mine h t) l" "ml_pc l = UDecrement"
  shows "mx_next ty sh h t (g\<lparr>mx_state := mx_state g - 4\<rparr>) (mx_unlocked l MOut)"
proof -
  obtain n where h: "h = Some (t, Holding n)" "1 < n" "ty = 1"
    using assms(2,3) by (auto simp: mx_loc_def mx_mine_Some)
  then have "mx_G ty sh (Some (t, Holding (n - 1))) (g\<lparr>mx_state := mx_state g - 4\<rparr>)"
    using assms(1) by (auto simp: mx_G_def mx_word_add)
  then show ?thesis
    using assms(2) h by (intro mx_nextI [where h' = "Some (t, Holding (n - 1))"])
      (auto simp: mx_loc_def mx_unlocked_def mx_mode_held_def)
qed

lemma mx_clear:
  assumes "mx_G ty sh h g" "mx_loc ty sh (mx_mine h t) l" "ml_pc l = UClear w v"
  shows "mx_next ty sh h t (g\<lparr>mx_owner_tid := 0\<rparr>) (mx_goto l (USwap w v))"
proof -
  have h: "h = Some (t, Holding 1)" "ty \<noteq> 0"
    using assms(2,3) by (auto simp: mx_loc_def mx_mine_Some)
  then have "mx_G ty sh (Some (t, Releasing)) (g\<lparr>mx_owner_tid := 0\<rparr>)"
    using assms(1) by (auto simp: mx_G_def)
  then show ?thesis
    using assms(2,3) h by (intro mx_nextI [where h' = "Some (t, Releasing)"])
      (auto simp: mx_loc_def mx_goto_def mx_mode_held_def)
qed

lemma mx_release:
  assumes "mx_G ty sh h g" "mx_loc ty sh (mx_mine h t) l" "mx_mode_held (mx_mine h t) = 1"
    and "pc = MOut \<or> pc = UWake" "ty = 0 \<or> mx_mine h t = Some Releasing"
  shows "mx_next ty sh h t (g\<lparr>mx_state := mx_word ty sh 0 0\<rparr>) (mx_unlocked l pc)"
proof -
  obtain m where h: "h = Some (t, m)" using assms(3) by (auto simp: mx_mode_held_def mx_mine_Some split: option.splits mutex_mode.splits)
  have "mx_G ty sh None (g\<lparr>mx_state := mx_word ty sh 0 0\<rparr>)"
    using assms(1,3,5) h by (auto simp: mx_G_def mx_mode_held_def split: mutex_mode.splits)
  then show ?thesis
    using assms(2-4) h by (intro mx_nextI [where h' = None])
      (auto simp: mx_loc_def mx_unlocked_def mx_mode_held_def)
qed

lemma mx_G_flag:
  assumes G: "mx_G ty sh h g" and v: "mx_valid ty c 1" and w: "mx_state g = mx_word ty sh c 1"
  shows "mx_G ty sh h (g\<lparr>mx_state := mx_word ty sh c 2\<rparr>)"
proof -
  have inj: "c = c'" if "mx_state g = mx_word ty sh c' s" "c' < 2048" "s < 3" for c' s
    using that v mx_word_inject [of ty c 1 ty c' s sh sh] w by (simp add: mx_valid_def)
  show ?thesis
  proof (cases h)
    case None
    with G w mx_word_inject [of ty c 1 ty 0 0 sh sh] v show ?thesis by (simp add: mx_G_def mx_valid_def)
  next
    case (Some p)
    obtain u m where p: "p = (u, m)" by (cases p)
    show ?thesis
    proof (cases m)
      case (Holding n)
      obtain s where "s \<in> {1, 2}" "mx_state g = mx_word ty sh (n - 1) s" "n \<le> 2048" "0 < n"
        using G by (auto simp: mx_G_def Some p Holding)
      then have "c = n - 1" using inj [of "n - 1" s] by auto
      with G show ?thesis by (auto simp: mx_G_def Some p Holding)
    qed (use G inj [of 0] in \<open>auto simp: mx_G_def Some p\<close>)
  qed
qed

lemma mx_flip_step:
  assumes "mx_G ty sh h g" "mx_loc ty sh (mx_mine h t) l" "mx_mine h t = None" "mx_valid ty c 1"
    "mx_state g = mx_word ty sh c 1" "ml_pc l \<noteq> RStore" "\<And>w v. ml_pc l \<noteq> USwap w v" "mx_pc_ok ty sh None pc"
  shows "mx_next ty sh h t (g\<lparr>mx_state := mx_word ty sh c 2\<rparr>) (mx_goto l pc)"
proof -
  have "mx_G ty sh h (g\<lparr>mx_state := mx_word ty sh c 2\<rparr>)"
    using assms(1,4,5) by (rule mx_G_flag)
  then show ?thesis
    using assms(2,3,6-8) by (intro mx_nextI [where h' = h]) (auto simp: mx_loc_def mx_goto_def)
qed

section \<open>Every step keeps the invariant\<close>

lemmas mx_outcome_defs = mx_goto_def mx_return_def

lemma mx_word_const:
  "ty < 3 \<Longrightarrow> s < 3 \<Longrightarrow> mx_word ty False 0 0 OR mx_word 0 sh 0 s = mx_word ty sh 0 s"
  "mx_word 0 sh 0 0 OR MUTEX_STATE_BITS_UNLOCKED = mx_word 0 sh 0 0"
  "mx_word 0 sh 0 0 OR MUTEX_STATE_BITS_LOCKED_UNCONTENDED = mx_word 0 sh 0 1"
  "mx_word 0 sh 0 0 OR MUTEX_STATE_BITS_LOCKED_CONTENDED = mx_word 0 sh 0 2"
  using mx_word_or(1) [of ty s sh] mx_word_or(2) [of 0 s sh]
    mx_word_or(2) [of 0 0 sh] mx_word_or(2) [of 0 1 sh] mx_word_or(2) [of 0 2 sh]
  by (simp_all add: mutex_consts)

lemma mx_type_tests:
  assumes "ty < 3"
  shows "mx_word ty False 0 0 = MUTEX_TYPE_BITS_NORMAL \<longleftrightarrow> ty = 0"
    and "mx_word ty False 0 0 = MUTEX_TYPE_BITS_ERRORCHECK \<longleftrightarrow> ty = 2"
  using assms by (auto simp: mutex_consts mx_word_def word_unat_eq_iff unat_word_ariths unat_of_nat)

lemma mx_not_special:
  assumes "mx_valid ty c s"
  shows "mx_word ty sh c s \<noteq> PI_MUTEX_STATE" "mx_word ty sh c s \<noteq> 0xffff"
  using assms unat_mx_word [OF assms, of sh]
  by (auto simp: mutex_consts mx_valid_def split: if_splits)

lemma mx_G_read:
  assumes "mx_G ty sh h g"
  shows "mx_state g AND MUTEX_TYPE_MASK = mx_word ty False 0 0"
    and "mx_state g AND MUTEX_SHARED_MASK = mx_word 0 sh 0 0"
    and "mx_state g \<noteq> PI_MUTEX_STATE" "\<not> IsMutexDestroyed (mx_state g)" "ty < 3"
  using assms
  by (rule mx_G_state, simp add: mx_old_def mutex_consts mx_word_fields mx_not_special [unfolded mutex_consts] IsMutexDestroyed_def mx_valid_def)+

lemma mx_old_read:
  assumes "mx_old ty sh w c s"
  shows "w AND MUTEX_TYPE_MASK = mx_word ty False 0 0"
    and "w AND MUTEX_SHARED_MASK = mx_word 0 sh 0 0" "ty < 3"
  using assms by (simp_all add: mx_old_def mutex_consts mx_word_fields mx_valid_def)

lemma mx_holder_normal:
  assumes "mx_G 0 sh h g" "mx_mine h t \<noteq> Some Releasing" "mx_mode_held (mx_mine h t) \<noteq> 0"
  shows "mx_mine h t = Some (Holding 1)"
proof -
  obtain n where "mx_mine h t = Some (Holding n)"
    using assms(2,3) by (auto simp: mx_mode_held_def split: option.splits mutex_mode.splits)
  moreover from this have "n = 1" using assms(1) by (auto simp: mx_mine_Some mx_G_def)
  ultimately show ?thesis by simp
qed

lemma mx_call_step:
  assumes G: "mx_G ty sh h g" and L: "mx_loc ty sh (mx_mine h t) l" "ml_pc l = MOut"
    and st: "(g', l') \<in> set (mutex_calls t tmos g l)"
  shows "mx_next ty sh h t g' l'"
proof -
  have "mx_state g AND MUTEX_TYPE_MASK = mx_word ty False 0 0" "ty < 3" using mx_G_read [OF G] by simp_all
  then have ty: "mx_state g AND MUTEX_TYPE_MASK = MUTEX_TYPE_BITS_NORMAL \<longleftrightarrow> ty = 0"
    by (simp add: mx_type_tests)
  from st obtain pc where "g' = g" "l' = mx_goto l pc"
    and pc: "pc = MTry \<or> (\<exists>x. pc = MLock x) \<or> pc = MUnlock \<and> \<not> (ty = 0 \<and> ml_held l = 0)"
    by (auto simp: mutex_calls_def ty split: if_splits)
  moreover have "mx_pc_ok ty sh (mx_mine h t) pc"
  proof (cases "pc = MUnlock")
    case True
    moreover have "mx_mine h t \<noteq> Some Releasing" using L by (auto simp: mx_loc_def)
    ultimately show ?thesis
      using pc L G mx_holder_normal [of sh h g t] by (auto simp: mx_loc_def)
  qed (use pc in auto)
  ultimately show ?thesis
    using G L by (intro mx_quiet_step [where l = l and g = g]) (auto simp: mx_goto_def)
qed

lemma mx_G_normal:
  assumes "mx_G 0 sh h g" "mx_state g \<noteq> mx_word 0 sh 0 0"
  shows "\<exists>u. h = Some (u, Holding 1)"
proof (cases h)
  case None
  with assms show ?thesis by (simp add: mx_G_def)
next
  case (Some p)
  obtain u m where "p = (u, m)" by (cases p)
  with Some assms show ?thesis by (cases m) (auto simp: mx_G_def)
qed

lemma NormalMutexTryLock_eq:
  "NormalMutexTryLock (mx_word 0 sh 0 0) g =
     (if mx_state g = mx_word 0 sh 0 0 then (g\<lparr>mx_state := mx_word 0 sh 0 1\<rparr>, 0) else (g, EBUSY))"
  by (simp add: NormalMutexTryLock_def mx_word_const)

lemma NormalMutexLock_inv:
  assumes G: "mx_G ty sh h g" and L: "mx_loc ty sh (mx_mine h t) l" and t: "t \<noteq> 0"
    and st: "(g', l') \<in> set (NormalMutexLock_step fx t g l)"
  shows "mx_next ty sh h t g' l'"
proof (cases "ml_pc l")
  case (NTry tmo w)
  then have w: "w = mx_word 0 sh 0 0" "ty = 0" using L by (simp_all add: mx_loc_def)
  show ?thesis
  proof (cases "mx_state g = mx_word 0 sh 0 0")
    case True
    with st w show ?thesis
      using mx_take_normal [of sh h g t l 1] G L t by (simp add: NormalMutexLock_step_def NTry NormalMutexTryLock_eq)
  next
    case False
    with st w NTry G L show ?thesis
      by (intro mx_quiet_step [where l = l and g = g])
        (auto simp: NormalMutexLock_step_def NormalMutexTryLock_eq mx_outcome_defs split: option.splits if_splits)
  qed
next
  case (NSwap tmo w)
  then have w: "w = mx_word 0 sh 0 0" "ty = 0" using L by (simp_all add: mx_loc_def)
  show ?thesis
  proof (cases "mx_state g = mx_word 0 sh 0 0")
    case True
    with st w show ?thesis
      using mx_take_normal [of sh h g t l 2] G L t by (simp add: NormalMutexLock_step_def NSwap mx_word_const)
  next
    case False
    then obtain u where h: "h = Some (u, Holding 1)" using mx_G_normal G w by blast
    then have "mx_G 0 sh h (g\<lparr>mx_state := mx_word 0 sh 0 2\<rparr>)" using G w by (auto simp: mx_G_def)
    with False st w L NSwap show ?thesis
      by (intro mx_nextI [where h' = h]) (auto simp: NormalMutexLock_step_def mx_word_const mx_loc_def mx_goto_def)
  qed
next
  case (NWait tmo w)
  with st G L show ?thesis
    by (intro mx_quiet_step [where l = l and g = g]) (auto simp: NormalMutexLock_step_def mx_loc_def mx_outcome_defs split: option.splits if_splits)
next
  case (NSleep tmo w)
  with st G L show ?thesis
    by (intro mx_quiet_step [where l = l and g = g]) (auto simp: NormalMutexLock_step_def mx_loc_def mx_outcome_defs split: option.splits if_splits)
qed (use st in \<open>simp_all add: NormalMutexLock_step_def\<close>)

lemma mx_not_RStore_USwap:
  "mx_loc ty sh me l \<Longrightarrow> me \<noteq> Some Acquiring \<Longrightarrow> ml_pc l \<noteq> RStore"
  "mx_loc ty sh me l \<Longrightarrow> me \<noteq> Some Releasing \<Longrightarrow> ml_pc l \<noteq> USwap w v"
  by (auto simp: mx_loc_def)

text \<open>The thread that finds its own identifier in the owner field holds the mutex.\<close>

lemma mx_owner_holds:
  assumes G: "mx_G ty sh h g" and t: "t \<noteq> 0" and ty: "ty \<noteq> 0"
  shows "t = mx_owner_tid g \<longleftrightarrow> (\<exists>n. mx_mine h t = Some (Holding n))"
proof (cases h)
  case None
  with G t show ?thesis by (simp add: mx_G_def)
next
  case (Some p)
  obtain u m where p: "p = (u, m)" by (cases p)
  show ?thesis using G t ty by (cases m) (auto simp: mx_G_def Some p mx_mine_def)
qed

lemma mx_not_mine:
  assumes L: "mx_loc ty sh me l" and pc: "ml_pc l \<noteq> RStore" "\<And>w v. ml_pc l \<noteq> USwap w v"
    and n: "\<nexists>n. me = Some (Holding n)"
  shows "me = None"
proof (cases me)
  case (Some m)
  with assms show ?thesis by (cases m) (auto simp: mx_loc_def)
qed simp

lemma mx_increment_call:
  assumes G: "mx_G ty sh h g" and L: "mx_loc ty sh (mx_mine h t) l"
    and me: "mx_mine h t = Some (Holding n)" and old: "mx_old ty sh w (n - 1) s" and ty: "ty = 1"
    and pc: "ml_pc l \<noteq> RStore" "\<And>w v. ml_pc l \<noteq> USwap w v"
    and st: "(g', l') \<in> set (RecursiveIncrement w g l)"
  shows "mx_next ty sh h t g' l'"
proof -
  have n: "0 < n" "n \<le> 2048" using G me by (auto simp: mx_G_def mx_mine_Some)
  have "MUTEX_COUNTER_BITS_WILL_OVERFLOW w \<longleftrightarrow> n - 1 = 2047"
    using old by (simp add: mx_old_def mx_state_tests)
  then have "g' = g \<and> ml_held l' = ml_held l \<and> (ml_pc l' = MOut \<or> ml_pc l' = RIncrement \<and> n < 2048)"
    using st n by (auto simp: RecursiveIncrement_def mx_outcome_defs split: if_splits)
  then show ?thesis
    using G L me ty pc by (intro mx_quiet_step [where l = l and g = g]) auto
qed

lemma mx_errorcheck_type:
  "mx_old ty sh w c s \<Longrightarrow> w AND MUTEX_TYPE_MASK = MUTEX_TYPE_BITS_ERRORCHECK \<longleftrightarrow> ty = 2"
  using mx_old_read [of ty sh w c s] by (simp add: mx_type_tests)

lemma mx_old_unlocked:
  assumes "mx_old ty sh w c s"
  shows "w = mx_word ty sh 0 0 \<longleftrightarrow> s = 0"
  using assms mx_word_inject [of ty c s ty 0 0 sh sh] by (auto simp: mx_old_def mx_valid_def)

lemma ROwner_inv:
  assumes G: "mx_G ty sh h g" and L: "mx_loc ty sh (mx_mine h t) l" and t: "t \<noteq> 0"
    and pc: "ml_pc l = ROwner tmo w" and st: "(g', l') \<in> set (MutexLockWithTimeout_step fx t g l)"
  shows "mx_next ty sh h t g' l'"
proof -
  obtain c s where ty: "ty \<noteq> 0" and old: "mx_old ty sh w c s"
    and c: "\<And>n. mx_mine h t = Some (Holding n) \<Longrightarrow> c = n - 1"
    using L pc by (auto simp: mx_loc_def)
  note rd = mx_old_read [OF old]
  show ?thesis
  proof (cases "t = mx_owner_tid g")
    case True
    then obtain n where me: "mx_mine h t = Some (Holding n)" using mx_owner_holds [OF G t ty] by blast
    show ?thesis
    proof (cases "ty = 2")
      case True
      with \<open>t = mx_owner_tid g\<close> st pc have "g' = g" "l' = mx_return l EDEADLK"
        by (simp_all add: MutexLockWithTimeout_step_def Let_def mx_errorcheck_type [OF old])
      then show ?thesis using G L pc
        by (intro mx_quiet_step [where l = l and g = g]) (auto simp: mx_return_def)
    next
      case False
      with \<open>t = mx_owner_tid g\<close> st pc have "(g', l') \<in> set (RecursiveIncrement w g l)"
        by (simp add: MutexLockWithTimeout_step_def Let_def mx_errorcheck_type [OF old])
      moreover have "ty = 1" using False ty rd(3) by simp
      ultimately show ?thesis
        using mx_increment_call [OF G L me, of w s] old c [OF me] pc by simp
    qed
  next
    case False
    then have me: "mx_mine h t = None"
      using mx_owner_holds [OF G t ty] mx_not_mine [OF L] pc by auto
    have "g' = g" "l' = mx_goto l (if s = 0 then RCas tmo (mx_word ty False 0 0) (mx_word 0 sh 0 0)
        else RLoop tmo (mx_word ty False 0 0) (mx_word 0 sh 0 0) w)"
      using False st pc by (simp_all add: MutexLockWithTimeout_step_def Let_def rd mx_word_const mx_old_unlocked [OF old])
    then show ?thesis using G L pc ty me old
      by (intro mx_quiet_step [where l = l and g = g]) (auto simp: mx_goto_def)
  qed
qed

lemma RLoop_inv:
  assumes G: "mx_G ty sh h g" and L: "mx_loc ty sh (mx_mine h t) l" and t: "t \<noteq> 0"
    and pc: "ml_pc l = RLoop tmo mt sd w" and st: "(g', l') \<in> set (MutexLockWithTimeout_step fx t g l)"
  shows "mx_next ty sh h t g' l'"
proof -
  obtain c s where ty: "ty \<noteq> 0" and old: "mx_old ty sh w c s" and me: "mx_mine h t = None"
    and w: "mt = mx_word ty False 0 0" "sd = mx_word 0 sh 0 0"
    using L pc by (auto simp: mx_loc_def)
  note rd = mx_old_read [OF old]
  have v: "mx_valid ty c s" "w = mx_word ty sh c s" using old by (simp_all add: mx_old_def)
  obtain c' s' where cur: "mx_old ty sh (mx_state g) c' s'" using G by (rule mx_G_state)
  have again: ?thesis if "g' = g" "l' = mx_goto l (RLoop tmo mt sd (mx_state g))"
    using that G L pc ty me w cur by (intro mx_quiet_step [where l = l and g = g]) (auto simp: mx_goto_def)
  have "s < 3" using v by (simp add: mx_valid_def)
  then consider "s = 0" | "s = 1" | "s = 2" by linarith
  then show ?thesis
  proof cases
    case 1
    then have w0: "w = mx_word ty sh 0 0" using mx_old_unlocked [OF old] by simp
    with st pc w rd(3) have "mx_state g = mx_word ty sh 0 0 \<and> g' = g\<lparr>mx_state := mx_word ty sh 0 2\<rparr> \<and> l' = mx_goto l RStore \<or>
        g' = g \<and> l' = mx_goto l (RLoop tmo mt sd (mx_state g))"
      by (auto simp: MutexLockWithTimeout_step_def mx_word_const split: if_splits)
    then show ?thesis using again mx_take [OF G L t ty, of 2] by auto
  next
    case 2
    then have nu: "w \<noteq> mx_word ty sh 0 0" using mx_old_unlocked [OF old] by simp
    have lu: "MUTEX_STATE_BITS_IS_LOCKED_UNCONTENDED w" using v 2 by (simp add: mx_state_tests)
    have fl: "MUTEX_STATE_BITS_FLIP_CONTENTION w = mx_word ty sh c 2" using v 2 mx_word_flip by simp
    from st pc w rd(3) nu have "mx_state g = w \<and> g' = g\<lparr>mx_state := mx_word ty sh c 2\<rparr> \<and>
          l' = mx_goto l (RWait tmo mt sd (mx_word ty sh c 2)) \<or>
        g' = g \<and> l' = mx_goto l (RLoop tmo mt sd (mx_state g))"
      by (auto simp: MutexLockWithTimeout_step_def mx_word_const lu fl split: if_splits)
    moreover have "mx_pc_ok ty sh None (RWait tmo mt sd (mx_word ty sh c 2))"
      using v ty w by (auto simp: mx_old_def mx_valid_def)
    ultimately show ?thesis
      using again mx_flip_step [OF G L me, of c "RWait tmo mt sd (mx_word ty sh c 2)"] v 2 pc by auto
  next
    case 3
    then have "w \<noteq> mx_word ty sh 0 0" "\<not> MUTEX_STATE_BITS_IS_LOCKED_UNCONTENDED w"
      using mx_old_unlocked [OF old] v by (simp_all add: mx_state_tests)
    with st pc w rd(3) have "g' = g" "l' = mx_goto l (RWait tmo mt sd w)"
      by (simp_all add: MutexLockWithTimeout_step_def mx_word_const)
    then show ?thesis using G L pc ty me w old 3
      by (intro mx_quiet_step [where l = l and g = g]) (auto simp: mx_goto_def)
  qed
qed

lemma MutexLockWithTimeout_inv:
  assumes G: "mx_G ty sh h g" and L: "mx_loc ty sh (mx_mine h t) l" and t: "t \<noteq> 0"
    and st: "(g', l') \<in> set (MutexLockWithTimeout_step fx t g l)"
  shows "mx_next ty sh h t g' l'"
proof (cases "ml_pc l")
  case (MWith tmo)
  note rd = mx_G_read [OF G]
  obtain c s where cur: "mx_old ty sh (mx_state g) c s" "\<And>t n. h = Some (t, Holding n) \<Longrightarrow> c = n - 1"
    using G by (rule mx_G_state) blast
  have "g' = g" "l' = mx_goto l (if ty = 0 then NTry tmo (mx_word 0 sh 0 0) else ROwner tmo (mx_state g))"
    using st MWith by (simp_all add: MutexLockWithTimeout_step_def Let_def rd mx_type_tests)
  then show ?thesis using G L MWith cur
    by (intro mx_quiet_step [where l = l and g = g]) (auto simp: mx_goto_def mx_mine_Some)
next
  case (ROwner tmo w)
  then show ?thesis using ROwner_inv G L t st by blast
next
  case RIncrement
  with st mx_increment [OF G L] show ?thesis
    by (simp add: MutexLockWithTimeout_step_def RecursiveIncrement_add_def mutex_consts)
next
  case (RCas tmo mt sd)
  then have w: "mt = mx_word ty False 0 0" "sd = mx_word 0 sh 0 0" "ty \<noteq> 0" "mx_mine h t = None"
    using L by (simp_all add: mx_loc_def)
  obtain c s where cur: "mx_old ty sh (mx_state g) c s" using G by (rule mx_G_state)
  have ty: "ty < 3" using G by (rule mx_G_read)
  show ?thesis
  proof (cases "mx_state g = mx_word ty sh 0 0")
    case True
    with st RCas w ty show ?thesis
      using mx_take [OF G L t, of 1] by (simp add: MutexLockWithTimeout_step_def mx_word_const)
  next
    case False
    with st RCas w ty have "g' = g" "l' = mx_goto l (RLoop tmo mt sd (mx_state g))"
      by (simp_all add: MutexLockWithTimeout_step_def mx_word_const)
    then show ?thesis using G L RCas w cur
      by (intro mx_quiet_step [where l = l and g = g]) (auto simp: mx_goto_def)
  qed
next
  case RStore
  with st mx_store [OF G L] show ?thesis by (simp add: MutexLockWithTimeout_step_def)
next
  case (RLoop tmo mt sd w)
  then show ?thesis using RLoop_inv G L t st by blast
next
  case (RWait tmo mt sd w)
  with st G L show ?thesis
    by (intro mx_quiet_step [where l = l and g = g])
      (auto simp: MutexLockWithTimeout_step_def mx_loc_def mx_outcome_defs split: option.splits if_splits)
next
  case (RSleep tmo mt sd)
  with st G L show ?thesis
    by (intro mx_quiet_step [where l = l and g = g])
      (auto simp: MutexLockWithTimeout_step_def mx_loc_def mx_outcome_defs split: option.splits if_splits)
next
  case (RLoad tmo mt sd)
  obtain c s where cur: "mx_old ty sh (mx_state g) c s" using G by (rule mx_G_state)
  have "g' = g" "l' = mx_goto l (RLoop tmo mt sd (mx_state g))"
    using st RLoad by (simp_all add: MutexLockWithTimeout_step_def)
  then show ?thesis using G L RLoad cur
    by (intro mx_quiet_step [where l = l and g = g]) (auto simp: mx_goto_def mx_loc_def)
qed (use st NormalMutexLock_inv [OF G L t] in \<open>simp_all add: MutexLockWithTimeout_step_def\<close>)

lemma pthread_mutex_lock_inv:
  assumes G: "mx_G ty sh h g" and L: "mx_loc ty sh (mx_mine h t) l" and t: "t \<noteq> 0"
    and st: "(g', l') \<in> set (pthread_mutex_lock_step e t g l)"
  shows "mx_next ty sh h t g' l'"
proof (cases "ml_pc l")
  case (MLock tmo)
  note rd = mx_G_read [OF G]
  have "g' = g" "l' = mx_goto l (if ty = 0 then MFast tmo (mx_word 0 sh 0 0) else MWith tmo)"
    using st MLock by (cases "ty = 0"; simp add: pthread_mutex_lock_step_def Let_def rd mx_type_tests)+
  then show ?thesis using G L MLock
    by (intro mx_quiet_step [where l = l and g = g]) (auto simp: mx_goto_def)
next
  case (MFast tmo w)
  then have w: "w = mx_word 0 sh 0 0" "ty = 0" using L by (simp_all add: mx_loc_def)
  show ?thesis
  proof (cases "mx_state g = mx_word 0 sh 0 0")
    case True
    with st w show ?thesis
      using mx_take_normal [of sh h g t l 1] G L t
      by (simp add: pthread_mutex_lock_step_def MFast NormalMutexTryLock_eq)
  next
    case False
    with st w MFast G L show ?thesis
      by (intro mx_quiet_step [where l = l and g = g])
        (auto simp: pthread_mutex_lock_step_def NormalMutexTryLock_eq mx_outcome_defs)
  qed
qed (use st MutexLockWithTimeout_inv [OF G L t] in \<open>simp_all add: pthread_mutex_lock_step_def\<close>)

lemma TOwner_inv:
  assumes G: "mx_G ty sh h g" and L: "mx_loc ty sh (mx_mine h t) l" and t: "t \<noteq> 0"
    and pc: "ml_pc l = TOwner w" and st: "(g', l') \<in> set (pthread_mutex_trylock_step e t g l)"
  shows "mx_next ty sh h t g' l'"
proof -
  obtain c s where ty: "ty \<noteq> 0" and old: "mx_old ty sh w c s"
    and c: "\<And>n. mx_mine h t = Some (Holding n) \<Longrightarrow> c = n - 1"
    using L pc by (auto simp: mx_loc_def)
  note rd = mx_old_read [OF old]
  show ?thesis
  proof (cases "t = mx_owner_tid g")
    case own: True
    then obtain n where me: "mx_mine h t = Some (Holding n)" using mx_owner_holds [OF G t ty] by blast
    show ?thesis
    proof (cases "ty = 2")
      case True
      with own st pc have "g' = g" "l' = mx_return l EBUSY"
        by (simp_all add: pthread_mutex_trylock_step_def Let_def mx_errorcheck_type [OF old])
      then show ?thesis using G L pc
        by (intro mx_quiet_step [where l = l and g = g]) (auto simp: mx_return_def)
    next
      case False
      with own st pc have "(g', l') \<in> set (RecursiveIncrement w g l)"
        by (simp add: pthread_mutex_trylock_step_def Let_def mx_errorcheck_type [OF old])
      moreover have "ty = 1" using False ty rd(3) by simp
      ultimately show ?thesis
        using mx_increment_call [OF G L me, of w s] old c [OF me] pc by simp
    qed
  next
    case False
    then have me: "mx_mine h t = None"
      using mx_owner_holds [OF G t ty] mx_not_mine [OF L] pc by auto
    have "g' = g" "l' = mx_goto l (TCas (mx_word ty False 0 0) (mx_word 0 sh 0 0))"
      using False st pc by (simp_all add: pthread_mutex_trylock_step_def Let_def rd)
    then show ?thesis using G L pc ty me
      by (intro mx_quiet_step [where l = l and g = g]) (auto simp: mx_goto_def)
  qed
qed

lemma pthread_mutex_trylock_inv:
  assumes G: "mx_G ty sh h g" and L: "mx_loc ty sh (mx_mine h t) l" and t: "t \<noteq> 0"
    and st: "(g', l') \<in> set (pthread_mutex_trylock_step e t g l)"
  shows "mx_next ty sh h t g' l'"
proof (cases "ml_pc l")
  case MTry
  note rd = mx_G_read [OF G]
  obtain c s where cur: "mx_old ty sh (mx_state g) c s" "\<And>t n. h = Some (t, Holding n) \<Longrightarrow> c = n - 1"
    using G by (rule mx_G_state) blast
  have "g' = g" "l' = mx_goto l (if ty = 0 then TNormal (mx_word 0 sh 0 0) else TOwner (mx_state g))"
    using st MTry by (cases "ty = 0"; simp add: pthread_mutex_trylock_step_def Let_def rd mx_type_tests)+
  then show ?thesis using G L MTry cur
    by (intro mx_quiet_step [where l = l and g = g]) (auto simp: mx_goto_def mx_mine_Some)
next
  case (TNormal w)
  then have w: "w = mx_word 0 sh 0 0" "ty = 0" using L by (simp_all add: mx_loc_def)
  show ?thesis
  proof (cases "mx_state g = mx_word 0 sh 0 0")
    case True
    with st w show ?thesis
      using mx_take_normal [of sh h g t l 1] G L t
      by (simp add: pthread_mutex_trylock_step_def TNormal NormalMutexTryLock_eq)
  next
    case False
    with st w TNormal G L show ?thesis
      by (intro mx_quiet_step [where l = l and g = g])
        (auto simp: pthread_mutex_trylock_step_def NormalMutexTryLock_eq mx_outcome_defs)
  qed
next
  case (TOwner w)
  then show ?thesis using TOwner_inv G L t st by blast
next
  case (TCas mt sd)
  then have w: "mt = mx_word ty False 0 0" "sd = mx_word 0 sh 0 0" "ty \<noteq> 0"
    using L by (simp_all add: mx_loc_def)
  have ty: "ty < 3" using G by (rule mx_G_read)
  show ?thesis
  proof (cases "mx_state g = mx_word ty sh 0 0")
    case True
    with st TCas w ty show ?thesis
      using mx_take [OF G L t, of 1] by (simp add: pthread_mutex_trylock_step_def mx_word_const)
  next
    case False
    with st TCas w ty G L show ?thesis
      by (intro mx_quiet_step [where l = l and g = g])
        (auto simp: pthread_mutex_trylock_step_def mx_word_const mx_outcome_defs)
  qed
qed (use st in \<open>simp_all add: pthread_mutex_trylock_step_def\<close>)

lemma UOwner_inv:
  assumes G: "mx_G ty sh h g" and L: "mx_loc ty sh (mx_mine h t) l" and t: "t \<noteq> 0"
    and pc: "ml_pc l = UOwner w" and st: "(g', l') \<in> set (pthread_mutex_unlock_step e t g l)"
  shows "mx_next ty sh h t g' l'"
proof -
  obtain c s where ty: "ty \<noteq> 0" and old: "mx_old ty sh w c s"
    and c: "\<And>n. mx_mine h t = Some (Holding n) \<Longrightarrow> c = n - 1"
    using L pc by (auto simp: mx_loc_def)
  note rd = mx_old_read [OF old]
  show ?thesis
  proof (cases "t = mx_owner_tid g")
    case own: True
    then obtain n where me: "mx_mine h t = Some (Holding n)" using mx_owner_holds [OF G t ty] by blast
    have n: "0 < n" "ty \<noteq> 1 \<longrightarrow> n = 1" using G me by (auto simp: mx_G_def mx_mine_Some)
    have "MUTEX_COUNTER_BITS_IS_ZERO w \<longleftrightarrow> n = 1"
      using old c [OF me] n(1) by (auto simp: mx_old_def mx_state_tests)
    then have "g' = g" "l' = mx_goto l (if n \<noteq> 1 then UDecrement
        else UClear (mx_word ty False 0 0) (mx_word 0 sh 0 0))"
      using own st pc by (simp_all add: pthread_mutex_unlock_step_def rd)
    then show ?thesis using G L pc me n ty
      by (intro mx_quiet_step [where l = l and g = g]) (auto simp: mx_goto_def)
  next
    case False
    then have "g' = g" "l' = mx_return l EPERM"
      using st pc by (simp_all add: pthread_mutex_unlock_step_def)
    then show ?thesis using G L pc
      by (intro mx_quiet_step [where l = l and g = g]) (auto simp: mx_return_def)
  qed
qed

lemma pthread_mutex_unlock_inv:
  assumes G: "mx_G ty sh h g" and L: "mx_loc ty sh (mx_mine h t) l" and t: "t \<noteq> 0"
    and st: "(g', l') \<in> set (pthread_mutex_unlock_step e t g l)"
  shows "mx_next ty sh h t g' l'"
proof (cases "ml_pc l")
  case MUnlock
  note rd = mx_G_read [OF G]
  obtain c s where cur: "mx_old ty sh (mx_state g) c s" "\<And>t n. h = Some (t, Holding n) \<Longrightarrow> c = n - 1"
    using G by (rule mx_G_state) blast
  have "g' = g" "l' = mx_goto l (if ty = 0 then UNormal (mx_word 0 sh 0 0) else UOwner (mx_state g))"
    using st MUnlock by (cases "ty = 0"; simp add: pthread_mutex_unlock_step_def Let_def rd mx_type_tests)+
  then show ?thesis using G L MUnlock cur
    by (intro mx_quiet_step [where l = l and g = g]) (auto simp: mx_goto_def mx_mine_Some mx_loc_def)
next
  case (UNormal w)
  then have w: "w = mx_word 0 sh 0 0" "ty = 0" "mx_mine h t = Some (Holding 1)"
    using L by (simp_all add: mx_loc_def)
  define pc where "pc = (if mx_state g = mx_word 0 sh 0 2 then UWake else MOut)"
  have "pc = MOut \<or> pc = UWake" "g' = g\<lparr>mx_state := mx_word 0 sh 0 0\<rparr>" "l' = mx_unlocked l pc"
    using st UNormal w by (auto simp: pthread_mutex_unlock_step_def mx_word_const pc_def)
  with w show ?thesis using mx_release [OF G L, of pc] by (simp add: mx_mode_held_def)
next
  case UWake
  with st G L show ?thesis
    by (intro mx_quiet_step [where l = l and g = g])
      (auto simp: pthread_mutex_unlock_step_def mx_outcome_defs)
next
  case (UOwner w)
  then show ?thesis using UOwner_inv G L t st by blast
next
  case UDecrement
  with st mx_decrement [OF G L] show ?thesis
    by (simp add: pthread_mutex_unlock_step_def mutex_consts)
next
  case (UClear mt sd)
  with st mx_clear [OF G L] show ?thesis by (simp add: pthread_mutex_unlock_step_def)
next
  case (USwap mt sd)
  then have w: "mt = mx_word ty False 0 0" "sd = mx_word 0 sh 0 0" "mx_mine h t = Some Releasing"
    using L by (simp_all add: mx_loc_def)
  have ty: "ty < 3" using G by (rule mx_G_read)
  define pc where "pc = (if MUTEX_STATE_BITS_IS_LOCKED_CONTENDED (mx_state g) then UWake else MOut)"
  have "pc = MOut \<or> pc = UWake" "g' = g\<lparr>mx_state := mx_word ty sh 0 0\<rparr>" "l' = mx_unlocked l pc"
    using st USwap w ty by (auto simp: pthread_mutex_unlock_step_def mx_word_const pc_def)
  with w show ?thesis using mx_release [OF G L, of pc] by (simp add: mx_mode_held_def)
qed (use st in \<open>simp_all add: pthread_mutex_unlock_step_def\<close>)

lemma mutex_step_ghost:
  assumes "mx_G ty sh h g" "mx_L ty sh h t l" "(g', l') \<in> set (mutex_step e tmos t g l)"
  shows "\<exists>h'. mx_G ty sh h' g' \<and> mx_L ty sh h' t l' \<and>
    (\<forall>u m. u \<noteq> t \<longrightarrow> mx_L ty sh h u m \<longrightarrow> mx_L ty sh h' u m)"
proof -
  have t: "t \<noteq> 0" using assms(3) by (auto simp: mutex_step_def)
  note L = assms(2) [unfolded mx_L_def]
  have "mx_next ty sh h t g' l'"
    using assms(3) t mx_call_step [OF assms(1) L] pthread_mutex_lock_inv [OF assms(1) L t]
      pthread_mutex_trylock_inv [OF assms(1) L t] pthread_mutex_unlock_inv [OF assms(1) L t]
    by (auto simp: mutex_step_def split: if_splits)
  then show ?thesis by (auto simp: mx_next_def mx_L_def)
qed

interpretation mutex: par_ghost "mutex_step e tmos" "mx_G ty sh" "mx_L ty sh" for e tmos ty sh
  by unfold_locales (rule mutex_step_ghost)

section \<open>No lost wake-ups\<close>

fun mx_at_sleep :: "mutex_pc \<Rightarrow> bool" where
  "mx_at_sleep (NSleep _ _) = True"
| "mx_at_sleep (RSleep _ _ _) = True"
| "mx_at_sleep _ = False"

text \<open>Threads that are about to wake somebody or to look at the state word again.\<close>

fun mx_duty :: "mutex_pc \<Rightarrow> bool" where
  "mx_duty (NSwap _ _) = True"
| "mx_duty (RLoad _ _ _) = True"
| "mx_duty (RLoop _ _ _ old) = (\<not> MUTEX_STATE_BITS_IS_LOCKED_CONTENDED old)"
| "mx_duty UWake = True"
| "mx_duty _ = False"

abbreviation mx_flagged :: "'k pthread_mutex \<Rightarrow> bool" where
  "mx_flagged g \<equiv> MUTEX_STATE_BITS_IS_LOCKED_CONTENDED (mx_state g)"

definition mx_known :: "'k pthread_mutex \<Rightarrow> tid \<Rightarrow> mutex_thread \<Rightarrow> bool" where
  "mx_known g t l \<longleftrightarrow> (\<exists>ty sh h. mx_G ty sh h g \<and> mx_L ty sh h t l)"

definition mx_kind where
  "mx_kind fx t g l g' l' \<longleftrightarrow>
     futex_quiet mx_futex (mx_at_sleep \<circ> ml_pc) (mx_duty \<circ> ml_pc) mx_flagged g l g' l' \<or>
     futex_waits fx mx_futex (mx_at_sleep \<circ> ml_pc) (mx_duty \<circ> ml_pc) mx_flagged t g l g' l' \<or>
     futex_leaves fx mx_futex (mx_at_sleep \<circ> ml_pc) (mx_duty \<circ> ml_pc) mx_flagged t g l g' l' \<or>
     futex_wakes fx mx_futex (mx_at_sleep \<circ> ml_pc) g l g' l'"

lemma mx_kind_quiet:
  "mx_futex g' = mx_futex g \<Longrightarrow> \<not> mx_at_sleep (ml_pc l) \<Longrightarrow> \<not> mx_at_sleep (ml_pc l') \<Longrightarrow>
   (mx_flagged g \<or> mx_duty (ml_pc l) \<longrightarrow> mx_flagged g' \<or> mx_duty (ml_pc l')) \<Longrightarrow> mx_kind fx t g l g' l'"
  unfolding mx_kind_def futex_quiet_def by simp

lemma mx_kind_same:
  "mx_futex g' = mx_futex g \<Longrightarrow> mx_state g' = mx_state g \<Longrightarrow> \<not> mx_at_sleep (ml_pc l) \<Longrightarrow>
   \<not> mx_at_sleep (ml_pc l') \<Longrightarrow> (mx_duty (ml_pc l) \<Longrightarrow> mx_flagged g \<or> mx_duty (ml_pc l')) \<Longrightarrow>
   mx_kind fx t g l g' l'"
  by (rule mx_kind_quiet) auto

lemma mx_flagged_word [simp]:
  "mx_state g = mx_word ty sh c s \<Longrightarrow> mx_valid ty c s \<Longrightarrow> mx_flagged g \<longleftrightarrow> s = 2"
  by (simp add: mx_state_tests)

lemma mx_kind_wait:
  assumes "(k, r) \<in> set (fx_wait fx t (ucast (mx_state g)) (ucast w) (mx_futex g))"
    and "MUTEX_STATE_BITS_IS_LOCKED_CONTENDED w" "g' = g\<lparr>mx_futex := k\<rparr>"
    and "\<not> mx_at_sleep (ml_pc l)" "\<not> mx_duty (ml_pc l)" "mx_at_sleep (ml_pc l') = (r = None)"
  shows "mx_kind fx t g l g' l'"
proof -
  have "mx_flagged g" if "(ucast (mx_state g) :: u32) = ucast w"
  proof -
    have "unat (ucast (mx_state g) :: u32) = unat (mx_state g)" "unat (ucast w :: u32) = unat w"
      by (simp_all add: unat_ucast_mod order.strict_trans [OF unat_less_exp(2)])
    with that have "mx_state g = w" by (simp add: word_unat_eq_iff)
    with assms(2) show ?thesis by simp
  qed
  with assms have "futex_waits fx mx_futex (mx_at_sleep \<circ> ml_pc) (mx_duty \<circ> ml_pc) mx_flagged t g l g' l'"
    by (intro futex_waitsI [where r = r and v = "ucast (mx_state g)" and e = "ucast w"]) simp_all
  then show ?thesis by (simp add: mx_kind_def)
qed

lemma mx_kind_leave:
  assumes "(k, r) \<in> set (fx_leave fx t (mx_futex g))" "g' = g\<lparr>mx_futex := k\<rparr>"
    and "mx_at_sleep (ml_pc l)" "\<not> mx_duty (ml_pc l)" "\<not> mx_at_sleep (ml_pc l')"
    and "mx_duty (ml_pc l') \<or> r = - ETIMEDOUT"
  shows "mx_kind fx t g l g' l'"
proof -
  from assms have "futex_leaves fx mx_futex (mx_at_sleep \<circ> ml_pc) (mx_duty \<circ> ml_pc) mx_flagged t g l g' l'"
    by (intro futex_leavesI [where r = r]) simp_all
  then show ?thesis by (simp add: mx_kind_def)
qed

lemma NormalMutexLock_kind:
  assumes G: "mx_G ty sh h g" and L: "mx_loc ty sh (mx_mine h t) l"
    and st: "(g', l') \<in> set (NormalMutexLock_step fx t g l)"
  shows "mx_kind fx t g l g' l'"
proof (cases "ml_pc l")
  case (NTry tmo w)
  then have w: "w = mx_word 0 sh 0 0" "ty = 0" using L by (simp_all add: mx_loc_def)
  show ?thesis
  proof (cases "mx_state g = mx_word 0 sh 0 0")
    case True
    with st w NTry show ?thesis
      by (intro mx_kind_quiet)
        (simp_all add: NormalMutexLock_step_def NormalMutexTryLock_eq mx_locked_def mx_valid_def mx_state_tests)
  next
    case False
    with st w NTry show ?thesis
      by (intro mx_kind_same)
        (auto simp: NormalMutexLock_step_def NormalMutexTryLock_eq mx_outcome_defs split: option.splits if_splits)
  qed
next
  case (NSwap tmo w)
  then have w: "w = mx_word 0 sh 0 0" "ty = 0" using L by (simp_all add: mx_loc_def)
  with st NSwap show ?thesis
    by (intro mx_kind_quiet) (auto simp: NormalMutexLock_step_def mx_word_const mx_state_tests
        mx_valid_def mx_goto_def mx_locked_def)
next
  case (NWait tmo w)
  then have w: "w = mx_word 0 sh 0 0" using L by (simp add: mx_loc_def)
  obtain k r where kr: "(k, r) \<in> set (fx_wait fx t (ucast (mx_state g)) (ucast (mx_word 0 sh 0 2)) (mx_futex g))"
    "g' = g\<lparr>mx_futex := k\<rparr>"
    and l': "l' = (case r of None \<Rightarrow> mx_goto l (NSleep tmo w)
       | Some r \<Rightarrow> if r = - ETIMEDOUT then mx_return l ETIMEDOUT else mx_goto l (NSwap tmo w))"
    using st w by (auto simp: NormalMutexLock_step_def NWait mx_word_const)
  show ?thesis
    by (rule mx_kind_wait [OF kr(1) _ kr(2)])
      (simp_all add: mx_state_tests mx_valid_def NWait l' mx_outcome_defs split: option.splits)
next
  case (NSleep tmo w)
  obtain k r where kr: "(k, r) \<in> set (fx_leave fx t (mx_futex g))" "g' = g\<lparr>mx_futex := k\<rparr>"
    and l': "l' = (if r = - ETIMEDOUT then mx_return l ETIMEDOUT else mx_goto l (NSwap tmo w))"
    using st by (auto simp: NormalMutexLock_step_def NSleep)
  show ?thesis
    by (rule mx_kind_leave [OF kr]) (simp_all add: NSleep l' mx_outcome_defs)
qed (use st in \<open>simp_all add: NormalMutexLock_step_def\<close>)

lemma RecursiveIncrement_kind:
  assumes "(g', l') \<in> set (RecursiveIncrement w g l)" "\<not> mx_duty (ml_pc l)" "\<not> mx_at_sleep (ml_pc l)"
  shows "mx_kind fx t g l g' l'"
  using assms by (intro mx_kind_same) (auto simp: RecursiveIncrement_def mx_outcome_defs split: if_splits)

lemma RLoop_kind:
  assumes G: "mx_G ty sh h g" and L: "mx_loc ty sh (mx_mine h t) l"
    and pc: "ml_pc l = RLoop tmo mt sd w" and st: "(g', l') \<in> set (MutexLockWithTimeout_step fx t g l)"
  shows "mx_kind fx t g l g' l'"
proof -
  obtain c s where old: "mx_old ty sh w c s"
    and w: "mt = mx_word ty False 0 0" "sd = mx_word 0 sh 0 0" using L pc by (auto simp: mx_loc_def)
  have ty: "ty < 3" and v: "mx_valid ty c s" "w = mx_word ty sh c s" using old by (simp_all add: mx_old_def mx_valid_def)
  have again: ?thesis if "g' = g" "l' = mx_goto l (RLoop tmo mt sd (mx_state g))"
    using that pc by (intro mx_kind_same) (auto simp: mx_goto_def)
  have "s < 3" using v by (simp add: mx_valid_def)
  then consider "s = 0" | "s = 1" | "s = 2" by linarith
  then show ?thesis
  proof cases
    case 1
    then have w0: "w = mx_word ty sh 0 0" using mx_old_unlocked [OF old] by simp
    with st pc w ty have "g' = g\<lparr>mx_state := mx_word ty sh 0 2\<rparr> \<and> l' = mx_goto l RStore \<or>
        g' = g \<and> l' = mx_goto l (RLoop tmo mt sd (mx_state g))"
      by (auto simp: MutexLockWithTimeout_step_def mx_word_const split: if_splits)
    then show ?thesis using again pc ty
      by (elim disjE) (intro mx_kind_quiet, auto simp: mx_goto_def mx_state_tests mx_valid_def)
  next
    case 2
    then have nu: "w \<noteq> mx_word ty sh 0 0" using mx_old_unlocked [OF old] by simp
    have lu: "MUTEX_STATE_BITS_IS_LOCKED_UNCONTENDED w" using v 2 by (simp add: mx_state_tests)
    have fl: "MUTEX_STATE_BITS_FLIP_CONTENTION w = mx_word ty sh c 2" using v 2 mx_word_flip by simp
    from st pc w ty nu have "g' = g\<lparr>mx_state := mx_word ty sh c 2\<rparr> \<and>
          l' = mx_goto l (RWait tmo mt sd (mx_word ty sh c 2)) \<or>
        g' = g \<and> l' = mx_goto l (RLoop tmo mt sd (mx_state g))"
      by (auto simp: MutexLockWithTimeout_step_def mx_word_const lu fl split: if_splits)
    then show ?thesis using again pc v
      by (elim disjE) (intro mx_kind_quiet, auto simp: mx_goto_def mx_state_tests mx_valid_def)
  next
    case 3
    then have "w \<noteq> mx_word ty sh 0 0" "\<not> MUTEX_STATE_BITS_IS_LOCKED_UNCONTENDED w"
        and c: "MUTEX_STATE_BITS_IS_LOCKED_CONTENDED w"
      using mx_old_unlocked [OF old] v by (simp_all add: mx_state_tests)
    with st pc w ty have "g' = g" "l' = mx_goto l (RWait tmo mt sd w)"
      by (simp_all add: MutexLockWithTimeout_step_def mx_word_const)
    then show ?thesis using pc c by (intro mx_kind_same) (auto simp: mx_goto_def)
  qed
qed

lemma MutexLockWithTimeout_kind:
  assumes G: "mx_G ty sh h g" and L: "mx_loc ty sh (mx_mine h t) l"
    and st: "(g', l') \<in> set (MutexLockWithTimeout_step fx t g l)"
  shows "mx_kind fx t g l g' l'"
proof (cases "ml_pc l")
  case (MWith tmo)
  with st show ?thesis
    by (intro mx_kind_same) (auto simp: MutexLockWithTimeout_step_def Let_def mx_goto_def)
next
  case (ROwner tmo w)
  show ?thesis
  proof (cases "(g', l') \<in> set (RecursiveIncrement w g l)")
    case True
    then show ?thesis by (rule RecursiveIncrement_kind) (simp_all add: ROwner)
  next
    case False
    with st ROwner show ?thesis
      by (intro mx_kind_same) (auto simp: MutexLockWithTimeout_step_def Let_def mx_outcome_defs split: if_splits)
  qed
next
  case RIncrement
  then obtain n where h: "h = Some (t, Holding n)" "n < 2048" "ty = 1"
    using L by (auto simp: mx_loc_def mx_mine_Some)
  then obtain s where "s \<in> {1, 2}" "mx_state g = mx_word 1 sh (n - 1) s" "0 < n" using G by (auto simp: mx_G_def)
  then have "mx_flagged g \<longleftrightarrow> s = 2" "MUTEX_STATE_BITS_IS_LOCKED_CONTENDED (mx_state g + 4) \<longleftrightarrow> s = 2"
    using h by (auto simp: mx_word_add mx_state_tests mx_valid_def)
  with st RIncrement show ?thesis
    by (intro mx_kind_quiet)
      (auto simp: MutexLockWithTimeout_step_def RecursiveIncrement_add_def mutex_consts mx_locked_def)
next
  case (RCas tmo mt sd)
  then have w: "mt = mx_word ty False 0 0" "sd = mx_word 0 sh 0 0" using L by (simp_all add: mx_loc_def)
  have ty: "ty < 3" using G by (rule mx_G_read)
  show ?thesis
  proof (cases "mx_state g = mx_word ty sh 0 0")
    case True
    with st RCas w ty show ?thesis
      by (intro mx_kind_quiet)
        (simp_all add: MutexLockWithTimeout_step_def mx_word_const mx_state_tests mx_valid_def mx_goto_def)
  next
    case False
    with st RCas w ty show ?thesis
      by (intro mx_kind_same) (simp_all add: MutexLockWithTimeout_step_def mx_word_const mx_goto_def)
  qed
next
  case RStore
  with st show ?thesis
    by (intro mx_kind_same) (auto simp: MutexLockWithTimeout_step_def mx_locked_def)
next
  case (RLoop tmo mt sd w)
  then show ?thesis using RLoop_kind G L st by blast
next
  case (RWait tmo mt sd w)
  then obtain c where old: "mx_old ty sh w c 2" using L by (auto simp: mx_loc_def)
  then have cn: "MUTEX_STATE_BITS_IS_LOCKED_CONTENDED w" by (simp add: mx_old_def mx_state_tests)
  show ?thesis
  proof (cases "\<exists>res. g' = g \<and> l' = mx_return l res")
    case True
    then show ?thesis using RWait by (intro mx_kind_same) (auto simp: mx_return_def)
  next
    case False
    then obtain k r where kr: "(k, r) \<in> set (fx_wait fx t (ucast (mx_state g)) (ucast w) (mx_futex g))"
      "g' = g\<lparr>mx_futex := k\<rparr>"
      and l': "l' = (case r of None \<Rightarrow> mx_goto l (RSleep tmo mt sd)
         | Some r \<Rightarrow> if r = - ETIMEDOUT then mx_return l ETIMEDOUT else mx_goto l (RLoad tmo mt sd))"
      using st RWait by (auto simp: MutexLockWithTimeout_step_def split: option.splits if_splits)
    show ?thesis
      by (rule mx_kind_wait [OF kr(1) cn kr(2)])
        (simp_all add: RWait l' mx_outcome_defs split: option.splits)
  qed
next
  case (RSleep tmo mt sd)
  obtain k r where kr: "(k, r) \<in> set (fx_leave fx t (mx_futex g))" "g' = g\<lparr>mx_futex := k\<rparr>"
    and l': "l' = (if r = - ETIMEDOUT then mx_return l ETIMEDOUT else mx_goto l (RLoad tmo mt sd))"
    using st by (auto simp: MutexLockWithTimeout_step_def RSleep)
  show ?thesis
    by (rule mx_kind_leave [OF kr]) (simp_all add: RSleep l' mx_outcome_defs)
next
  case (RLoad tmo mt sd)
  with st show ?thesis
    by (intro mx_kind_same) (auto simp: MutexLockWithTimeout_step_def mx_goto_def)
qed (use st NormalMutexLock_kind [OF G L] in \<open>simp_all add: MutexLockWithTimeout_step_def\<close>)

end
