(* ===== verification/Mutex_Properties.thy ===== *)
theory Mutex_Properties
  imports Mutex_Invariant
begin

text \<open>
  The properties of \<open>pthread_mutex.cpp\<close>: mutual exclusion and the lock count, no lost wake-ups,
  the owner checks, the attribute word and the priority-inheritance mutexes.
\<close>

section \<open>Wake-ups\<close>

lemma pthread_mutex_lock_kind:
  assumes G: "mx_G ty sh h g" and L: "mx_loc ty sh (mx_mine h t) l"
    and st: "(g', l') \<in> set (pthread_mutex_lock_step e t g l)"
  shows "mx_kind (me_fx e) t g l g' l'"
proof (cases "ml_pc l")
  case (MLock tmo)
  note rd = mx_G_read [OF G]
  have "g' = g" "l' = mx_goto l (if ty = 0 then MFast tmo (mx_word 0 sh 0 0) else MWith tmo)"
    using st MLock by (cases "ty = 0"; simp add: pthread_mutex_lock_step_def Let_def rd mx_type_tests)+
  then show ?thesis using MLock by (intro mx_kind_same) (auto simp: mx_goto_def)
next
  case (MFast tmo w)
  then have w: "w = mx_word 0 sh 0 0" "ty = 0" using L by (simp_all add: mx_loc_def)
  show ?thesis
  proof (cases "mx_state g = mx_word 0 sh 0 0")
    case True
    with st w MFast show ?thesis
      by (intro mx_kind_quiet)
        (simp_all add: pthread_mutex_lock_step_def NormalMutexTryLock_eq mx_locked_def mx_valid_def mx_state_tests)
  next
    case False
    with st w MFast show ?thesis
      by (intro mx_kind_same) (auto simp: pthread_mutex_lock_step_def NormalMutexTryLock_eq mx_outcome_defs)
  qed
qed (use st MutexLockWithTimeout_kind [OF G L] in \<open>simp_all add: pthread_mutex_lock_step_def\<close>)

lemma pthread_mutex_trylock_kind:
  assumes G: "mx_G ty sh h g" and L: "mx_loc ty sh (mx_mine h t) l"
    and st: "(g', l') \<in> set (pthread_mutex_trylock_step e t g l)"
  shows "mx_kind fx t g l g' l'"
proof (cases "ml_pc l")
  case MTry
  note rd = mx_G_read [OF G]
  have "g' = g" "l' = mx_goto l (if ty = 0 then TNormal (mx_word 0 sh 0 0) else TOwner (mx_state g))"
    using st MTry by (cases "ty = 0"; simp add: pthread_mutex_trylock_step_def Let_def rd mx_type_tests)+
  then show ?thesis using MTry by (intro mx_kind_same) (auto simp: mx_goto_def)
next
  case (TNormal w)
  then have w: "w = mx_word 0 sh 0 0" "ty = 0" using L by (simp_all add: mx_loc_def)
  show ?thesis
  proof (cases "mx_state g = mx_word 0 sh 0 0")
    case True
    with st w TNormal show ?thesis
      by (intro mx_kind_quiet)
        (simp_all add: pthread_mutex_trylock_step_def NormalMutexTryLock_eq mx_locked_def mx_valid_def mx_state_tests)
  next
    case False
    with st w TNormal show ?thesis
      by (intro mx_kind_same) (auto simp: pthread_mutex_trylock_step_def NormalMutexTryLock_eq mx_outcome_defs)
  qed
next
  case (TOwner w)
  show ?thesis
  proof (cases "(g', l') \<in> set (RecursiveIncrement w g l)")
    case True
    then show ?thesis by (rule RecursiveIncrement_kind) (simp_all add: TOwner)
  next
    case False
    with st TOwner show ?thesis
      by (intro mx_kind_same) (auto simp: pthread_mutex_trylock_step_def Let_def mx_outcome_defs split: if_splits)
  qed
next
  case (TCas mt sd)
  then have w: "mt = mx_word ty False 0 0" "sd = mx_word 0 sh 0 0" using L by (simp_all add: mx_loc_def)
  have ty: "ty < 3" using G by (rule mx_G_read)
  show ?thesis
  proof (cases "mx_state g = mx_word ty sh 0 0")
    case True
    with st TCas w ty show ?thesis
      by (intro mx_kind_quiet)
        (simp_all add: pthread_mutex_trylock_step_def mx_word_const mx_state_tests mx_valid_def mx_goto_def)
  next
    case False
    with st TCas w ty show ?thesis
      by (intro mx_kind_same) (simp_all add: pthread_mutex_trylock_step_def mx_word_const mx_outcome_defs)
  qed
qed (use st in \<open>simp_all add: pthread_mutex_trylock_step_def\<close>)

lemma pthread_mutex_unlock_kind:
  assumes G: "mx_G ty sh h g" and L: "mx_loc ty sh (mx_mine h t) l"
    and st: "(g', l') \<in> set (pthread_mutex_unlock_step e t g l)"
  shows "mx_kind (me_fx e) t g l g' l'"
proof (cases "ml_pc l")
  case MUnlock
  note rd = mx_G_read [OF G]
  have "g' = g" "l' = mx_goto l (if ty = 0 then UNormal (mx_word 0 sh 0 0) else UOwner (mx_state g))"
    using st MUnlock by (cases "ty = 0"; simp add: pthread_mutex_unlock_step_def Let_def rd mx_type_tests)+
  then show ?thesis using MUnlock by (intro mx_kind_same) (auto simp: mx_goto_def)
next
  case (UNormal w)
  then have w: "w = mx_word 0 sh 0 0" "ty = 0" "h = Some (t, Holding 1)"
    using L by (simp_all add: mx_loc_def mx_mine_Some)
  then obtain s where "s = 1 \<or> s = 2" "mx_state g = mx_word 0 sh 0 s" using G by (auto simp: mx_G_def)
  with st w UNormal show ?thesis
    by (intro mx_kind_quiet)
      (auto simp: pthread_mutex_unlock_step_def mx_word_const mx_unlocked_def mx_state_tests mx_valid_def)
next
  case UWake
  then obtain k r where "(k, r) \<in> set (fx_wake (me_fx e) 1 (mx_futex g))" "g' = g\<lparr>mx_futex := k\<rparr>"
    "l' = mx_return l 0" using st by (auto simp: pthread_mutex_unlock_step_def)
  then have "futex_wakes (me_fx e) mx_futex (mx_at_sleep \<circ> ml_pc) g l g' l'"
    using UWake by (intro futex_wakesI [where n = 1 and r = r]) (simp_all add: mx_return_def)
  then show ?thesis by (simp add: mx_kind_def)
next
  case (UOwner w)
  with st show ?thesis
    by (intro mx_kind_same) (auto simp: pthread_mutex_unlock_step_def mx_outcome_defs split: if_splits)
next
  case UDecrement
  then obtain n where h: "h = Some (t, Holding n)" "1 < n" "ty = 1"
    using L by (auto simp: mx_loc_def mx_mine_Some)
  then obtain s where "s \<in> {1, 2}" "mx_state g = mx_word 1 sh (n - 1) s" "n \<le> 2048"
    using G by (auto simp: mx_G_def)
  then have "mx_flagged g \<longleftrightarrow> s = 2" "MUTEX_STATE_BITS_IS_LOCKED_CONTENDED (mx_state g - 4) \<longleftrightarrow> s = 2"
    using h by (auto simp: mx_word_add mx_state_tests mx_valid_def)
  with st UDecrement show ?thesis
    by (intro mx_kind_quiet) (auto simp: pthread_mutex_unlock_step_def mutex_consts mx_unlocked_def)
next
  case (UClear mt sd)
  with st show ?thesis
    by (intro mx_kind_same) (auto simp: pthread_mutex_unlock_step_def mx_goto_def)
next
  case (USwap mt sd)
  with st show ?thesis
    by (intro mx_kind_quiet) (auto simp: pthread_mutex_unlock_step_def mx_unlocked_def)
qed (use st in \<open>simp_all add: pthread_mutex_unlock_step_def\<close>)

lemma mutex_step_kinds:
  assumes "mx_known g t l" "(g', l') \<in> set (mutex_step e tmos t g l)"
  shows "mx_kind (me_fx e) t g l g' l'"
proof -
  obtain ty sh h where G: "mx_G ty sh h g" and L: "mx_loc ty sh (mx_mine h t) l"
    using assms(1) by (auto simp: mx_known_def mx_L_def)
  have "mx_kind (me_fx e) t g l g' l'" if "(g', l') \<in> set (mutex_calls t tmos g l)" "ml_pc l = MOut"
    using that by (intro mx_kind_same) (auto simp: mutex_calls_def mx_goto_def split: if_splits)
  then show ?thesis
    using assms(2) pthread_mutex_lock_kind [OF G L] pthread_mutex_trylock_kind [OF G L]
      pthread_mutex_unlock_kind [OF G L]
    by (auto simp: mutex_step_def split: if_splits)
qed

interpretation mutex_sleep: futex_client "mutex_step e tmos" "me_fx e" mx_futex
  "mx_at_sleep \<circ> ml_pc" "mx_duty \<circ> ml_pc" mx_flagged mx_known for e tmos
  by unfold_locales (rule mutex_step_kinds [unfolded mx_kind_def])

section \<open>Properties\<close>

abbreviation mutex_env_queue :: "tid list mutex_env" where
  "mutex_env_queue \<equiv> \<lparr>me_fx = futex_queue, me_pi_lock = (\<lambda>t w. (w, 0)), me_pi_unlock = (\<lambda>t w. (w, 0)),
     me_pi_others = (\<lambda>w. w), me_sdk28 = True\<rparr>"

abbreviation mutex_at :: "mutex_pc \<Rightarrow> nat \<Rightarrow> mutex_thread" where
  "mutex_at pc n \<equiv> \<lparr>ml_pc = pc, ml_held = n, ml_ret = 0\<rparr>"

lemmas mutex_run_simps = mutex_step_def mutex_calls_def pthread_mutex_lock_step_def
  pthread_mutex_trylock_step_def pthread_mutex_unlock_step_def MutexLockWithTimeout_step_def
  NormalMutexLock_step_def NormalMutexTryLock_def RecursiveIncrement_def RecursiveIncrement_add_def
  IsMutexDestroyed_def mutex_consts mx_goto_def mx_locked_def mx_unlocked_def check_timespec_def
  MUTEX_STATE_BITS_IS_LOCKED_UNCONTENDED_def MUTEX_STATE_BITS_IS_LOCKED_CONTENDED_def
  MUTEX_STATE_BITS_IS_UNLOCKED_def MUTEX_COUNTER_BITS_WILL_OVERFLOW_def MUTEX_COUNTER_BITS_IS_ZERO_def
  MUTEX_STATE_BITS_FLIP_CONTENTION_def Let_def futex_queue_def fun_upd_twist

abbreviation mutex_word :: "u16 \<Rightarrow> tid \<Rightarrow> tid list \<Rightarrow> tid list pthread_mutex" where
  "mutex_word w t q \<equiv> \<lparr>mx_state = w, mx_owner_tid = t, mx_pi = PIMutex_zero, mx_futex = q\<rparr>"

lemma mutex_init_word:
  "pthread_mutex_init (Some 1) [] = (mutex_word 0x4000 0 [], 0)"
  "pthread_mutex_init (Some 2) [] = (mutex_word 0x8000 0 [], 0)"
  "pthread_mutex_init None [] = (mutex_word 0 0 [], 0)"
  by (simp_all add: pthread_mutex_init_def Let_def mutex_consts)

text \<open>The initialised mutex of the three types.\<close>

definition mutexattr_pi :: "mutexattr option \<Rightarrow> bool" where
  "mutexattr_pi attr = (case attr of None \<Rightarrow> False
     | Some a \<Rightarrow> drop_bit MUTEXATTR_PROTOCOL_SHIFT (a AND MUTEXATTR_PROTOCOL_MASK) = 1)"

definition mutexattr_type :: "mutexattr option \<Rightarrow> nat" where
  "mutexattr_type attr = (case attr of None \<Rightarrow> 0 | Some a \<Rightarrow> unat (a AND MUTEXATTR_TYPE_MASK))"

definition mutexattr_shared :: "mutexattr option \<Rightarrow> bool" where
  "mutexattr_shared attr = (case attr of None \<Rightarrow> False | Some a \<Rightarrow> a AND MUTEXATTR_SHARED_MASK \<noteq> 0)"

lemma mx_word_init:
  "mx_word 0 sh 0 0 = (if sh then 0x2000 else 0)"
  "mx_word 1 sh 0 0 = (if sh then 0x2000 else 0) OR 0x4000"
  "mx_word 2 sh 0 0 = (if sh then 0x2000 else 0) OR 0x8000"
  by (simp_all add: mx_word_def)

lemma pthread_mutex_init_word:
  assumes "pthread_mutex_init attr k = (g, 0)" "\<not> mutexattr_pi attr"
  shows "mx_G (mutexattr_type attr) (mutexattr_shared attr) None g" "mx_futex g = k"
proof -
  have "mx_G (mutexattr_type attr) (mutexattr_shared attr) None g \<and> mx_futex g = k"
  proof (cases attr)
    case None
    with assms show ?thesis
      by (auto simp: pthread_mutex_init_def Let_def mx_G_def mutexattr_type_def mutexattr_shared_def
          mx_word_init mutex_consts)
  next
    case (Some a)
    define ty where "ty = a AND MUTEXATTR_TYPE_MASK"
    consider "ty = 0" | "ty = 1" | "ty = 2"
      using assms(1) Some by (auto simp: pthread_mutex_init_def Let_def ty_def split: if_splits)
    then show ?thesis
    proof cases
      case 1
      with Some assms show ?thesis
        by (auto simp: pthread_mutex_init_def Let_def mx_G_def mutexattr_type_def mutexattr_shared_def
            mutexattr_pi_def ty_def [symmetric] mx_word_init mutex_consts split: if_splits)
    next
      case 2
      with Some assms show ?thesis
        by (auto simp: pthread_mutex_init_def Let_def mx_G_def mutexattr_type_def mutexattr_shared_def
            mutexattr_pi_def ty_def [symmetric] mx_word_init [simplified] mutex_consts split: if_splits)
    next
      case 3
      with Some assms show ?thesis
        by (auto simp: pthread_mutex_init_def Let_def mx_G_def mutexattr_type_def mutexattr_shared_def
            mutexattr_pi_def ty_def [symmetric] mx_word_init mutex_consts split: if_splits)
    qed
  qed
  then show "mx_G (mutexattr_type attr) (mutexattr_shared attr) None g" "mx_futex g = k" by simp_all
qed

lemma mutex_reach:
  assumes "pthread_mutex_init attr k = (g0, 0)" "\<not> mutexattr_pi attr"
    and "par_reach (mutex_step e tmos) (g0, \<lambda>_. mutex_idle) (g, ls)"
  obtains h where "mx_G (mutexattr_type attr) (mutexattr_shared attr) h g"
    "\<And>t. mx_L (mutexattr_type attr) (mutexattr_shared attr) h t (ls t)"
  by (rule mutex.ghost_reach [OF assms(3) pthread_mutex_init_word(1) [OF assms(1,2)]])
    (simp_all add: mx_L_def mx_loc_def mx_mode_held_def)


text \<open>C1. Mutual exclusion and the lock count. A mutex made by \<open>pthread_mutex_init\<close> without
  priority inheritance is held by at most one thread, however the calls of the threads
  interleave. While a thread holds it the state word is locked, the counter field is one less
  than the number of times the thread has locked it (never more than 2048 times, and once
  unless the mutex is recursive), and between calls the owner field of a recursive or
  error-checking mutex is that thread.\<close>

theorem pthread_mutex_mutual_exclusion:
  assumes "pthread_mutex_init attr k = (g0, 0)" "\<not> mutexattr_pi attr"
    and "par_reach (mutex_step e tmos) (g0, \<lambda>_. mutex_idle) (g, ls)" and "0 < ml_held (ls t)"
  shows "(\<forall>u. u \<noteq> t \<longrightarrow> ml_held (ls u) = 0) \<and> \<not> MUTEX_STATE_BITS_IS_UNLOCKED (mx_state g) \<and>
    mx_state g AND MUTEX_COUNTER_MASK = of_nat ((ml_held (ls t) - 1) * 4) \<and>
    ml_held (ls t) \<le> (if mutexattr_type attr = 1 then 2048 else 1) \<and>
    (mutexattr_type attr \<noteq> 0 \<and> ml_pc (ls t) = MOut \<longrightarrow> mx_owner_tid g = t)"
proof -
  let ?ty = "mutexattr_type attr" and ?sh = "mutexattr_shared attr"
  obtain h where G: "mx_G ?ty ?sh h g" and L: "\<And>t. mx_L ?ty ?sh h t (ls t)"
    using assms(1-3) by (rule mutex_reach) auto
  have held: "ml_held (ls u) = mx_mode_held (mx_mine h u)" for u using L [of u] by (simp add: mx_L_def mx_loc_def)
  from assms(4) obtain m where h: "h = Some (t, m)"
    by (auto simp: held mx_mode_held_def mx_mine_Some split: option.splits mutex_mode.splits)
  then have others: "\<forall>u. u \<noteq> t \<longrightarrow> ml_held (ls u) = 0" by (simp add: held mx_mode_held_def)
  have out: "m = Releasing \<Longrightarrow> ml_pc (ls t) \<noteq> MOut" using L [of t] h by (auto simp: mx_L_def mx_loc_def)
  have ty: "?ty < 3" using G by (rule mx_G_read)
  obtain c s where w: "mx_state g = mx_word ?ty ?sh c s" "s \<in> {1, 2}" "c = ml_held (ls t) - 1" "c < 2048"
    and n: "ml_held (ls t) \<le> (if ?ty = 1 then 2048 else 1)"
    and o: "m \<noteq> Releasing \<and> ?ty \<noteq> 0 \<longrightarrow> mx_owner_tid g = t"
    using G assms(4) ty unfolding h held
    by (force simp: mx_G_def mx_mode_held_def split: mutex_mode.splits)
  have "mx_valid ?ty c s" using w ty by (auto simp: mx_valid_def)
  with w others n o out show ?thesis
    by (auto simp: mx_state_tests mx_word_fields mutex_consts simp del: of_nat_mult)
qed

theorem pthread_mutex_mutual_exclusion_witness:
  "mx_state (mutex_word 0x4005 1 []) AND MUTEX_COUNTER_MASK = of_nat ((Suc (Suc 0) - 1) * 4)"
proof -
  have "par_run (mutex_step mutex_env_queue [(False, None)]) (mutex_word 0x4000 0 [], \<lambda>_. mutex_idle)
     [(1, 0), (1, 0), (1, 0), (1, 0), (1, 0), (1, 0), (1, 0), (1, 0), (1, 0), (1, 0), (1, 0)] =
   Some (mutex_word 0x4005 1 [], (\<lambda>_. mutex_idle)(1 := mutex_at MOut (Suc (Suc 0))))"
    by (simp add: mutex_run_simps)
  note r = pthread_mutex_mutual_exclusion [OF mutex_init_word(1) _ par_run_reach [OF this], where t = 1]
  have a: "\<not> mutexattr_pi (Some 1)" "0 < ml_held (((\<lambda>_. mutex_idle)(1 := mutex_at MOut (Suc (Suc 0)))) 1)"
    by (simp_all add: mutexattr_pi_def)
  from r [OF a, THEN conjunct2, THEN conjunct2, THEN conjunct1] show ?thesis
    by (simp only: fun_upd_same mutex_thread.simps)
qed

lemma mutex_known_reach:
  assumes "pthread_mutex_init attr k = (g0, 0)" "\<not> mutexattr_pi attr"
    and "par_reach (mutex_step e tmos) (g0, \<lambda>_. mutex_idle) (g, ls)"
  shows "mx_known g t (ls t)"
  using assms by (rule mutex_reach) (auto simp: mx_known_def)

text \<open>C2. No lost wake-ups. If the futex behaves as documented and some thread is queued on the
  mutex, then the state word says that there are waiters, or some thread is about to wake one
  up, or a thread that was woken or never slept is about to look at the state word again.\<close>

theorem pthread_mutex_no_lost_wakeup:
  assumes "pthread_mutex_init attr k = (g0, 0)" "\<not> mutexattr_pi attr"
    and "futex_laws (me_fx e)" "\<And>t. \<not> fx_asleep (me_fx e) k t"
    and "par_reach (mutex_step e tmos) (g0, \<lambda>_. mutex_idle) (g, ls)"
    and "fx_asleep (me_fx e) (mx_futex g) t"
  shows "MUTEX_STATE_BITS_IS_LOCKED_CONTENDED (mx_state g) \<or>
    (\<exists>u. mx_duty (ml_pc (ls u)) \<or> mx_at_sleep (ml_pc (ls u)) \<and> \<not> fx_asleep (me_fx e) (mx_futex g) u)"
proof (rule disjCI)
  assume n: "\<not> (\<exists>u. mx_duty (ml_pc (ls u)) \<or>
    mx_at_sleep (ml_pc (ls u)) \<and> \<not> fx_asleep (me_fx e) (mx_futex g) u)"
  show "mx_flagged g"
  proof (rule ccontr)
    assume "\<not> mx_flagged g"
    with mutex_sleep.asleep_reach [OF assms(5), of t] assms(3,4,6)
      pthread_mutex_init_word(2) [OF assms(1,2)] mutex_known_reach [OF assms(1,2)]
    obtain u where "responsible (\<lambda>g. fx_asleep (me_fx e) (mx_futex g)) (mx_at_sleep \<circ> ml_pc)
        (mx_duty \<circ> ml_pc) g u (ls u)" by blast
    with n show False by (auto simp: responsible_def)
  qed
qed

theorem pthread_mutex_no_lost_wakeup_witness:
  "MUTEX_STATE_BITS_IS_LOCKED_CONTENDED (mx_state (mutex_word 0 0 [2])) \<or>
    (\<exists>u :: tid. mx_duty (ml_pc (((\<lambda>_. mutex_idle)(1 := mutex_at UWake 0,
        2 := mutex_at (NSleep (False, None) 0) 0)) u)) \<or>
      mx_at_sleep (ml_pc (((\<lambda>_. mutex_idle)(1 := mutex_at UWake 0,
        2 := mutex_at (NSleep (False, None) 0) 0)) u)) \<and>
      \<not> fx_asleep (me_fx mutex_env_queue) (mx_futex (mutex_word 0 0 [2])) u)"
proof -
  have "par_run (mutex_step mutex_env_queue [(False, None)]) (mutex_word 0 0 [], \<lambda>_. mutex_idle)
     [(1, 0), (1, 0), (1, 0), (2, 0), (2, 0), (2, 0), (2, 0), (2, 0), (2, 0), (2, 0), (1, 2), (1, 0), (1, 0)] =
   Some (mutex_word 0 0 [2], (\<lambda>_. mutex_idle)(1 := mutex_at UWake 0,
     2 := mutex_at (NSleep (False, None) 0) 0))"
    by (simp add: mutex_run_simps)
  note r = pthread_mutex_no_lost_wakeup [OF mutex_init_word(3) _ _ _ par_run_reach [OF this], of 2]
  have "\<not> mutexattr_pi None" "futex_laws (me_fx mutex_env_queue)" "\<not> fx_asleep (me_fx mutex_env_queue) [] t"
    "fx_asleep (me_fx mutex_env_queue) (mx_futex (mutex_word 0 0 [2])) 2" for t
    using futex_queue_laws by (simp_all add: mutexattr_pi_def futex_queue_def)
  with r show ?thesis by (simp only: simp_thms)
qed

lemma mutex_call_step:
  assumes "t \<noteq> 0" "ml_pc l = ROwner tmo w \<or> ml_pc l = TOwner w \<or> ml_pc l = UOwner w"
  shows "mutex_step e tmos t g l =
    (case ml_pc l of ROwner _ _ \<Rightarrow> MutexLockWithTimeout_step (me_fx e) t g l
     | TOwner _ \<Rightarrow> pthread_mutex_trylock_step e t g l | _ \<Rightarrow> pthread_mutex_unlock_step e t g l)"
  using assms
  by (auto simp: mutex_step_def pthread_mutex_lock_step_def pthread_mutex_trylock_step_def
      pthread_mutex_unlock_step_def MutexLockWithTimeout_step_def NormalMutexLock_step_def)

lemma mutex_owner_reads:
  assumes G: "mx_G ty sh h g" and L: "mx_L ty sh h t l" and t: "t \<noteq> 0"
    and pc: "ml_pc l = ROwner tmo w \<or> ml_pc l = TOwner w \<or> ml_pc l = UOwner w"
  shows "t = mx_owner_tid g \<longleftrightarrow> 0 < ml_held l"
    and "0 < ml_held l \<Longrightarrow> w AND MUTEX_TYPE_MASK = MUTEX_TYPE_BITS_ERRORCHECK \<longleftrightarrow> ty = 2"
    and "0 < ml_held l \<Longrightarrow> MUTEX_COUNTER_BITS_WILL_OVERFLOW w \<longleftrightarrow> ml_held l = 2048"
proof -
  obtain c s where ty: "ty \<noteq> 0" and old: "mx_old ty sh w c s"
    and c: "\<And>n. mx_mine h t = Some (Holding n) \<Longrightarrow> c = n - 1"
    using L pc by (auto simp: mx_L_def mx_loc_def)
  have "mx_mine h t = None \<or> (\<exists>n. mx_mine h t = Some (Holding n))"
    using mx_not_mine [OF L [unfolded mx_L_def]] pc by auto
  moreover have "0 < n" if "mx_mine h t = Some (Holding n)" for n
    using that G by (auto simp: mx_G_def mx_mine_Some)
  ultimately have nr: "mx_mine h t = None \<or> (\<exists>n. mx_mine h t = Some (Holding n) \<and> 0 < n)" by blast
  have held: "ml_held l = mx_mode_held (mx_mine h t)" using L by (simp add: mx_L_def mx_loc_def)
  show "t = mx_owner_tid g \<longleftrightarrow> 0 < ml_held l"
    unfolding mx_owner_holds [OF G t ty] held using nr by (auto simp: mx_mode_held_def)
  show "w AND MUTEX_TYPE_MASK = MUTEX_TYPE_BITS_ERRORCHECK \<longleftrightarrow> ty = 2" by (rule mx_errorcheck_type [OF old])
  assume "0 < ml_held l"
  with nr obtain n where n: "mx_mine h t = Some (Holding n)" "0 < n" by (auto simp: held mx_mode_held_def)
  then have "mx_mode_held (mx_mine h t) = n" by (simp add: mx_mode_held_def)
  moreover have "MUTEX_COUNTER_BITS_WILL_OVERFLOW w \<longleftrightarrow> c = 2047"
    using old by (simp add: mx_old_def mx_state_tests)
  ultimately show "MUTEX_COUNTER_BITS_WILL_OVERFLOW w \<longleftrightarrow> ml_held l = 2048"
    unfolding held using c [OF n(1)] n(2) by auto
qed

definition mutex_owner_result :: "nat \<Rightarrow> int \<Rightarrow> 'k pthread_mutex \<Rightarrow> mutex_thread \<Rightarrow> 'k mutex_outcomes" where
  "mutex_owner_result ty err g l =
     [(g, if ty = 2 then mx_return l err
          else if ml_held l = 2048 then mx_return l EAGAIN else mx_goto l RIncrement)]"

text \<open>C19. The owner checks. In a recursive or error-checking mutex, an unlock fails with \<open>EPERM\<close>
  exactly when the caller does not hold it. When the caller does, locking an error-checking
  mutex again fails with \<open>EDEADLK\<close> (\<open>EBUSY\<close> for trylock), and locking a recursive one fails with
  \<open>EAGAIN\<close> exactly when it is held 2048 times. None of the failing calls changes the mutex.\<close>

theorem pthread_mutex_owner_errors:
  assumes "pthread_mutex_init attr k = (g0, 0)" "\<not> mutexattr_pi attr"
    and "par_reach (mutex_step e tmos) (g0, \<lambda>_. mutex_idle) (g, ls)" and t: "t \<noteq> 0"
  shows "(ml_pc (ls t) = UOwner w \<longrightarrow>
      (mutex_step e tmos t g (ls t) = [(g, mx_return (ls t) EPERM)]) = (ml_held (ls t) = 0)) \<and>
    (ml_pc (ls t) = ROwner tmo w \<and> 0 < ml_held (ls t) \<longrightarrow>
      mutex_step e tmos t g (ls t) = mutex_owner_result (mutexattr_type attr) EDEADLK g (ls t)) \<and>
    (ml_pc (ls t) = TOwner w \<and> 0 < ml_held (ls t) \<longrightarrow>
      mutex_step e tmos t g (ls t) = mutex_owner_result (mutexattr_type attr) EBUSY g (ls t))"
proof -
  let ?ty = "mutexattr_type attr" and ?sh = "mutexattr_shared attr"
  obtain h where G: "mx_G ?ty ?sh h g" and L: "\<And>t. mx_L ?ty ?sh h t (ls t)"
    using assms(1-3) by (rule mutex_reach) auto
  note r = mutex_owner_reads [OF G L [of t] t]
  have "ml_pc (ls t) = UOwner w \<Longrightarrow>
      (mutex_step e tmos t g (ls t) = [(g, mx_return (ls t) EPERM)]) = (ml_held (ls t) = 0)"
    using r(1) [of tmo w]
    by (auto simp: mutex_call_step [OF t] pthread_mutex_unlock_step_def mx_outcome_defs dest: arg_cong [of _ _ ml_pc])
  moreover have "ml_pc (ls t) = ROwner tmo w \<Longrightarrow> 0 < ml_held (ls t) \<Longrightarrow>
      mutex_step e tmos t g (ls t) = mutex_owner_result ?ty EDEADLK g (ls t)"
    using r [of tmo w] mutex_call_step [OF t, of "ls t" tmo w e tmos g]
    by (simp add: MutexLockWithTimeout_step_def RecursiveIncrement_def mutex_owner_result_def)
  moreover have "ml_pc (ls t) = TOwner w \<Longrightarrow> 0 < ml_held (ls t) \<Longrightarrow>
      mutex_step e tmos t g (ls t) = mutex_owner_result ?ty EBUSY g (ls t)"
    using r [of tmo w] mutex_call_step [OF t, of "ls t" tmo w e tmos g]
    by (simp add: pthread_mutex_trylock_step_def RecursiveIncrement_def mutex_owner_result_def)
  ultimately show ?thesis by blast
qed

theorem pthread_mutex_owner_errors_witness:
  "mutex_step mutex_env_queue [(False, None)] 1 (mutex_word 0x8001 1 []) (mutex_at (ROwner (False, None) 0x8001) 1) =
   mutex_owner_result 2 EDEADLK (mutex_word 0x8001 1 []) (mutex_at (ROwner (False, None) 0x8001) 1)"
proof -
  have "par_run (mutex_step mutex_env_queue [(False, None)]) (mutex_word 0x8000 0 [], \<lambda>_. mutex_idle)
     [(1, 0), (1, 0), (1, 0), (1, 0), (1, 0), (1, 0), (1, 0), (1, 0), (1, 0)] =
   Some (mutex_word 0x8001 1 [], (\<lambda>_. mutex_idle)(1 := mutex_at (ROwner (False, None) 0x8001) 1))"
    by (simp add: mutex_run_simps)
  note r = pthread_mutex_owner_errors [OF mutex_init_word(2) _ par_run_reach [OF this],
      where t = 1 and w = "0x8001" and tmo = "(False, None)"]
  have a: "\<not> mutexattr_pi (Some 2)" "mutexattr_type (Some 2) = 2" "(1 :: tid) \<noteq> 0"
    by (simp_all add: mutexattr_pi_def mutexattr_type_def)
  from r [OF a(1,3), THEN conjunct2, THEN conjunct1] show ?thesis
    by (simp only: fun_upd_same mutex_thread.simps a(2) zero_less_one simp_thms)
qed

lemma masked_field:
  fixes a m n v :: u64
  shows "((a AND NOT m) OR v) AND m = v AND m" "(a OR m) AND m = m" "(a AND NOT m) AND m = 0"
    and "v AND n = 0 \<Longrightarrow> m AND n = 0 \<Longrightarrow> ((a AND NOT m) OR v) AND n = a AND n"
    and "m AND n = 0 \<Longrightarrow> (a OR m) AND n = a AND n" "m AND n = 0 \<Longrightarrow> (a AND NOT m) AND n = a AND n"
  by (simp_all add: bit_eq_iff bit_simps) metis+

lemma settype_fields:
  assumes "v \<in> {0, 1, 2}" "pthread_mutexattr_settype a v = (a', r)"
  shows "r = 0" "a' AND 0xf = of_int v" "a' AND 0x10 = a AND 0x10" "a' AND 0x20 = a AND 0x20"
proof -
  have a': "a' = (a AND NOT 0xf) OR of_int v" and r: "r = 0"
    using assms by (auto simp: pthread_mutexattr_settype_def)
  have v: "of_int v AND 0xf = (of_int v :: u64)" "of_int v AND 0x10 = (0 :: u64)" "of_int v AND 0x20 = (0 :: u64)"
    using assms(1) by auto
  show "a' AND 0xf = of_int v" unfolding a' masked_field(1) by (rule v(1))
  show "a' AND 0x10 = a AND 0x10" unfolding a' by (rule masked_field(4) [OF v(2)]) simp
  show "a' AND 0x20 = a AND 0x20" unfolding a' by (rule masked_field(4) [OF v(3)]) simp
  show "r = 0" by (rule r)
qed

lemma setpshared_fields:
  assumes "v \<in> {0, 1}" "pthread_mutexattr_setpshared a v = (a', r)"
  shows "r = 0" "a' AND 0x10 = (if v = 1 then 0x10 else 0)" "a' AND 0xf = a AND 0xf" "a' AND 0x20 = a AND 0x20"
proof -
  consider "v = 0" "a' = a AND NOT 0x10" "r = 0" | "v = 1" "a' = a OR 0x10" "r = 0"
    using assms by (auto simp: pthread_mutexattr_setpshared_def)
  then have "r = 0 \<and> a' AND 0x10 = (if v = 1 then 0x10 else 0) \<and> a' AND 0xf = a AND 0xf \<and> a' AND 0x20 = a AND 0x20"
  proof cases
    case 1
    then show ?thesis
      using masked_field(3) [of a "0x10"] masked_field(6) [where m = "0x10" and a = a and n = "0xf"]
        masked_field(6) [where m = "0x10" and a = a and n = "0x20"] by simp
  next
    case 2
    then show ?thesis
      using masked_field(2) [of a "0x10"] masked_field(5) [where m = "0x10" and a = a and n = "0xf"]
        masked_field(5) [where m = "0x10" and a = a and n = "0x20"] by simp
  qed
  then show "r = 0" "a' AND 0x10 = (if v = 1 then 0x10 else 0)" "a' AND 0xf = a AND 0xf" "a' AND 0x20 = a AND 0x20"
    by simp_all
qed

lemma setprotocol_fields:
  assumes "v \<in> {0, 1}" "pthread_mutexattr_setprotocol a v = (a', r)"
  shows "r = 0" "a' AND 0x20 = (if v = 1 then 0x20 else 0)" "a' AND 0xf = a AND 0xf" "a' AND 0x10 = a AND 0x10"
proof -
  define p :: u64 where "p = (if v = 1 then 0x20 else 0)"
  have a': "a' = (a AND NOT 0x20) OR p" and r: "r = 0"
    using assms by (auto simp: pthread_mutexattr_setprotocol_def p_def)
  have v: "p AND 0x20 = p" "p AND 0xf = 0" "p AND 0x10 = 0" by (simp_all add: p_def)
  show "a' AND 0x20 = (if v = 1 then 0x20 else 0)" unfolding a' masked_field(1) v(1) by (rule p_def)
  show "a' AND 0xf = a AND 0xf" unfolding a' by (rule masked_field(4) [OF v(2)]) simp
  show "a' AND 0x10 = a AND 0x10" unfolding a' by (rule masked_field(4) [OF v(3)]) simp
  show "r = 0" by (rule r)
qed

lemma mutexattr_getters:
  "a AND 0xf = b AND 0xf \<Longrightarrow> pthread_mutexattr_gettype a = pthread_mutexattr_gettype b"
  "a AND 0x10 = b AND 0x10 \<Longrightarrow> pthread_mutexattr_getpshared a = pthread_mutexattr_getpshared b"
  "a AND 0x20 = b AND 0x20 \<Longrightarrow> pthread_mutexattr_getprotocol a = pthread_mutexattr_getprotocol b"
  "v \<in> {0, 1, 2} \<Longrightarrow> a AND 0xf = of_int v \<Longrightarrow> pthread_mutexattr_gettype a = (Some v, 0)"
  "v \<in> {0, 1} \<Longrightarrow> a AND 0x10 = (if v = 1 then 0x10 else 0) \<Longrightarrow> pthread_mutexattr_getpshared a = (v, 0)"
  "v \<in> {0, 1} \<Longrightarrow> a AND 0x20 = (if v = 1 then 0x20 else 0) \<Longrightarrow> pthread_mutexattr_getprotocol a = (v, 0)"
  by (simp_all only: pthread_mutexattr_gettype_def pthread_mutexattr_getpshared_def
      pthread_mutexattr_getprotocol_def) auto

text \<open>The attribute word keeps its three fields apart. After a successful set of the type, the
  process-shared flag or the protocol, the matching get returns the value set and the other two
  return what they did before; values that are not allowed are refused and change nothing.\<close>

lemma pthread_mutexattr_fields:
  "(case pthread_mutexattr_settype a v of (a', r) \<Rightarrow>
      if v \<in> {0, 1, 2} then r = 0 \<and> pthread_mutexattr_gettype a' = (Some v, 0) \<and>
        pthread_mutexattr_getpshared a' = pthread_mutexattr_getpshared a \<and>
        pthread_mutexattr_getprotocol a' = pthread_mutexattr_getprotocol a
      else r = EINVAL \<and> a' = a) \<and>
   (case pthread_mutexattr_setpshared a v of (a', r) \<Rightarrow>
      if v \<in> {0, 1} then r = 0 \<and> pthread_mutexattr_getpshared a' = (v, 0) \<and>
        pthread_mutexattr_gettype a' = pthread_mutexattr_gettype a \<and>
        pthread_mutexattr_getprotocol a' = pthread_mutexattr_getprotocol a
      else r = EINVAL \<and> a' = a) \<and>
   (case pthread_mutexattr_setprotocol a v of (a', r) \<Rightarrow>
      if v \<in> {0, 1} then r = 0 \<and> pthread_mutexattr_getprotocol a' = (v, 0) \<and>
        pthread_mutexattr_gettype a' = pthread_mutexattr_gettype a \<and>
        pthread_mutexattr_getpshared a' = pthread_mutexattr_getpshared a
      else r = EINVAL \<and> a' = a)"
proof (intro conjI)
  obtain a1 r1 a2 r2 a3 r3 where s: "pthread_mutexattr_settype a v = (a1, r1)"
    "pthread_mutexattr_setpshared a v = (a2, r2)" "pthread_mutexattr_setprotocol a v = (a3, r3)"
    by (metis surj_pair)
  have bad: "v \<notin> {0, 1, 2} \<Longrightarrow> r1 = EINVAL \<and> a1 = a" "v \<notin> {0, 1} \<Longrightarrow> r2 = EINVAL \<and> a2 = a"
    "v \<notin> {0, 1} \<Longrightarrow> r3 = EINVAL \<and> a3 = a"
    using s by (auto simp: pthread_mutexattr_settype_def pthread_mutexattr_setpshared_def
        pthread_mutexattr_setprotocol_def split: if_splits)
  show "case pthread_mutexattr_settype a v of (a', r) \<Rightarrow>
      if v \<in> {0, 1, 2} then r = 0 \<and> pthread_mutexattr_gettype a' = (Some v, 0) \<and>
        pthread_mutexattr_getpshared a' = pthread_mutexattr_getpshared a \<and>
        pthread_mutexattr_getprotocol a' = pthread_mutexattr_getprotocol a
      else r = EINVAL \<and> a' = a"
  proof (cases "v \<in> {0, 1, 2}")
    case True
    note f = settype_fields [OF True s(1)]
    show ?thesis unfolding s prod.case if_P [OF True]
      by (intro conjI f(1) mutexattr_getters(4) [OF True f(2)] mutexattr_getters(2) [OF f(3)] mutexattr_getters(3) [OF f(4)])
  next
    case False
    show ?thesis unfolding s prod.case if_not_P [OF False] by (rule bad(1) [OF False])
  qed
  show "case pthread_mutexattr_setpshared a v of (a', r) \<Rightarrow>
      if v \<in> {0, 1} then r = 0 \<and> pthread_mutexattr_getpshared a' = (v, 0) \<and>
        pthread_mutexattr_gettype a' = pthread_mutexattr_gettype a \<and>
        pthread_mutexattr_getprotocol a' = pthread_mutexattr_getprotocol a
      else r = EINVAL \<and> a' = a"
  proof (cases "v \<in> {0, 1}")
    case True
    note f = setpshared_fields [OF True s(2)]
    show ?thesis unfolding s prod.case if_P [OF True]
      by (intro conjI f(1) mutexattr_getters(5) [OF True f(2)] mutexattr_getters(1) [OF f(3)] mutexattr_getters(3) [OF f(4)])
  next
    case False
    show ?thesis unfolding s prod.case if_not_P [OF False] by (rule bad(2) [OF False])
  qed
  show "case pthread_mutexattr_setprotocol a v of (a', r) \<Rightarrow>
      if v \<in> {0, 1} then r = 0 \<and> pthread_mutexattr_getprotocol a' = (v, 0) \<and>
        pthread_mutexattr_gettype a' = pthread_mutexattr_gettype a \<and>
        pthread_mutexattr_getpshared a' = pthread_mutexattr_getpshared a
      else r = EINVAL \<and> a' = a"
  proof (cases "v \<in> {0, 1}")
    case True
    note f = setprotocol_fields [OF True s(3)]
    show ?thesis unfolding s prod.case if_P [OF True]
      by (intro conjI f(1) mutexattr_getters(6) [OF True f(2)] mutexattr_getters(1) [OF f(3)] mutexattr_getters(2) [OF f(4)])
  next
    case False
    show ?thesis unfolding s prod.case if_not_P [OF False] by (rule bad(3) [OF False])
  qed
qed

text \<open>Priority-inheritance mutexes. A thread that takes a free one with \<open>PIMutexTryLock\<close> becomes
  the owner, and its unlock gives the mutex back as it was; on a recursive one that it already
  owns (with or without waiters) each further lock counts one up, until \<open>EAGAIN\<close> at 65535, and the
  unlock counts one down without touching the owner word. Another thread gets \<open>EBUSY\<close> from the
  lock and \<open>EPERM\<close> from the unlock, and \<open>PIMutexDestroy\<close> refuses an owned mutex.\<close>

lemma PIMutex_lock_unlock:
  assumes t: "t \<noteq> 0" "t AND FUTEX_TID_MASK = t"
  shows "(pi_owner_tid m = 0 \<and> pi_counter m = 0 \<longrightarrow> PIMutexTryLock t m = (m\<lparr>pi_owner_tid := t\<rparr>, 0) \<and>
      PIMutexUnlock unlock (\<lambda>w. w) t (m\<lparr>pi_owner_tid := t\<rparr>) = (m, 0)) \<and>
    (pi_owner_tid m AND FUTEX_TID_MASK = t \<and> pi_type m = 1 \<longrightarrow>
      (if pi_counter m = 0xffff then PIMutexTryLock t m = (m, EAGAIN)
       else PIMutexTryLock t m = (m\<lparr>pi_counter := pi_counter m + 1\<rparr>, 0) \<and>
         PIMutexUnlock unlock env t (m\<lparr>pi_counter := pi_counter m + 1\<rparr>) = (m, 0))) \<and>
    (pi_owner_tid m AND FUTEX_TID_MASK \<noteq> t \<and> pi_owner_tid m \<noteq> 0 \<longrightarrow>
      PIMutexTryLock t m = (m, EBUSY) \<and> PIMutexUnlock unlock env t m = (m, EPERM) \<and>
      PIMutexDestroy m = (m, EBUSY))"
proof (intro conjI impI)
  assume "pi_owner_tid m = 0 \<and> pi_counter m = 0"
  then show "PIMutexTryLock t m = (m\<lparr>pi_owner_tid := t\<rparr>, 0)"
    "PIMutexUnlock unlock (\<lambda>w. w) t (m\<lparr>pi_owner_tid := t\<rparr>) = (m, 0)"
    using t by (cases m; simp add: PIMutexTryLock_def PIMutexUnlock_def Let_def)+
next
  assume a: "pi_owner_tid m AND FUTEX_TID_MASK = t \<and> pi_type m = 1"
  then have nz: "pi_owner_tid m \<noteq> 0" using t by auto
  have "pi_counter m + 1 \<noteq> 0" if "pi_counter m \<noteq> 0xffff"
  proof
    assume "pi_counter m + 1 = 0"
    then have "pi_counter m = - 1" by (simp add: eq_neg_iff_add_eq_0)
    with that show False by simp
  qed
  with a nz show "if pi_counter m = 0xffff then PIMutexTryLock t m = (m, EAGAIN)
       else PIMutexTryLock t m = (m\<lparr>pi_counter := pi_counter m + 1\<rparr>, 0) \<and>
         PIMutexUnlock unlock env t (m\<lparr>pi_counter := pi_counter m + 1\<rparr>) = (m, 0)"
    by (cases m) (simp add: PIMutexTryLock_def PIMutexUnlock_def Let_def)
next
  assume "pi_owner_tid m AND FUTEX_TID_MASK \<noteq> t \<and> pi_owner_tid m \<noteq> 0"
  then show "PIMutexTryLock t m = (m, EBUSY)" "PIMutexUnlock unlock env t m = (m, EPERM)"
    "PIMutexDestroy m = (m, EBUSY)"
    using t by (auto simp: PIMutexTryLock_def PIMutexUnlock_def PIMutexDestroy_def Let_def)
qed

end
