(* ===== verification/Semaphore.thy ===== *)
theory Semaphore
  imports Bionic_Futex
begin

text \<open>
  POSIX semaphores (\<open>semaphore.cpp\<close>). The word holds a 31-bit signed value above the
  process-shared flag; -1 means that somebody may be waiting. Every atomic access and every futex
  call is one step of a thread. The two counters \<open>sm_taken\<close> and \<open>sm_posted\<close> observe the successful
  waits and posts; the code does not have them.
\<close>

section \<open>The word\<close>

abbreviation (input) SEM_VALUE_MAX :: int where "SEM_VALUE_MAX \<equiv> 0x3fffffff"
abbreviation (input) SEMCOUNT_SHARED_MASK :: u32 where "SEMCOUNT_SHARED_MASK \<equiv> 0x00000001"
abbreviation (input) SEMCOUNT_VALUE_MASK :: u32 where "SEMCOUNT_VALUE_MASK \<equiv> 0xfffffffe"
abbreviation (input) SEMCOUNT_VALUE_SHIFT :: nat where "SEMCOUNT_VALUE_SHIFT \<equiv> 1"

definition SEMCOUNT_FROM_VALUE :: "u32 \<Rightarrow> u32" where
  "SEMCOUNT_FROM_VALUE val = push_bit SEMCOUNT_VALUE_SHIFT val AND SEMCOUNT_VALUE_MASK"

definition SEMCOUNT_TO_VALUE :: "u32 \<Rightarrow> int" where
  "SEMCOUNT_TO_VALUE sval = drop_bit SEMCOUNT_VALUE_SHIFT (sint sval)"

definition SEMCOUNT_ONE :: u32 where "SEMCOUNT_ONE = SEMCOUNT_FROM_VALUE 1"

definition SEMCOUNT_MINUS_ONE :: u32 where "SEMCOUNT_MINUS_ONE = SEMCOUNT_FROM_VALUE (NOT 0)"

definition SEMCOUNT_DECREMENT :: "u32 \<Rightarrow> u32" where
  "SEMCOUNT_DECREMENT sval = (sval - push_bit SEMCOUNT_VALUE_SHIFT 1) AND SEMCOUNT_VALUE_MASK"

definition SEMCOUNT_INCREMENT :: "u32 \<Rightarrow> u32" where
  "SEMCOUNT_INCREMENT sval = (sval + push_bit SEMCOUNT_VALUE_SHIFT 1) AND SEMCOUNT_VALUE_MASK"

record 'k sem =
  sm_count :: u32
  sm_futex :: 'k
  sm_taken :: nat
  sm_posted :: nat

definition SEM_GET_SHARED :: "'k sem \<Rightarrow> u32" where
  "SEM_GET_SHARED g = sm_count g AND SEMCOUNT_SHARED_MASK"

text \<open>Results are the return value and the error number stored, if one is.\<close>

definition sem_init :: "int \<Rightarrow> u32 \<Rightarrow> 'k \<Rightarrow> 'k sem \<Rightarrow> 'k sem \<times> int \<times> int option" where
  "sem_init pshared value k g =
     (if uint value > SEM_VALUE_MAX then (g, - 1, Some EINVAL)
      else
        let count = SEMCOUNT_FROM_VALUE value;
            count = (if pshared \<noteq> 0 then count OR SEMCOUNT_SHARED_MASK else count) in
        (\<lparr>sm_count = count, sm_futex = k, sm_taken = 0, sm_posted = 0\<rparr>, 0, None))"

definition sem_destroy :: int where "sem_destroy = 0"

abbreviation (input) ENOSYS :: int where "ENOSYS \<equiv> 38"

text \<open>\<open>SEM_FAILED\<close> is the null pointer.\<close>

definition sem_open :: "int \<times> int option" where "sem_open = (0, Some ENOSYS)"

definition sem_close :: "int \<times> int option" where "sem_close = (- 1, Some ENOSYS)"

definition sem_unlink :: "int \<times> int option" where "sem_unlink = (- 1, Some ENOSYS)"

definition sem_getvalue :: "'k sem \<Rightarrow> int \<times> int" where
  "sem_getvalue g =
     (let val = SEMCOUNT_TO_VALUE (sm_count g) in (if val < 0 then 0 else val, 0))"

section \<open>Threads\<close>

text \<open>
  \<open>sem_call\<close> says which function a thread runs: \<open>sem_wait\<close>, or \<open>__sem_timedwait\<close> with its clock and
  timeout. A place in a compare-exchange loop carries \<open>shared\<close> and \<open>old_value\<close>. The loops leave
  as soon as the value read is out of range, without another access.
\<close>

datatype sem_call = SemWait | SemTimed bool "timespec option"

datatype sem_pc =
    SmOut
  | SmWaitStart
  | SmTryLoad sem_call
  | SmTryCas sem_call u32 u32
  | SmShared sem_call
  | SmDecLoad sem_call u32
  | SmDecCas sem_call u32 u32 u32
  | SmWait sem_call u32
  | SmSleep sem_call u32
  | SmPostStart
  | SmIncLoad u32
  | SmIncCas u32 u32 u32
  | SmWake u32

record sem_thread =
  st_pc :: sem_pc
  st_ret :: int
  st_errno :: "int option"

definition sm_goto :: "sem_thread \<Rightarrow> sem_pc \<Rightarrow> sem_thread" where
  "sm_goto l pc = l\<lparr>st_pc := pc\<rparr>"

definition sm_return :: "sem_thread \<Rightarrow> sem_thread" where
  "sm_return l = l\<lparr>st_pc := SmOut, st_ret := 0\<rparr>"

definition sm_fail :: "sem_thread \<Rightarrow> int \<Rightarrow> sem_thread" where
  "sm_fail l e = l\<lparr>st_pc := SmOut, st_ret := - 1, st_errno := Some e\<rparr>"

type_synonym 'k sem_outcomes = "('k sem \<times> sem_thread) list"

text \<open>\<open>__sem_dec\<close>: \<open>sem_dec_check\<close> is the head of the loop for the value just read.\<close>

definition sem_dec_check :: "sem_call \<Rightarrow> u32 \<Rightarrow> u32 \<Rightarrow> u32 \<Rightarrow> sem_thread \<Rightarrow> sem_thread" where
  "sem_dec_check c sh shared old_value l =
     (if SEMCOUNT_TO_VALUE old_value < 0 then sm_goto l (SmWait c sh)
      else sm_goto l (SmDecCas c sh shared old_value))"

definition sem_dec_step :: "'k sem \<Rightarrow> sem_thread \<Rightarrow> 'k sem_outcomes" where
  "sem_dec_step g l =
     (case st_pc l of
        SmDecLoad c sh \<Rightarrow>
          let old_value = sm_count g in
          [(g, sem_dec_check c sh (old_value AND SEMCOUNT_SHARED_MASK) old_value l)]
      | SmDecCas c sh shared old_value \<Rightarrow>
          (if sm_count g = old_value then
             [(if SEMCOUNT_TO_VALUE old_value > 0
               then (g\<lparr>sm_count := SEMCOUNT_DECREMENT old_value OR shared, sm_taken := sm_taken g + 1\<rparr>,
                     sm_return l)
               else (g\<lparr>sm_count := SEMCOUNT_DECREMENT old_value OR shared\<rparr>,
                     sm_goto l (SmWait c sh)))]
           else []) @ [(g, sem_dec_check c sh shared (sm_count g) l)]
      | _ \<Rightarrow> [])"

text \<open>\<open>__sem_trydec\<close>, as \<open>sem_trywait\<close> (\<open>SemWait\<close>) and \<open>__sem_timedwait\<close> use it.\<close>

definition sem_try_failed :: "sem_call \<Rightarrow> sem_thread \<Rightarrow> sem_thread" where
  "sem_try_failed c l =
     (case c of
        SemWait \<Rightarrow> sm_fail l EAGAIN
      | SemTimed rt abs_timeout \<Rightarrow>
          (case check_timespec abs_timeout False of
             None \<Rightarrow> l
           | Some result \<Rightarrow> if result \<noteq> 0 then sm_fail l result else sm_goto l (SmShared c)))"

definition sem_trydec_check :: "sem_call \<Rightarrow> u32 \<Rightarrow> u32 \<Rightarrow> sem_thread \<Rightarrow> sem_thread" where
  "sem_trydec_check c shared old_value l =
     (if SEMCOUNT_TO_VALUE old_value \<le> 0 then sem_try_failed c l
      else sm_goto l (SmTryCas c shared old_value))"

definition sem_trydec_step :: "'k sem \<Rightarrow> sem_thread \<Rightarrow> 'k sem_outcomes" where
  "sem_trydec_step g l =
     (case st_pc l of
        SmTryLoad c \<Rightarrow>
          let old_value = sm_count g in
          [(g, sem_trydec_check c (old_value AND SEMCOUNT_SHARED_MASK) old_value l)]
      | SmTryCas c shared old_value \<Rightarrow>
          (if sm_count g = old_value then
             [(g\<lparr>sm_count := SEMCOUNT_DECREMENT old_value OR shared, sm_taken := sm_taken g + 1\<rparr>,
               sm_return l)]
           else []) @ [(g, sem_trydec_check c shared (sm_count g) l)]
      | _ \<Rightarrow> [])"

text \<open>\<open>__sem_inc\<close>, and what \<open>sem_post\<close> does with the old value.\<close>

definition sem_inc_new :: "u32 \<Rightarrow> u32 \<Rightarrow> u32" where
  "sem_inc_new shared old_value =
     (if SEMCOUNT_TO_VALUE old_value < 0 then SEMCOUNT_ONE OR shared
      else SEMCOUNT_INCREMENT old_value OR shared)"

definition sem_inc_check :: "u32 \<Rightarrow> u32 \<Rightarrow> u32 \<Rightarrow> sem_thread \<Rightarrow> sem_thread" where
  "sem_inc_check sh shared old_value l =
     (if SEMCOUNT_TO_VALUE old_value = SEM_VALUE_MAX then sm_fail l EOVERFLOW
      else sm_goto l (SmIncCas sh shared old_value))"

definition sem_post_step :: "'k futex_ops \<Rightarrow> 'k sem \<Rightarrow> sem_thread \<Rightarrow> 'k sem_outcomes" where
  "sem_post_step fx g l =
     (case st_pc l of
        SmPostStart \<Rightarrow> [(g, sm_goto l (SmIncLoad (SEM_GET_SHARED g)))]
      | SmIncLoad sh \<Rightarrow>
          let old_value = sm_count g in
          [(g, sem_inc_check sh (old_value AND SEMCOUNT_SHARED_MASK) old_value l)]
      | SmIncCas sh shared old_value \<Rightarrow>
          (if sm_count g = old_value then
             [(g\<lparr>sm_count := sem_inc_new shared old_value, sm_posted := sm_posted g + 1\<rparr>,
               if SEMCOUNT_TO_VALUE old_value < 0 then sm_goto l (SmWake sh) else sm_return l)]
           else []) @ [(g, sem_inc_check sh shared (sm_count g) l)]
      | SmWake sh \<Rightarrow>
          map (\<lambda>(k, r). (g\<lparr>sm_futex := k\<rparr>, sm_return l)) (fx_wake fx INT_MAX_nat (sm_futex g))
      | _ \<Rightarrow> [])"

text \<open>What the loops of \<open>sem_wait\<close> and \<open>__sem_timedwait\<close> do with the result of the futex wait.\<close>

definition sem_wait_result :: "bool \<Rightarrow> sem_call \<Rightarrow> u32 \<Rightarrow> int \<Rightarrow> sem_thread \<Rightarrow> sem_thread" where
  "sem_wait_result sdk24 c sh result l =
     (case c of
        SemWait \<Rightarrow> if sdk24 \<and> result = - EINTR then sm_fail l EINTR else sm_goto l (SmDecLoad c sh)
      | SemTimed _ _ \<Rightarrow>
          if result = - ETIMEDOUT \<or> result = - EINTR then sm_fail l (- result)
          else sm_goto l (SmDecLoad c sh))"

definition sem_wait_step ::
  "'k futex_ops \<Rightarrow> bool \<Rightarrow> tid \<Rightarrow> 'k sem \<Rightarrow> sem_thread \<Rightarrow> 'k sem_outcomes" where
  "sem_wait_step fx sdk24 t g l =
     (case st_pc l of
        SmWaitStart \<Rightarrow> [(g, sm_goto l (SmDecLoad SemWait (SEM_GET_SHARED g)))]
      | SmShared c \<Rightarrow> [(g, sm_goto l (SmDecLoad c (SEM_GET_SHARED g)))]
      | SmWait c sh \<Rightarrow>
          map (\<lambda>(k, r). (g\<lparr>sm_futex := k\<rparr>,
                 case r of None \<Rightarrow> sm_goto l (SmSleep c sh) | Some r \<Rightarrow> sem_wait_result sdk24 c sh r l))
            (fx_wait fx t (sm_count g) (sh OR SEMCOUNT_MINUS_ONE) (sm_futex g))
      | SmSleep c sh \<Rightarrow>
          map (\<lambda>(k, r). (g\<lparr>sm_futex := k\<rparr>, sem_wait_result sdk24 c sh r l)) (fx_leave fx t (sm_futex g))
      | _ \<Rightarrow> sem_dec_step g l)"

definition sem_timedwait :: "timespec option \<Rightarrow> sem_thread \<Rightarrow> sem_thread" where
  "sem_timedwait abs_timeout l = sm_goto l (SmTryLoad (SemTimed True abs_timeout))"

definition sem_timedwait_monotonic_np :: "timespec option \<Rightarrow> sem_thread \<Rightarrow> sem_thread" where
  "sem_timedwait_monotonic_np abs_timeout l = sm_goto l (SmTryLoad (SemTimed False abs_timeout))"

text \<open>\<open>sem_clockwait\<close> returns \<open>EINVAL\<close> itself, not -1, for an unknown clock.\<close>

definition sem_clockwait :: "int \<Rightarrow> timespec option \<Rightarrow> sem_thread \<Rightarrow> sem_thread" where
  "sem_clockwait clock abs_timeout l =
     (if clock = CLOCK_MONOTONIC then sem_timedwait_monotonic_np abs_timeout l
      else if clock = CLOCK_REALTIME then sem_timedwait abs_timeout l
      else l\<lparr>st_ret := EINVAL\<rparr>)"

definition sem_calls :: "(int \<times> timespec option) list \<Rightarrow> sem_thread \<Rightarrow> sem_thread list" where
  "sem_calls tmos l =
     [sm_goto l SmWaitStart, sm_goto l SmPostStart, sm_goto l (SmTryLoad SemWait)] @
     map (\<lambda>(clock, ts). sem_clockwait clock ts l) tmos"

definition sem_step ::
  "'k futex_ops \<Rightarrow> bool \<Rightarrow> (int \<times> timespec option) list \<Rightarrow> ('k sem, sem_thread) thread_step" where
  "sem_step fx sdk24 tmos t g l =
     (if st_pc l = SmOut then map (\<lambda>l'. (g, l')) (sem_calls tmos l)
      else sem_wait_step fx sdk24 t g l @ sem_trydec_step g l @ sem_post_step fx g l)"

section \<open>The word as a value and a flag\<close>

definition sem_word :: "int \<Rightarrow> bool \<Rightarrow> u32" where
  "sem_word v sh = of_int (2 * v + of_bool sh)"

definition sem_range :: "int \<Rightarrow> bool" where
  "sem_range v \<longleftrightarrow> - 1 \<le> v \<and> v \<le> SEM_VALUE_MAX"

lemma sem_word_value:
  assumes "sem_range v"
  shows "SEMCOUNT_TO_VALUE (sem_word v sh) = v"
proof -
  let ?x = "2 * v + of_bool sh"
  have "signed_take_bit 31 ?x = ?x"
    by (rule signed_take_bit_int_eq_self) (use assms in \<open>auto simp: sem_range_def\<close>)
  then have "sint (sem_word v sh) = ?x" unfolding sem_word_def by (subst sint_sbintrunc') simp
  then show ?thesis by (simp add: SEMCOUNT_TO_VALUE_def drop_bit_eq_div)
qed

lemma odd_sem_word: "odd (sem_word v sh) \<longleftrightarrow> sh"
  unfolding bit_0 [symmetric] sem_word_def by (simp add: bit_word_of_int_iff bit_0)

lemma sem_word_shared: "sem_word v sh AND 1 = of_bool sh"
  by (simp add: and_one_eq mod_2_eq_odd odd_sem_word)

lemma keep_shared:
  assumes "x AND 1 = b"
  shows "(x AND 0xfffffffe) OR b = (x :: u32)"
proof -
  have n: "(0xfffffffe :: u32) = NOT 1" by simp
  show ?thesis unfolding assms [symmetric] n by (auto simp: bit_eq_iff bit_simps)
qed

lemma sem_word_steps:
  "SEMCOUNT_DECREMENT (sem_word v sh) OR of_bool sh = sem_word (v - 1) sh"
  "SEMCOUNT_INCREMENT (sem_word v sh) OR of_bool sh = sem_word (v + 1) sh"
proof -
  have "sem_word v sh - push_bit 1 1 = sem_word (v - 1) sh" "sem_word v sh + push_bit 1 1 = sem_word (v + 1) sh"
    by (simp_all add: sem_word_def algebra_simps)
  then show "SEMCOUNT_DECREMENT (sem_word v sh) OR of_bool sh = sem_word (v - 1) sh"
    "SEMCOUNT_INCREMENT (sem_word v sh) OR of_bool sh = sem_word (v + 1) sh"
    unfolding SEMCOUNT_DECREMENT_def SEMCOUNT_INCREMENT_def
    by (simp_all only: keep_shared [OF sem_word_shared])
qed

lemma sem_word_consts:
  "SEMCOUNT_ONE OR of_bool sh = sem_word 1 sh" "of_bool sh OR SEMCOUNT_MINUS_ONE = sem_word (- 1) sh"
  by (cases sh; simp add: SEMCOUNT_ONE_def SEMCOUNT_MINUS_ONE_def SEMCOUNT_FROM_VALUE_def sem_word_def)+

lemma sem_word_inject: "sem_range v \<Longrightarrow> sem_range w \<Longrightarrow> sem_word v sh = sem_word w sh \<longleftrightarrow> v = w"
  by (metis sem_word_value)

lemma sem_init_word:
  assumes "sem_init pshared value k g0 = (g, 0, None)"
  shows "g = \<lparr>sm_count = sem_word (uint value) (pshared \<noteq> 0), sm_futex = k, sm_taken = 0, sm_posted = 0\<rparr>"
    and "uint value \<le> SEM_VALUE_MAX"
proof -
  show u: "uint value \<le> SEM_VALUE_MAX" using assms by (simp add: sem_init_def split: if_splits)
  have p: "push_bit 1 value = sem_word (uint value) False" by (simp add: sem_word_def)
  have f: "SEMCOUNT_FROM_VALUE value = sem_word (uint value) False"
    unfolding SEMCOUNT_FROM_VALUE_def p
    using keep_shared [OF sem_word_shared [of "uint value" False]] by simp
  have "sem_word (uint value) False OR 1 = sem_word (uint value) True"
    unfolding or_one_eq using odd_sem_word [of "uint value" False] by (simp add: sem_word_def)
  then show "g = \<lparr>sm_count = sem_word (uint value) (pshared \<noteq> 0), sm_futex = k, sm_taken = 0, sm_posted = 0\<rparr>"
    using assms u f by (cases "pshared \<noteq> 0") (auto simp: sem_init_def Let_def split: if_splits)
qed

section \<open>The invariant\<close>

definition sem_G :: "bool \<Rightarrow> int \<Rightarrow> unit \<Rightarrow> 'k sem \<Rightarrow> bool" where
  "sem_G sh init h g \<longleftrightarrow> (\<exists>v. sem_range v \<and> sm_count g = sem_word v sh \<and>
     max v 0 + int (sm_taken g) = init + int (sm_posted g))"

definition sem_pc_ok :: "bool \<Rightarrow> sem_pc \<Rightarrow> bool" where
  "sem_pc_ok sh pc \<longleftrightarrow>
     (case pc of
        SmTryCas _ s old \<Rightarrow> s = of_bool sh \<and> (\<exists>v. old = sem_word v sh \<and> sem_range v \<and> 0 < v)
      | SmDecLoad _ w \<Rightarrow> w = of_bool sh
      | SmDecCas _ w s old \<Rightarrow> w = of_bool sh \<and> s = of_bool sh \<and> (\<exists>v. old = sem_word v sh \<and> sem_range v \<and> 0 \<le> v)
      | SmWait _ w \<Rightarrow> w = of_bool sh
      | SmSleep _ w \<Rightarrow> w = of_bool sh
      | SmIncCas _ s old \<Rightarrow> s = of_bool sh \<and> (\<exists>v. old = sem_word v sh \<and> sem_range v \<and> v \<noteq> SEM_VALUE_MAX)
      | _ \<Rightarrow> True)"

definition sem_L :: "bool \<Rightarrow> unit \<Rightarrow> tid \<Rightarrow> sem_thread \<Rightarrow> bool" where
  "sem_L sh h t l \<longleftrightarrow> sem_pc_ok sh (st_pc l)"

lemma sem_pc_ok_simps [simp]:
  "sem_pc_ok sh SmOut" "sem_pc_ok sh SmWaitStart" "sem_pc_ok sh (SmTryLoad c)"
  "sem_pc_ok sh (SmShared c)" "sem_pc_ok sh SmPostStart" "sem_pc_ok sh (SmIncLoad w)" "sem_pc_ok sh (SmWake w)"
  "sem_pc_ok sh (SmDecLoad c w) \<longleftrightarrow> w = of_bool sh" "sem_pc_ok sh (SmWait c w) \<longleftrightarrow> w = of_bool sh"
  "sem_pc_ok sh (SmSleep c w) \<longleftrightarrow> w = of_bool sh"
  "sem_pc_ok sh (SmTryCas c s old) \<longleftrightarrow> s = of_bool sh \<and> (\<exists>v. old = sem_word v sh \<and> sem_range v \<and> 0 < v)"
  "sem_pc_ok sh (SmDecCas c w s old) \<longleftrightarrow> w = of_bool sh \<and> s = of_bool sh \<and>
     (\<exists>v. old = sem_word v sh \<and> sem_range v \<and> 0 \<le> v)"
  "sem_pc_ok sh (SmIncCas x s old) \<longleftrightarrow> s = of_bool sh \<and>
     (\<exists>v. old = sem_word v sh \<and> sem_range v \<and> v \<noteq> SEM_VALUE_MAX)"
  by (simp_all add: sem_pc_ok_def)

lemmas sm_outcome_defs = sm_goto_def sm_return_def sm_fail_def

lemma sem_G_read:
  assumes "sem_G sh init h g"
  obtains v where "sem_range v" "sm_count g = sem_word v sh" "sm_count g AND 1 = of_bool sh"
    "SEMCOUNT_TO_VALUE (sm_count g) = v" "max v 0 + int (sm_taken g) = init + int (sm_posted g)"
  using assms sem_word_value sem_word_shared unfolding sem_G_def by metis

lemma sem_checks_ok:
  assumes v: "sem_range v" and l: "sem_pc_ok sh (st_pc l)"
  shows "sem_pc_ok sh (st_pc (sem_dec_check c (of_bool sh) (of_bool sh) (sem_word v sh) l))"
    and "sem_pc_ok sh (st_pc (sem_trydec_check c (of_bool sh) (sem_word v sh) l))"
    and "sem_pc_ok sh (st_pc (sem_inc_check w (of_bool sh) (sem_word v sh) l))"
    and "sem_pc_ok sh (st_pc (sem_wait_result sdk24 c (of_bool sh) r l))"
proof -
  have ex: "\<exists>u. sem_word v sh = sem_word u sh \<and> sem_range u \<and> P u" if "P v" for P using v that by blast
  show "sem_pc_ok sh (st_pc (sem_dec_check c (of_bool sh) (of_bool sh) (sem_word v sh) l))"
    using ex [of "\<lambda>u. 0 \<le> u"] by (simp add: sem_dec_check_def sem_word_value [OF v] sm_goto_def)
  show "sem_pc_ok sh (st_pc (sem_trydec_check c (of_bool sh) (sem_word v sh) l))"
    using ex [of "\<lambda>u. 0 < u"] l
    by (simp add: sem_trydec_check_def sem_try_failed_def sem_word_value [OF v] sm_outcome_defs
        split: sem_call.split option.split)
  show "sem_pc_ok sh (st_pc (sem_inc_check w (of_bool sh) (sem_word v sh) l))"
    using ex [of "\<lambda>u. u \<noteq> SEM_VALUE_MAX"]
    by (simp add: sem_inc_check_def sem_word_value [OF v] sm_outcome_defs)
  show "sem_pc_ok sh (st_pc (sem_wait_result sdk24 c (of_bool sh) r l))"
    by (simp add: sem_wait_result_def sm_outcome_defs split: sem_call.split)
qed

lemma sem_step_frame:
  assumes "sem_G sh init h g" "sm_count g' = sm_count g" "sm_taken g' = sm_taken g" "sm_posted g' = sm_posted g"
  shows "sem_G sh init h g'"
  using assms by (simp add: sem_G_def)

lemma sem_wait_step_inv:
  assumes G: "sem_G sh init h g" and L: "sem_pc_ok sh (st_pc l)"
    and st: "(g', l') \<in> set (sem_wait_step fx sdk24 t g l)"
  shows "sem_G sh init h g' \<and> sem_pc_ok sh (st_pc l')"
proof -
  obtain v where v: "sem_range v" "sm_count g = sem_word v sh" "sm_count g AND 1 = of_bool sh"
    "SEMCOUNT_TO_VALUE (sm_count g) = v" "max v 0 + int (sm_taken g) = init + int (sm_posted g)"
    using G by (rule sem_G_read)
  note chk = sem_checks_ok [OF v(1) L]
  show ?thesis
  proof (cases "st_pc l")
    case (SmDecCas c w s old)
    then have w: "w = of_bool sh" "s = of_bool sh" and old: "\<exists>u. old = sem_word u sh \<and> sem_range u \<and> 0 \<le> u"
      using L by (simp_all add: sem_pc_ok_def)
    consider "sm_count g = old" "0 < v" "l' = sm_return l"
        "g' = g\<lparr>sm_count := sem_word (v - 1) sh, sm_taken := sm_taken g + 1\<rparr>"
      | "sm_count g = old" "v = 0" "l' = sm_goto l (SmWait c w)" "g' = g\<lparr>sm_count := sem_word (v - 1) sh\<rparr>"
      | "g' = g" "l' = sem_dec_check c w s (sm_count g) l"
    proof -
      have "0 \<le> v" if "sm_count g = old" using old that v sem_word_inject by auto
      then show ?thesis using st that v w
        by (auto simp: sem_wait_step_def SmDecCas sem_dec_step_def sem_word_steps sem_word_value split: if_splits)
    qed
    then show ?thesis
    proof cases
      case 1
      moreover have "max (v - 1) 0 + int (sm_taken g + 1) = init + int (sm_posted g)" using 1(2) v(5) by simp
      ultimately show ?thesis using v(1) by (auto simp: sem_G_def sm_outcome_defs sem_range_def intro!: exI [of _ "v - 1"])
    next
      case 2
      moreover have "max (v - 1) 0 + int (sm_taken g) = init + int (sm_posted g)" using 2(2) v(5) by simp
      ultimately show ?thesis using w by (auto simp: sem_G_def sm_outcome_defs sem_range_def intro!: exI [of _ "v - 1"])
    next
      case 3
      then show ?thesis using G chk(1) w v(2) by simp
    qed
  next
    case (SmDecLoad c w)
    then have "g' = g" "l' = sem_dec_check c (of_bool sh) (of_bool sh) (sem_word v sh) l"
      using st L v by (simp_all add: sem_wait_step_def sem_dec_step_def Let_def)
    then show ?thesis using G chk(1) by simp
  next
    case (SmWait c w)
    then obtain k r where "g' = g\<lparr>sm_futex := k\<rparr>"
      "l' = (case r of None \<Rightarrow> sm_goto l (SmSleep c w) | Some r \<Rightarrow> sem_wait_result sdk24 c w r l)"
      using st by (auto simp: sem_wait_step_def)
    then show ?thesis using sem_step_frame [OF G, of g'] chk(4) L SmWait
      by (cases r) (simp_all add: sm_goto_def)
  next
    case (SmSleep c w)
    then obtain k r where "g' = g\<lparr>sm_futex := k\<rparr>" "l' = sem_wait_result sdk24 c w r l"
      using st by (auto simp: sem_wait_step_def)
    then show ?thesis using sem_step_frame [OF G, of g'] chk(4) L SmSleep by simp
  qed (use st G v(3) in \<open>simp_all add: sem_wait_step_def sem_dec_step_def sm_goto_def SEM_GET_SHARED_def\<close>)
qed

lemma sem_trydec_step_inv:
  assumes G: "sem_G sh init h g" and L: "sem_pc_ok sh (st_pc l)"
    and st: "(g', l') \<in> set (sem_trydec_step g l)"
  shows "sem_G sh init h g' \<and> sem_pc_ok sh (st_pc l')"
proof -
  obtain v where v: "sem_range v" "sm_count g = sem_word v sh" "sm_count g AND 1 = of_bool sh"
    "SEMCOUNT_TO_VALUE (sm_count g) = v" "max v 0 + int (sm_taken g) = init + int (sm_posted g)"
    using G by (rule sem_G_read)
  note chk = sem_checks_ok [OF v(1) L]
  show ?thesis
  proof (cases "st_pc l")
    case (SmTryLoad c)
    with st v G chk(2) [of c] show ?thesis by (simp add: sem_trydec_step_def Let_def)
  next
    case (SmTryCas c s old)
    then have w: "s = of_bool sh" and old: "\<exists>u. old = sem_word u sh \<and> sem_range u \<and> 0 < u"
      using L by simp_all
    have pos: "0 < v" if "sm_count g = old" using old that v(1,2) sem_word_inject by auto
    consider "0 < v" "l' = sm_return l" "g' = g\<lparr>sm_count := sem_word (v - 1) sh, sm_taken := sm_taken g + 1\<rparr>"
      | "g' = g" "l' = sem_trydec_check c s (sm_count g) l"
      using st pos v(2) w by (auto simp: sem_trydec_step_def SmTryCas sem_word_steps split: if_splits)
    then show ?thesis
    proof cases
      case 1
      moreover have "max (v - 1) 0 + int (sm_taken g + 1) = init + int (sm_posted g)" using 1(1) v(5) by simp
      ultimately show ?thesis using v(1)
        by (auto simp: sem_G_def sm_outcome_defs sem_range_def intro!: exI [of _ "v - 1"])
    next
      case 2
      then show ?thesis using G chk(2) w v(2) by simp
    qed
  qed (use st in \<open>simp_all add: sem_trydec_step_def\<close>)
qed

lemma sem_post_step_inv:
  assumes G: "sem_G sh init h g" and L: "sem_pc_ok sh (st_pc l)"
    and st: "(g', l') \<in> set (sem_post_step fx g l)"
  shows "sem_G sh init h g' \<and> sem_pc_ok sh (st_pc l')"
proof -
  obtain v where v: "sem_range v" "sm_count g = sem_word v sh" "sm_count g AND 1 = of_bool sh"
    "SEMCOUNT_TO_VALUE (sm_count g) = v" "max v 0 + int (sm_taken g) = init + int (sm_posted g)"
    using G by (rule sem_G_read)
  note chk = sem_checks_ok [OF v(1) L]
  show ?thesis
  proof (cases "st_pc l")
    case (SmIncLoad w)
    with st v G chk(3) [of w] show ?thesis by (simp add: sem_post_step_def Let_def)
  next
    case (SmIncCas w s old)
    then have s: "s = of_bool sh" and old: "\<exists>u. old = sem_word u sh \<and> sem_range u \<and> u \<noteq> SEM_VALUE_MAX"
      using L by simp_all
    have lt: "v \<noteq> SEM_VALUE_MAX" if "sm_count g = old" using old that v(1,2) sem_word_inject by auto
    have new: "sem_inc_new s (sm_count g) = sem_word (max v 0 + 1) sh"
      using v(1,2,4) by (auto simp: sem_inc_new_def s sem_word_steps sem_word_consts sem_range_def max_def)
    consider "v \<noteq> SEM_VALUE_MAX" "sem_pc_ok sh (st_pc l')"
        "g' = g\<lparr>sm_count := sem_word (max v 0 + 1) sh, sm_posted := sm_posted g + 1\<rparr>"
      | "g' = g" "l' = sem_inc_check w s (sm_count g) l"
      using st lt new by (auto simp: sem_post_step_def SmIncCas sm_outcome_defs split: if_splits)
    then show ?thesis
    proof cases
      case 1
      moreover have "max (max v 0 + 1) 0 + int (sm_taken g) = init + int (sm_posted g + 1)" using v(5) by simp
      ultimately show ?thesis using v(1)
        by (auto simp: sem_G_def sem_range_def intro!: exI [of _ "max v 0 + 1"])
    next
      case 2
      then show ?thesis using G chk(3) s v(2) by simp
    qed
  next
    case (SmWake w)
    then obtain k where "g' = g\<lparr>sm_futex := k\<rparr>" "l' = sm_return l"
      using st by (auto simp: sem_post_step_def)
    then show ?thesis using sem_step_frame [OF G, of g'] by (simp add: sm_outcome_defs)
  qed (use st G in \<open>simp_all add: sem_post_step_def sm_goto_def\<close>)
qed

lemma sem_step_ghost:
  assumes "sem_G sh init h g" "sem_L sh h t l" "(g', l') \<in> set (sem_step fx sdk24 tmos t g l)"
  shows "\<exists>h'. sem_G sh init h' g' \<and> sem_L sh h' t l' \<and> (\<forall>u m. u \<noteq> t \<longrightarrow> sem_L sh h u m \<longrightarrow> sem_L sh h' u m)"
proof -
  have call: "sem_pc_ok sh (st_pc m)" if "m \<in> set (sem_calls tmos l)" "st_pc l = SmOut" for m
    using that by (auto simp: sem_calls_def sem_clockwait_def sem_timedwait_def
        sem_timedwait_monotonic_np_def sm_goto_def)
  note L = assms(2) [unfolded sem_L_def]
  have "sem_G sh init h g' \<and> sem_pc_ok sh (st_pc l')"
  proof (cases "st_pc l = SmOut")
    case True
    with assms(1,3) call show ?thesis by (auto simp: sem_step_def)
  next
    case False
    with assms(3) consider "(g', l') \<in> set (sem_wait_step fx sdk24 t g l)"
      | "(g', l') \<in> set (sem_trydec_step g l)" | "(g', l') \<in> set (sem_post_step fx g l)"
      by (auto simp: sem_step_def)
    then show ?thesis
      by cases (rule sem_wait_step_inv [OF assms(1) L] sem_trydec_step_inv [OF assms(1) L]
          sem_post_step_inv [OF assms(1) L]; assumption)+
  qed
  then have "sem_G sh init h g' \<and> sem_L sh h t l' \<and> (\<forall>u m. u \<noteq> t \<longrightarrow> sem_L sh h u m \<longrightarrow> sem_L sh h u m)"
    by (simp add: sem_L_def)
  then show ?thesis by (rule exI)
qed

interpretation semaphore: par_ghost "sem_step fx sdk24 tmos" "sem_G sh init" "sem_L sh" for fx sdk24 tmos sh init
  by unfold_locales (rule sem_step_ghost)

section \<open>Wake-ups\<close>

abbreviation sem_flagged :: "'k sem \<Rightarrow> bool" where
  "sem_flagged g \<equiv> SEMCOUNT_TO_VALUE (sm_count g) < 0"

definition sem_duty :: "sem_thread \<Rightarrow> bool" where
  "sem_duty l \<longleftrightarrow> (\<exists>w. st_pc l = SmWake w)"

definition sem_known :: "'k sem \<Rightarrow> tid \<Rightarrow> sem_thread \<Rightarrow> bool" where
  "sem_known g t l \<longleftrightarrow> (\<exists>sh init h. sem_G sh init h g \<and> sem_L sh h t l)"

abbreviation sem_kind where
  "sem_kind fx t g l g' l' \<equiv> wake_all_step fx sm_futex sem_duty sem_flagged t g l g' l'"

lemma sem_wait_step_kind:
  assumes G: "sem_G sh init h g" and L: "sem_pc_ok sh (st_pc l)"
    and st: "(g', l') \<in> set (sem_wait_step fx sdk24 t g l)"
  shows "sem_kind fx t g l g' l'"
proof -
  obtain v where v: "sem_range v" "sm_count g = sem_word v sh" "SEMCOUNT_TO_VALUE (sm_count g) = v"
    using G by (rule sem_G_read)
  show ?thesis
  proof (cases "st_pc l")
    case (SmDecCas c w s old)
    have "sm_futex g' = sm_futex g" using st SmDecCas
      by (auto simp: sem_wait_step_def sem_dec_step_def split: if_splits)
    moreover have "sm_count g' = sm_count g" if "v < 0"
    proof -
      obtain u where "old = sem_word u sh" "sem_range u" "0 \<le> u" using L SmDecCas by auto
      then have "sm_count g \<noteq> old" using that v sem_word_inject by auto
      then show ?thesis using st SmDecCas by (auto simp: sem_wait_step_def sem_dec_step_def)
    qed
    ultimately show ?thesis using v(3) SmDecCas by (intro wake_all_quietI) (auto simp: sem_duty_def)
  next
    case (SmWait c w)
    then obtain k r where w: "(k, r) \<in> set (fx_wait fx t (sm_count g) (w OR SEMCOUNT_MINUS_ONE) (sm_futex g))"
      and g': "g' = g\<lparr>sm_futex := k\<rparr>" using st by (auto simp: sem_wait_step_def)
    have "w OR SEMCOUNT_MINUS_ONE = sem_word (- 1) sh" using L SmWait by (simp add: sem_word_consts)
    moreover have "SEMCOUNT_TO_VALUE (sem_word (- 1) sh) < 0" by (simp add: sem_word_value sem_range_def)
    ultimately show ?thesis using w g' SmWait
      by (intro wake_all_waitI [where r = r and v = "sm_count g" and e = "w OR SEMCOUNT_MINUS_ONE"])
        (auto simp: sem_duty_def)
  next
    case (SmSleep c w)
    then obtain k r where "(k, r) \<in> set (fx_leave fx t (sm_futex g))" "g' = g\<lparr>sm_futex := k\<rparr>"
      using st by (auto simp: sem_wait_step_def)
    then show ?thesis using SmSleep by (intro wake_all_leaveI [where r = r]) (auto simp: sem_duty_def)
  qed (use st in \<open>auto simp: sem_wait_step_def sem_dec_step_def Let_def sem_duty_def intro!: wake_all_quietI\<close>)
qed

lemma sem_trydec_step_kind:
  assumes G: "sem_G sh init h g" and L: "sem_pc_ok sh (st_pc l)" and st: "(g', l') \<in> set (sem_trydec_step g l)"
  shows "sem_kind fx t g l g' l'"
proof -
  obtain v where v: "sem_range v" "sm_count g = sem_word v sh" "SEMCOUNT_TO_VALUE (sm_count g) = v"
    using G by (rule sem_G_read)
  show ?thesis
  proof (cases "st_pc l")
    case (SmTryCas c s old)
    have "sm_futex g' = sm_futex g" using st SmTryCas by (auto simp: sem_trydec_step_def split: if_splits)
    moreover have "sm_count g' = sm_count g" if "v < 0"
    proof -
      obtain u where "old = sem_word u sh" "sem_range u" "0 < u" using L SmTryCas by auto
      then have "sm_count g \<noteq> old" using that v sem_word_inject by auto
      then show ?thesis using st SmTryCas by (auto simp: sem_trydec_step_def)
    qed
    ultimately show ?thesis using v(3) SmTryCas by (intro wake_all_quietI) (auto simp: sem_duty_def)
  qed (use st in \<open>auto simp: sem_trydec_step_def Let_def sem_duty_def intro!: wake_all_quietI\<close>)
qed

lemma sem_post_step_kind:
  assumes st: "(g', l') \<in> set (sem_post_step fx g l)"
  shows "sem_kind fx t g l g' l'"
proof (cases "st_pc l")
  case (SmIncCas w s old)
  with st show ?thesis
    by (intro wake_all_quietI) (auto simp: sem_post_step_def sem_duty_def sm_outcome_defs split: if_splits)
next
  case (SmWake w)
  then obtain k r where "(k, r) \<in> set (fx_wake fx INT_MAX_nat (sm_futex g))" "g' = g\<lparr>sm_futex := k\<rparr>"
    using st by (auto simp: sem_post_step_def)
  then show ?thesis by (intro wake_all_wakeI [where r = r]) simp
qed (use st in \<open>auto simp: sem_post_step_def Let_def sem_duty_def intro!: wake_all_quietI\<close>)

interpretation sem_sleep: wake_all_client "sem_step fx sdk24 tmos" fx sm_futex sem_duty sem_flagged sem_known
  for fx sdk24 tmos
proof unfold_locales
  fix g t l g' l'
  assume "sem_known g t l" and st: "(g', l') \<in> set (sem_step fx sdk24 tmos t g l)"
  then obtain sh init h where G: "sem_G sh init h g" and L: "sem_pc_ok sh (st_pc l)"
    by (auto simp: sem_known_def sem_L_def)
  show "sem_kind fx t g l g' l'"
  proof (cases "st_pc l = SmOut")
    case True
    with st show ?thesis by (intro wake_all_quietI) (auto simp: sem_step_def sem_duty_def)
  next
    case False
    with st consider "(g', l') \<in> set (sem_wait_step fx sdk24 t g l)"
      | "(g', l') \<in> set (sem_trydec_step g l)" | "(g', l') \<in> set (sem_post_step fx g l)"
      by (auto simp: sem_step_def)
    then show ?thesis
      by cases (rule sem_wait_step_kind [OF G L] sem_trydec_step_kind [OF G L] sem_post_step_kind; assumption)+
  qed
qed

section \<open>Properties\<close>

abbreviation sem_idle :: sem_thread where
  "sem_idle \<equiv> \<lparr>st_pc = SmOut, st_ret = 0, st_errno = None\<rparr>"

lemma sem_reach:
  assumes "sem_init pshared value k g00 = (g0, 0, None)"
    and "par_reach (sem_step fx sdk24 tmos) (g0, \<lambda>_. sem_idle) (g, ls)"
  obtains h where "sem_G (pshared \<noteq> 0) (uint value) h g" "\<And>t. sem_L (pshared \<noteq> 0) h t (ls t)"
proof -
  note i = sem_init_word [OF assms(1)]
  have "sem_G (pshared \<noteq> 0) (uint value) () g0"
    unfolding sem_G_def i(1) by (intro exI [of _ "uint value"]) (use i(2) in \<open>auto simp: sem_range_def intro: order_trans [OF _ uint_ge_0]\<close>)
  then show thesis
    by (rule semaphore.ghost_reach [OF assms(2)]) (auto simp: sem_L_def intro: that)
qed

text \<open>C4. A semaphore hands out what it was given. In every interleaving the value that
  \<open>sem_getvalue\<close> reports is between 0 and \<open>SEM_VALUE_MAX\<close>, and together with the number of
  successful waits it is the initial value plus the number of successful posts; in particular
  no more waits succeed than the initial value and the posts allow.\<close>

theorem sem_conservation:
  assumes "sem_init pshared value k g00 = (g0, 0, None)"
    and "par_reach (sem_step fx sdk24 tmos) (g0, \<lambda>_. sem_idle) (g, ls)"
  shows "fst (sem_getvalue g) + int (sm_taken g) = uint value + int (sm_posted g) \<and>
    0 \<le> fst (sem_getvalue g) \<and> fst (sem_getvalue g) \<le> SEM_VALUE_MAX \<and>
    int (sm_taken g) \<le> uint value + int (sm_posted g)"
proof -
  from assms obtain h where "sem_G (pshared \<noteq> 0) (uint value) h g" by (rule sem_reach) auto
  then obtain v where "sem_range v" "SEMCOUNT_TO_VALUE (sm_count g) = v"
    "max v 0 + int (sm_taken g) = uint value + int (sm_posted g)" by (rule sem_G_read)
  then show ?thesis by (auto simp: sem_getvalue_def Let_def sem_range_def max_def split: if_splits)
qed

text \<open>C20. No lost wake-ups. If the futex behaves as documented and some thread is queued on the
  semaphore, then the value is negative, so that the next post wakes everybody, or a post is
  about to do so.\<close>

theorem sem_no_lost_wakeup:
  assumes "sem_init pshared value k g00 = (g0, 0, None)"
    and "par_reach (sem_step fx sdk24 tmos) (g0, \<lambda>_. sem_idle) (g, ls)"
    and "futex_laws fx" "\<And>t. \<not> fx_asleep fx k t" "fx_asleep fx (sm_futex g) t"
  shows "SEMCOUNT_TO_VALUE (sm_count g) < 0 \<or> (\<exists>u w. st_pc (ls u) = SmWake w)"
proof -
  have "sem_known g t (ls t)"
    if "par_reach (sem_step fx sdk24 tmos) (g0, \<lambda>_. sem_idle) (g, ls)" for g ls t
    using assms(1) that by (rule sem_reach) (auto simp: sem_known_def)
  moreover have "\<not> fx_asleep fx (sm_futex g0) t" for t
    using assms(4) sem_init_word(1) [OF assms(1)] by simp
  ultimately have "SEMCOUNT_TO_VALUE (sm_count g) < 0 \<or> (\<exists>u. sem_duty (ls u))"
    by (intro sem_sleep.all_asleep_reach [OF assms(3,2) _ _ assms(5)])
  then show ?thesis by (simp add: sem_duty_def)
qed

abbreviation sem_at :: "sem_pc \<Rightarrow> sem_thread" where
  "sem_at pc \<equiv> \<lparr>st_pc = pc, st_ret = 0, st_errno = None\<rparr>"

abbreviation sem_state :: "u32 \<Rightarrow> tid list \<Rightarrow> nat \<Rightarrow> nat \<Rightarrow> tid list sem" where
  "sem_state w q a b \<equiv> \<lparr>sm_count = w, sm_futex = q, sm_taken = a, sm_posted = b\<rparr>"

lemmas sem_run_simps = sem_step_def sem_calls_def sem_wait_step_def sem_trydec_step_def sem_post_step_def
  sem_dec_step_def sem_dec_check_def sem_trydec_check_def sem_inc_check_def sem_inc_new_def
  sem_wait_result_def SEM_GET_SHARED_def SEMCOUNT_TO_VALUE_def SEMCOUNT_FROM_VALUE_def SEMCOUNT_ONE_def
  SEMCOUNT_MINUS_ONE_def SEMCOUNT_DECREMENT_def SEMCOUNT_INCREMENT_def sm_outcome_defs Let_def
  futex_queue_def fun_upd_twist

lemma sem_init_example: "sem_init 0 1 [] (sem_state 7 [] 0 0) = (sem_state 2 [] 0 0, 0, None)"
  by (simp add: sem_init_def SEMCOUNT_FROM_VALUE_def)

theorem sem_conservation_witness:
  "fst (sem_getvalue (sem_state 2 [] 1 1)) + int (sm_taken (sem_state 2 [] 1 1)) =
    uint (1 :: u32) + int (sm_posted (sem_state 2 [] 1 1))"
proof -
  have "par_run (sem_step futex_queue True []) (sem_state 2 [] 0 0, \<lambda>_. sem_idle)
      [(1, 0), (1, 0), (1, 0), (1, 0), (2, 1), (2, 0), (2, 0), (2, 0)] =
    Some (sem_state 2 [] 1 1, (\<lambda>_. sem_idle)(1 := sem_idle, 2 := sem_idle))"
    by (simp add: sem_run_simps)
  from sem_conservation [OF sem_init_example par_run_reach [OF this], THEN conjunct1] show ?thesis .
qed

theorem sem_no_lost_wakeup_witness:
  "SEMCOUNT_TO_VALUE (sm_count (sem_state 0xfffffffe [1] 1 0)) < 0 \<or>
    (\<exists>(u :: tid) w. st_pc (((\<lambda>_. sem_idle)(1 := sem_at (SmSleep SemWait 0))) u) = SmWake w)"
proof -
  have "par_run (sem_step futex_queue True []) (sem_state 2 [] 0 0, \<lambda>_. sem_idle)
      [(1, 0), (1, 0), (1, 0), (1, 0), (1, 0), (1, 0), (1, 0), (1, 0), (1, 0)] =
    Some (sem_state 0xfffffffe [1] 1 0, (\<lambda>_. sem_idle)(1 := sem_at (SmSleep SemWait 0)))"
    by (simp add: sem_run_simps)
  note r = sem_no_lost_wakeup [OF sem_init_example par_run_reach [OF this] futex_queue_laws, where t = 1]
  have "\<not> fx_asleep futex_queue [] t" "fx_asleep futex_queue (sm_futex (sem_state 0xfffffffe [1] 1 0)) 1" for t
    by (simp_all add: futex_queue_def)
  from r [OF this] show ?thesis .
qed

end
