(* ===== verification/Pthread_Once.thy ===== *)
theory Pthread_Once
  imports Bionic_Futex
begin

text \<open>
  \<open>pthread_once.cpp\<close>. The control word goes from not started over underway to complete; every
  atomic access, the call of the routine and every futex call is one step of a thread. The
  routine is a parameter: a function on the part of the program state that only it writes.
  \<open>on_runs\<close> counts its calls and \<open>ot_done\<close> the calls of \<open>pthread_once\<close> a thread has returned from;
  the code has neither.
\<close>

abbreviation (input) ONCE_INITIALIZATION_NOT_YET_STARTED :: u32 where
  "ONCE_INITIALIZATION_NOT_YET_STARTED \<equiv> 0"
abbreviation (input) ONCE_INITIALIZATION_UNDERWAY :: u32 where "ONCE_INITIALIZATION_UNDERWAY \<equiv> 1"
abbreviation (input) ONCE_INITIALIZATION_COMPLETE :: u32 where "ONCE_INITIALIZATION_COMPLETE \<equiv> 2"

record ('k, 's) once =
  on_control :: u32
  on_futex :: 'k
  on_user :: 's
  on_runs :: nat

datatype once_pc = OnOut | OnLoad | OnCas u32 | OnInit | OnStore | OnWake | OnWait u32 | OnSleep

record once_thread =
  ot_pc :: once_pc
  ot_done :: nat

definition on_goto :: "once_thread \<Rightarrow> once_pc \<Rightarrow> once_thread" where
  "on_goto l pc = l\<lparr>ot_pc := pc\<rparr>"

definition on_return :: "once_thread \<Rightarrow> once_thread" where
  "on_return l = l\<lparr>ot_pc := OnOut, ot_done := ot_done l + 1\<rparr>"

text \<open>The head of the loop, for the value just read.\<close>

definition once_check :: "u32 \<Rightarrow> once_thread \<Rightarrow> once_thread" where
  "once_check old_value l =
     (if old_value = ONCE_INITIALIZATION_COMPLETE then on_return l else on_goto l (OnCas old_value))"

definition pthread_once_step ::
  "'k futex_ops \<Rightarrow> ('s \<Rightarrow> 's) \<Rightarrow> (('k, 's) once, once_thread) thread_step" where
  "pthread_once_step fx init_routine t g l =
     (case ot_pc l of
        OnOut \<Rightarrow> [(g, on_goto l OnLoad)]
      | OnLoad \<Rightarrow> [(g, once_check (on_control g) l)]
      | OnCas old_value \<Rightarrow>
          (if on_control g = old_value then
             [(g\<lparr>on_control := ONCE_INITIALIZATION_UNDERWAY\<rparr>,
               on_goto l (if old_value = ONCE_INITIALIZATION_NOT_YET_STARTED then OnInit
                          else OnWait old_value))]
           else []) @ [(g, once_check (on_control g) l)]
      | OnInit \<Rightarrow> [(g\<lparr>on_user := init_routine (on_user g), on_runs := on_runs g + 1\<rparr>, on_goto l OnStore)]
      | OnStore \<Rightarrow> [(g\<lparr>on_control := ONCE_INITIALIZATION_COMPLETE\<rparr>, on_goto l OnWake)]
      | OnWake \<Rightarrow>
          map (\<lambda>(k, r). (g\<lparr>on_futex := k\<rparr>, on_return l)) (fx_wake fx INT_MAX_nat (on_futex g))
      | OnWait old_value \<Rightarrow>
          map (\<lambda>(k, r). (g\<lparr>on_futex := k\<rparr>, on_goto l (case r of None \<Rightarrow> OnSleep | Some _ \<Rightarrow> OnLoad)))
            (fx_wait fx t (on_control g) old_value (on_futex g))
      | OnSleep \<Rightarrow> map (\<lambda>(k, r). (g\<lparr>on_futex := k\<rparr>, on_goto l OnLoad)) (fx_leave fx t (on_futex g)))"

abbreviation PTHREAD_ONCE_INIT :: "'k \<Rightarrow> 's \<Rightarrow> ('k, 's) once" where
  "PTHREAD_ONCE_INIT k s \<equiv> \<lparr>on_control = 0, on_futex = k, on_user = s, on_runs = 0\<rparr>"

section \<open>The invariant\<close>

text \<open>The ghost value is how far the initialisation is, and who does it.\<close>

datatype once_phase = NotStarted | Initializing tid | Initialized tid | Finished

definition once_G :: "('s \<Rightarrow> 's) \<Rightarrow> 's \<Rightarrow> once_phase \<Rightarrow> ('k, 's) once \<Rightarrow> bool" where
  "once_G f s h g \<longleftrightarrow>
     (case h of
        NotStarted \<Rightarrow> on_control g = 0 \<and> on_user g = s \<and> on_runs g = 0
      | Initializing _ \<Rightarrow> on_control g = 1 \<and> on_user g = s \<and> on_runs g = 0
      | Initialized _ \<Rightarrow> on_control g = 1 \<and> on_user g = f s \<and> on_runs g = 1
      | Finished \<Rightarrow> on_control g = 2 \<and> on_user g = f s \<and> on_runs g = 1)"

definition once_L :: "once_phase \<Rightarrow> tid \<Rightarrow> once_thread \<Rightarrow> bool" where
  "once_L h t l \<longleftrightarrow>
     (ot_pc l = OnInit \<longleftrightarrow> h = Initializing t) \<and> (ot_pc l = OnStore \<longleftrightarrow> h = Initialized t) \<and>
     (0 < ot_done l \<or> ot_pc l = OnWake \<longrightarrow> h = Finished) \<and>
     (\<forall>w. ot_pc l = OnCas w \<longrightarrow> w \<in> {0, 1}) \<and> (\<forall>w. ot_pc l = OnWait w \<longrightarrow> w = 1)"

definition once_ghost :: "once_phase \<Rightarrow> tid \<Rightarrow> once_thread \<Rightarrow> once_thread \<Rightarrow> once_phase" where
  "once_ghost h t l l' =
     (if ot_pc l' = OnInit then Initializing t else if ot_pc l' = OnStore then Initialized t
      else if ot_pc l = OnStore then Finished else h)"

lemma once_G_frame:
  "once_G f s h g \<Longrightarrow> on_control g' = on_control g \<Longrightarrow> on_user g' = on_user g \<Longrightarrow> on_runs g' = on_runs g \<Longrightarrow>
   once_G f s h g'"
  by (cases h) (simp_all add: once_G_def)

lemma once_read:
  assumes "once_G f s h g"
  shows "on_control g = 0 \<longleftrightarrow> h = NotStarted" "on_control g = 2 \<longleftrightarrow> h = Finished" "on_control g \<in> {0, 1, 2}"
  using assms by (auto simp: once_G_def split: once_phase.splits)

lemma once_check_L:
  assumes "once_G f s h g" "once_L h t l" "ot_pc l \<noteq> OnInit" "ot_pc l \<noteq> OnStore"
  shows "once_L h t (once_check (on_control g) l)"
  using assms once_read [OF assms(1)]
  by (auto simp: once_L_def once_check_def on_return_def on_goto_def)

lemma pthread_once_step_inv:
  assumes G: "once_G f s h g" and L: "once_L h t l" and st: "(g', l') \<in> set (pthread_once_step fx f t g l)"
  shows "once_G f s (once_ghost h t l l') g' \<and> once_L (once_ghost h t l l') t l'"
proof (cases "ot_pc l")
  case OnOut
  with st have "g' = g" "l' = on_goto l OnLoad" by (simp_all add: pthread_once_step_def)
  with OnOut G L show ?thesis by (simp add: once_L_def on_goto_def once_ghost_def)
next
  case OnLoad
  with st have e: "g' = g" "l' = once_check (on_control g) l" by (simp_all add: pthread_once_step_def)
  then have "once_ghost h t l l' = h" using OnLoad
    by (simp add: once_ghost_def once_check_def on_return_def on_goto_def)
  with e G once_check_L [OF G L] OnLoad show ?thesis by simp
next
  case (OnCas w)
  show ?thesis
  proof (cases "g' = g \<and> l' = once_check (on_control g) l")
    case True
    then have "once_ghost h t l l' = h" using OnCas
      by (simp add: once_ghost_def once_check_def on_return_def on_goto_def)
    with True G once_check_L [OF G L] OnCas show ?thesis by simp
  next
    case False
    with st OnCas have e: "on_control g = w" "g' = g\<lparr>on_control := 1\<rparr>"
      "l' = on_goto l (if w = 0 then OnInit else OnWait w)"
      by (auto simp: pthread_once_step_def split: if_splits)
    show ?thesis
    proof (cases "w = 0")
      case True
      with e OnCas once_read(1) [OF G] have h: "h = NotStarted" by simp
      with e True G L OnCas show ?thesis
        by (simp add: once_ghost_def on_goto_def once_G_def once_L_def)
    next
      case False
      with L OnCas have "w = 1" by (auto simp: once_L_def)
      with e have "g' = g" by simp
      with e False G L OnCas \<open>w = 1\<close> show ?thesis
        by (simp add: once_ghost_def on_goto_def once_L_def)
    qed
  qed
next
  case OnInit
  with L have "h = Initializing t" by (simp add: once_L_def)
  with st OnInit G L show ?thesis
    by (simp add: pthread_once_step_def once_ghost_def on_goto_def once_G_def once_L_def)
next
  case OnStore
  with L have "h = Initialized t" by (simp add: once_L_def)
  with st OnStore G L show ?thesis
    by (simp add: pthread_once_step_def once_ghost_def on_goto_def once_G_def once_L_def)
next
  case OnWake
  then obtain k where "g' = g\<lparr>on_futex := k\<rparr>" "l' = on_return l" using st by (auto simp: pthread_once_step_def)
  with OnWake G L show ?thesis
    by (simp add: once_ghost_def on_return_def once_L_def once_G_frame)
next
  case (OnWait w)
  then obtain k and r :: "int option" where "g' = g\<lparr>on_futex := k\<rparr>" "l' = on_goto l (case r of None \<Rightarrow> OnSleep | Some _ \<Rightarrow> OnLoad)"
    using st by (auto simp: pthread_once_step_def)
  with OnWait G L show ?thesis
    by (cases r) (simp_all add: once_ghost_def on_goto_def once_L_def once_G_frame)
next
  case OnSleep
  then obtain k where "g' = g\<lparr>on_futex := k\<rparr>" "l' = on_goto l OnLoad" using st by (auto simp: pthread_once_step_def)
  with OnSleep G L show ?thesis
    by (simp add: once_ghost_def on_goto_def once_L_def once_G_frame)
qed

lemma once_others:
  assumes "once_L h t l" "once_L (once_ghost h t l l') t l'" "once_G f s h g" "once_G f s (once_ghost h t l l') g'"
    and "(g', l') \<in> set (pthread_once_step fx f t g l)" "u \<noteq> t" "once_L h u m"
  shows "once_L (once_ghost h t l l') u m"
proof (cases "once_ghost h t l l' = h")
  case False
  then have "ot_pc l' = OnInit \<or> ot_pc l = OnInit \<or> ot_pc l = OnStore"
    using assms(5) by (auto simp: once_ghost_def pthread_once_step_def once_check_def on_return_def on_goto_def
        split: if_splits once_pc.splits option.splits)
  moreover have "h = NotStarted" if "ot_pc l' = OnInit"
  proof -
    have "on_control g = 0"
      using assms(5) that by (auto simp: pthread_once_step_def once_check_def on_return_def on_goto_def
        split: if_splits once_pc.splits option.splits)
    then show ?thesis using once_read(1) [OF assms(3)] by simp
  qed
  ultimately have "h = NotStarted \<or> h = Initializing t \<or> h = Initialized t"
    using assms(1) by (auto simp: once_L_def)
  moreover have "once_ghost h t l l' \<in> {Initializing t, Initialized t, Finished}"
    using False by (auto simp: once_ghost_def split: if_splits)
  ultimately show ?thesis using assms(6,7) by (auto simp: once_L_def)
qed (use assms(7) in simp)

interpretation once: par_ghost "pthread_once_step fx f" "once_G f s" once_L for fx f s
proof unfold_locales
  fix h g t l g' l'
  assume a: "once_G f s h g" "once_L h t l" and st: "(g', l') \<in> set (pthread_once_step fx f t g l)"
  note n = pthread_once_step_inv [OF a st]
  with once_others [OF a(2) conjunct2 [OF n] a(1) conjunct1 [OF n] st]
  show "\<exists>h'. once_G f s h' g' \<and> once_L h' t l' \<and> (\<forall>u m. u \<noteq> t \<longrightarrow> once_L h u m \<longrightarrow> once_L h' u m)" by blast
qed

section \<open>Wake-ups\<close>

abbreviation once_flagged :: "('k, 's) once \<Rightarrow> bool" where
  "once_flagged g \<equiv> on_control g = ONCE_INITIALIZATION_UNDERWAY"

abbreviation once_duty :: "once_thread \<Rightarrow> bool" where
  "once_duty l \<equiv> ot_pc l = OnWake"

definition once_known :: "('k, 's) once \<Rightarrow> tid \<Rightarrow> once_thread \<Rightarrow> bool" where
  "once_known g t l \<longleftrightarrow> (\<exists>f s h. once_G f s h g \<and> once_L h t l)"

interpretation once_sleep: wake_all_client "pthread_once_step fx f" fx on_futex once_duty once_flagged once_known
  for fx f
proof unfold_locales
  fix g :: "('a, 'b) once" and t l g' l'
  assume "once_known g t l" and st: "(g', l') \<in> set (pthread_once_step fx f t g l)"
  then have cas: "ot_pc l = OnCas w \<Longrightarrow> w \<in> {0, 1}" and wt: "ot_pc l = OnWait w \<Longrightarrow> w = 1" for w
    by (auto simp: once_known_def once_L_def)
  show "wake_all_step fx on_futex once_duty once_flagged t g l g' l'"
  proof (cases "ot_pc l")
    case OnWake
    then obtain k r where "(k, r) \<in> set (fx_wake fx INT_MAX_nat (on_futex g))" "g' = g\<lparr>on_futex := k\<rparr>"
      using st by (auto simp: pthread_once_step_def)
    then show ?thesis by (intro wake_all_wakeI [where r = r]) simp
  next
    case (OnWait w)
    then obtain k r where "(k, r) \<in> set (fx_wait fx t (on_control g) w (on_futex g))" "g' = g\<lparr>on_futex := k\<rparr>"
      using st by (auto simp: pthread_once_step_def)
    with wt [OF OnWait] OnWait show ?thesis
      by (intro wake_all_waitI [where r = r and v = "on_control g" and e = w]) simp_all
  next
    case OnSleep
    then obtain k r where "(k, r) \<in> set (fx_leave fx t (on_futex g))" "g' = g\<lparr>on_futex := k\<rparr>"
      using st by (auto simp: pthread_once_step_def)
    with OnSleep show ?thesis by (intro wake_all_leaveI [where r = r]) simp_all
  qed (use st in \<open>auto simp: pthread_once_step_def on_goto_def intro!: wake_all_quietI split: if_splits\<close>)
qed

section \<open>Properties\<close>

abbreviation once_idle :: once_thread where
  "once_idle \<equiv> \<lparr>ot_pc = OnOut, ot_done = 0\<rparr>"

lemma once_reach:
  assumes "par_reach (pthread_once_step fx f) (PTHREAD_ONCE_INIT k s, \<lambda>_. once_idle) (g, ls)"
  obtains h where "once_G f s h g" "\<And>t. once_L h t (ls t)"
  by (rule once.ghost_reach [OF assms, of s NotStarted]) (auto simp: once_G_def once_L_def)

text \<open>C9. Exactly once. In every interleaving of calls of \<open>pthread_once\<close> on one control word the
  routine is called at most once; as soon as some call has returned, it has been called exactly
  once and what it wrote is there.\<close>

theorem pthread_once_exactly_once:
  assumes "par_reach (pthread_once_step fx init_routine) (PTHREAD_ONCE_INIT k s, \<lambda>_. once_idle) (g, ls)"
  shows "on_runs g \<le> 1 \<and> on_user g = (if on_runs g = 0 then s else init_routine s) \<and>
    (\<forall>t. 0 < ot_done (ls t) \<longrightarrow> on_runs g = 1 \<and> on_user g = init_routine s)"
  using assms
proof (rule once_reach)
  fix h
  assume G: "once_G init_routine s h g" and L: "\<And>t. once_L h t (ls t)"
  have "h = Finished" if "0 < ot_done (ls t)" for t using L [of t] that by (simp add: once_L_def)
  with G show ?thesis by (auto simp: once_G_def split: once_phase.splits)
qed

text \<open>C37. No lost wake-ups in \<open>pthread_once\<close>. If the futex behaves as documented and some thread is
  queued on the control word, then the routine is still running or its caller is about to wake
  everybody.\<close>

theorem pthread_once_no_lost_wakeup:
  assumes "par_reach (pthread_once_step fx init_routine) (PTHREAD_ONCE_INIT k s, \<lambda>_. once_idle) (g, ls)"
    and "futex_laws fx" "\<And>t. \<not> fx_asleep fx k t" "fx_asleep fx (on_futex g) t"
  shows "\<exists>u. ot_pc (ls u) \<in> {OnInit, OnStore, OnWake}"
proof -
  have kn: "once_known g t (ls t)"
    if "par_reach (pthread_once_step fx init_routine) (PTHREAD_ONCE_INIT k s, \<lambda>_. once_idle) (g, ls)" for g ls t
    using that by (rule once_reach) (auto simp: once_known_def)
  have "on_control g = 1 \<or> (\<exists>u. ot_pc (ls u) = OnWake)"
    by (rule once_sleep.all_asleep_reach [OF assms(2,1) _ _ assms(4)]) (use assms(3) kn in simp_all)
  moreover have "\<exists>u. ot_pc (ls u) \<in> {OnInit, OnStore}" if c: "on_control g = 1"
    using assms(1)
  proof (rule once_reach)
    fix h
    assume "once_G init_routine s h g" and L: "\<And>t. once_L h t (ls t)"
    with c obtain u where "h = Initializing u \<or> h = Initialized u"
      by (auto simp: once_G_def split: once_phase.splits)
    with L [of u] show ?thesis by (auto simp: once_L_def)
  qed
  ultimately show ?thesis by blast
qed

lemmas once_run_simps = pthread_once_step_def once_check_def on_goto_def on_return_def futex_queue_def fun_upd_twist

theorem pthread_once_exactly_once_witness:
  "on_user (\<lparr>on_control = 2, on_futex = [], on_user = 43, on_runs = 1\<rparr> :: (tid list, nat) once) = Suc 42"
proof -
  have "par_run (pthread_once_step futex_queue Suc) (PTHREAD_ONCE_INIT [] 42, \<lambda>_. once_idle)
      [(1, 0), (1, 0), (2, 0), (2, 0), (1, 0), (1, 0), (2, 0), (1, 0), (1, 0)] =
    Some (\<lparr>on_control = 2, on_futex = [], on_user = 43, on_runs = 1\<rparr>,
      (\<lambda>_. once_idle)(1 := \<lparr>ot_pc = OnOut, ot_done = 1\<rparr>, 2 := \<lparr>ot_pc = OnCas 1, ot_done = 0\<rparr>))"
    by (simp add: once_run_simps)
  note r = pthread_once_exactly_once [OF par_run_reach [OF this], THEN conjunct2, THEN conjunct2, THEN spec, of 1]
  from r show ?thesis by simp
qed

theorem pthread_once_no_lost_wakeup_witness:
  "\<exists>u :: tid. ot_pc (((\<lambda>_. once_idle)(1 := \<lparr>ot_pc = OnInit, ot_done = 0\<rparr>,
      2 := \<lparr>ot_pc = OnSleep, ot_done = 0\<rparr>)) u) \<in> {OnInit, OnStore, OnWake}"
proof -
  have "par_run (pthread_once_step futex_queue Suc) (PTHREAD_ONCE_INIT [] 42, \<lambda>_. once_idle)
      [(1, 0), (1, 0), (1, 0), (2, 0), (2, 0), (2, 0), (2, 0)] =
    Some (\<lparr>on_control = 1, on_futex = [2], on_user = 42, on_runs = 0\<rparr>,
      (\<lambda>_. once_idle)(1 := \<lparr>ot_pc = OnInit, ot_done = 0\<rparr>, 2 := \<lparr>ot_pc = OnSleep, ot_done = 0\<rparr>))"
    by (simp add: once_run_simps)
  note r = pthread_once_no_lost_wakeup [OF par_run_reach [OF this] futex_queue_laws, where t = 2]
  have "\<not> fx_asleep futex_queue [] t"
    "fx_asleep futex_queue (on_futex (\<lparr>on_control = 1, on_futex = [2], on_user = 42 :: nat, on_runs = 0\<rparr>)) 2" for t
    by (simp_all add: futex_queue_def)
  from r [OF this] show ?thesis .
qed

end
