(* ===== verification/Pthread_Barrier.thy ===== *)
theory Pthread_Barrier
  imports Bionic_Futex
begin

text \<open>
  Barriers (\<open>pthread_barrier.cpp\<close>). Every atomic access and every futex call is one step of a
  thread. A thread counts the barriers it has entered and left; the code does not.
\<close>

section \<open>Attributes\<close>

type_synonym barrierattr = u32

abbreviation (input) PTHREAD_PROCESS_PRIVATE :: int where "PTHREAD_PROCESS_PRIVATE \<equiv> 0"
abbreviation (input) PTHREAD_PROCESS_SHARED :: int where "PTHREAD_PROCESS_SHARED \<equiv> 1"

definition pthread_barrierattr_init :: "barrierattr \<times> int" where
  "pthread_barrierattr_init = (0, 0)"

definition pthread_barrierattr_destroy :: "barrierattr \<times> int" where
  "pthread_barrierattr_destroy = (0, 0)"

definition pthread_barrierattr_getpshared :: "barrierattr \<Rightarrow> int \<times> int" where
  "pthread_barrierattr_getpshared attr =
     (if attr AND 1 \<noteq> 0 then PTHREAD_PROCESS_SHARED else PTHREAD_PROCESS_PRIVATE, 0)"

definition pthread_barrierattr_setpshared :: "barrierattr \<Rightarrow> int \<Rightarrow> barrierattr \<times> int" where
  "pthread_barrierattr_setpshared attr pshared =
     (if pshared = PTHREAD_PROCESS_SHARED then attr OR 1 else attr AND NOT 1, 0)"

lemma pthread_barrierattr_pshared:
  "v \<in> {PTHREAD_PROCESS_PRIVATE, PTHREAD_PROCESS_SHARED} \<Longrightarrow>
   pthread_barrierattr_getpshared (fst (pthread_barrierattr_setpshared a v)) = (v, 0)"
  by (auto simp: pthread_barrierattr_getpshared_def pthread_barrierattr_setpshared_def and_one_eq
      mod_2_eq_odd bit_simps simp flip: bit_0)

section \<open>Barriers\<close>

datatype BarrierState = WAIT | RELEASE

fun BarrierState_word :: "BarrierState \<Rightarrow> u32" where
  "BarrierState_word WAIT = 0"
| "BarrierState_word RELEASE = 1"

record 'k barrier =
  br_init_count :: u32
  br_state :: BarrierState
  br_wait_count :: u32
  br_pshared :: bool
  br_futex :: 'k

definition pthread_barrier_init ::
  "barrierattr option \<Rightarrow> u32 \<Rightarrow> 'k \<Rightarrow> 'k barrier \<Rightarrow> 'k barrier \<times> int" where
  "pthread_barrier_init attr count k b =
     (if count = 0 then (b, EINVAL)
      else (\<lparr>br_init_count = count, br_state = WAIT, br_wait_count = 0,
             br_pshared = (case attr of None \<Rightarrow> False | Some a \<Rightarrow> a AND 1 \<noteq> 0), br_futex = k\<rparr>, 0))"

abbreviation (input) PTHREAD_BARRIER_SERIAL_THREAD :: int where
  "PTHREAD_BARRIER_SERIAL_THREAD \<equiv> - 1"

text \<open>
  The places of \<open>pthread_barrier_wait\<close>: the loop until the previous cycle is over, the loop that
  enters, the release by the last thread or the loop until it happens, the way out.
\<close>

datatype barrier_pc =
    BrOut
  | BrFirst
  | BrWait1
  | BrSleep1
  | BrLoad
  | BrCas u32
  | BrRelease u32
  | BrWake1 u32
  | BrCheck
  | BrWait2
  | BrSleep2
  | BrLeave
  | BrReset
  | BrWake2

record barrier_thread =
  bt_pc :: barrier_pc
  bt_result :: int
  bt_entered :: nat
  bt_left :: nat

definition br_goto :: "barrier_thread \<Rightarrow> barrier_pc \<Rightarrow> barrier_thread" where
  "br_goto l pc = l\<lparr>bt_pc := pc\<rparr>"

definition br_return :: "barrier_thread \<Rightarrow> barrier_thread" where
  "br_return l = l\<lparr>bt_pc := BrOut, bt_left := bt_left l + 1\<rparr>"

text \<open>The head of the entering loop, and what follows a successful compare-exchange.\<close>

definition barrier_check :: "'k barrier \<Rightarrow> u32 \<Rightarrow> barrier_thread \<Rightarrow> barrier_thread" where
  "barrier_check b prev_wait_count l =
     (if prev_wait_count \<ge> br_init_count b then l\<lparr>bt_pc := BrOut, bt_result := EINVAL\<rparr>
      else br_goto l (BrCas prev_wait_count))"

definition barrier_entered :: "'k barrier \<Rightarrow> u32 \<Rightarrow> barrier_thread \<Rightarrow> barrier_thread" where
  "barrier_entered b prev_wait_count l =
     (let l = l\<lparr>bt_entered := bt_entered l + 1\<rparr> in
      if prev_wait_count + 1 = br_init_count b then
        (let l = l\<lparr>bt_result := PTHREAD_BARRIER_SERIAL_THREAD\<rparr> in
         br_goto l (if prev_wait_count \<noteq> 0 then BrRelease prev_wait_count else BrLeave))
      else br_goto (l\<lparr>bt_result := 0\<rparr>) BrCheck)"

definition pthread_barrier_wait_step ::
  "'k futex_ops \<Rightarrow> ('k barrier, barrier_thread) thread_step" where
  "pthread_barrier_wait_step fx t b l =
     (case bt_pc l of
        BrOut \<Rightarrow> [(b, br_goto l BrFirst)]
      | BrFirst \<Rightarrow> [(b, br_goto l (if br_state b = RELEASE then BrWait1 else BrLoad))]
      | BrWait1 \<Rightarrow>
          map (\<lambda>(k, r). (b\<lparr>br_futex := k\<rparr>, br_goto l (case r of None \<Rightarrow> BrSleep1 | Some _ \<Rightarrow> BrFirst)))
            (fx_wait fx t (BarrierState_word (br_state b)) (BarrierState_word RELEASE) (br_futex b))
      | BrSleep1 \<Rightarrow> map (\<lambda>(k, r). (b\<lparr>br_futex := k\<rparr>, br_goto l BrFirst)) (fx_leave fx t (br_futex b))
      | BrLoad \<Rightarrow> [(b, barrier_check b (br_wait_count b) l)]
      | BrCas prev_wait_count \<Rightarrow>
          (if br_wait_count b = prev_wait_count then
             [(b\<lparr>br_wait_count := prev_wait_count + 1\<rparr>, barrier_entered b prev_wait_count l)]
           else []) @ [(b, barrier_check b (br_wait_count b) l)]
      | BrRelease prev_wait_count \<Rightarrow> [(b\<lparr>br_state := RELEASE\<rparr>, br_goto l (BrWake1 prev_wait_count))]
      | BrWake1 prev_wait_count \<Rightarrow>
          map (\<lambda>(k, r). (b\<lparr>br_futex := k\<rparr>, br_goto l BrLeave)) (fx_wake fx (unat prev_wait_count) (br_futex b))
      | BrCheck \<Rightarrow> [(b, br_goto l (if br_state b = WAIT then BrWait2 else BrLeave))]
      | BrWait2 \<Rightarrow>
          map (\<lambda>(k, r). (b\<lparr>br_futex := k\<rparr>, br_goto l (case r of None \<Rightarrow> BrSleep2 | Some _ \<Rightarrow> BrCheck)))
            (fx_wait fx t (BarrierState_word (br_state b)) (BarrierState_word WAIT) (br_futex b))
      | BrSleep2 \<Rightarrow> map (\<lambda>(k, r). (b\<lparr>br_futex := k\<rparr>, br_goto l BrCheck)) (fx_leave fx t (br_futex b))
      | BrLeave \<Rightarrow>
          [(b\<lparr>br_wait_count := br_wait_count b - 1\<rparr>,
            if br_wait_count b = 1 then br_goto l BrReset else br_return l)]
      | BrReset \<Rightarrow> [(b\<lparr>br_state := WAIT\<rparr>, br_goto l BrWake2)]
      | BrWake2 \<Rightarrow>
          map (\<lambda>(k, r). (b\<lparr>br_futex := k\<rparr>, br_return l)) (fx_wake fx (unat (br_init_count b)) (br_futex b)))"

text \<open>
  The places of \<open>pthread_barrier_destroy\<close>: the check of the argument, the loop until the threads of a full cycle
  have left, the load of the count, and the store that makes the barrier invalid.
\<close>

datatype destroy_pc =
    BdStart
  | BdLoad
  | BdWait
  | BdSleep
  | BdCount
  | BdStore
  | BdDone int

definition pthread_barrier_destroy_step :: "'k futex_ops \<Rightarrow> ('k barrier, destroy_pc) thread_step" where
  "pthread_barrier_destroy_step fx t b pc =
     (case pc of
        BdStart \<Rightarrow> [(b, if br_init_count b = 0 then BdDone EINVAL else BdLoad)]
      | BdLoad \<Rightarrow> [(b, if br_state b = RELEASE then BdWait else BdCount)]
      | BdWait \<Rightarrow>
          map (\<lambda>(k, r). (b\<lparr>br_futex := k\<rparr>, case r of None \<Rightarrow> BdSleep | Some _ \<Rightarrow> BdLoad))
            (fx_wait fx t (BarrierState_word (br_state b)) (BarrierState_word RELEASE) (br_futex b))
      | BdSleep \<Rightarrow> map (\<lambda>(k, r). (b\<lparr>br_futex := k\<rparr>, BdLoad)) (fx_leave fx t (br_futex b))
      | BdCount \<Rightarrow> [(b, if br_wait_count b \<noteq> 0 then BdDone EBUSY else BdStore)]
      | BdStore \<Rightarrow> [(b\<lparr>br_init_count := 0\<rparr>, BdDone 0)]
      | BdDone _ \<Rightarrow> [])"

text \<open>
  Barriers are defined for at most \<open>init_count\<close> threads per cycle; \<open>S\<close> lists the threads that use
  this one.
\<close>

definition barrier_step :: "'k futex_ops \<Rightarrow> tid list \<Rightarrow> ('k barrier, barrier_thread) thread_step" where
  "barrier_step fx S t b l = (if t \<in> set S then pthread_barrier_wait_step fx t b l else [])"

section \<open>The invariant\<close>

text \<open>
  The ghost value is the phase of the current cycle, the set of threads that are inside, and the
  number of finished cycles.
\<close>

datatype barrier_phase = Filling | Full tid | Draining | Resetting tid

type_synonym barrier_ghost = "barrier_phase \<times> tid set \<times> nat"

fun br_inside :: "barrier_pc \<Rightarrow> bool" where
  "br_inside (BrRelease _) = True"
| "br_inside (BrWake1 _) = True"
| "br_inside BrCheck = True"
| "br_inside BrWait2 = True"
| "br_inside BrSleep2 = True"
| "br_inside BrLeave = True"
| "br_inside _ = False"

fun br_leaving :: "barrier_pc \<Rightarrow> bool" where
  "br_leaving BrReset = True"
| "br_leaving BrWake2 = True"
| "br_leaving pc = br_inside pc"

fun br_passed :: "barrier_pc \<Rightarrow> bool" where
  "br_passed BrLoad = True"
| "br_passed (BrCas _) = True"
| "br_passed _ = False"

fun br_released :: "barrier_pc \<Rightarrow> bool" where
  "br_released (BrWake1 _) = True"
| "br_released BrLeave = True"
| "br_released _ = False"

definition br_G :: "u32 \<Rightarrow> tid set \<Rightarrow> barrier_ghost \<Rightarrow> 'k barrier \<Rightarrow> bool" where
  "br_G n S h b \<longleftrightarrow>
     (case h of (p, E, r) \<Rightarrow>
        br_init_count b = n \<and> unat n = card S \<and> finite S \<and> S \<noteq> {} \<and> E \<subseteq> S \<and>
        unat (br_wait_count b) = card E \<and>
        br_state b = (if p \<in> {Filling} \<union> range Full \<or> n = 1 then WAIT else RELEASE) \<and>
        (p = Filling \<longrightarrow> E \<noteq> S) \<and> (\<forall>t. p = Full t \<longrightarrow> E = S \<and> t \<in> S \<and> n \<noteq> 1) \<and>
        (p = Draining \<longrightarrow> E \<noteq> {}) \<and> (\<forall>t. p = Resetting t \<longrightarrow> E = {} \<and> t \<in> S))"

definition br_L :: "u32 \<Rightarrow> tid set \<Rightarrow> barrier_ghost \<Rightarrow> tid \<Rightarrow> barrier_thread \<Rightarrow> bool" where
  "br_L n S h t l \<longleftrightarrow> t \<in> S \<longrightarrow>
     (case h of (p, E, r) \<Rightarrow>
        (br_inside (bt_pc l) \<longleftrightarrow> t \<in> E) \<and>
        bt_entered l = (if p = Filling \<and> t \<notin> E then r else Suc r) \<and>
        bt_entered l = bt_left l + of_bool (br_leaving (bt_pc l)) \<and>
        (p = Full t \<longleftrightarrow> (\<exists>w. bt_pc l = BrRelease w)) \<and> (p = Resetting t \<longleftrightarrow> bt_pc l = BrReset) \<and>
        (br_released (bt_pc l) \<longrightarrow> p = Draining) \<and> (br_passed (bt_pc l) \<longrightarrow> p = Filling) \<and>
        (\<forall>w. bt_pc l = BrCas w \<longrightarrow> w < n) \<and> bt_result l \<noteq> EINVAL)"

definition br_next where
  "br_next n S h t b' l' \<longleftrightarrow> (\<exists>h'. br_G n S h' b' \<and> br_L n S h' t l' \<and>
     (\<forall>u m. u \<noteq> t \<longrightarrow> br_L n S h u m \<longrightarrow> br_L n S h' u m))"

lemma br_nextI:
  "br_G n S h' b' \<Longrightarrow> br_L n S h' t l' \<Longrightarrow> (\<And>u m. u \<noteq> t \<Longrightarrow> br_L n S h u m \<Longrightarrow> br_L n S h' u m) \<Longrightarrow>
   br_next n S h t b' l'"
  unfolding br_next_def by blast

lemma br_G_futex: "br_G n S h b \<Longrightarrow> br_G n S h (b\<lparr>br_futex := k\<rparr>)"
  by (simp add: br_G_def split: prod.splits)

lemma br_move:
  assumes G: "br_G n S h b" and L: "br_L n S h t l" and b': "b' = b \<or> (\<exists>k. b' = b\<lparr>br_futex := k\<rparr>)"
    and "br_inside pc = br_inside (bt_pc l)" "br_leaving pc = br_leaving (bt_pc l)"
    and "\<And>w. bt_pc l \<noteq> BrRelease w" "\<And>w. pc \<noteq> BrRelease w" "bt_pc l \<noteq> BrReset" "pc \<noteq> BrReset"
    and "br_released pc \<Longrightarrow> br_released (bt_pc l)" "br_passed pc \<Longrightarrow> br_passed (bt_pc l)" "\<And>w. pc \<noteq> BrCas w"
  shows "br_next n S h t b' (br_goto l pc)"
proof (rule br_nextI [where h' = h])
  show "br_G n S h b'" using b' G by (auto simp: br_G_futex)
  show "br_L n S h t (br_goto l pc)"
    using L assms(4-) by (auto simp: br_L_def br_goto_def split: prod.splits)
qed

lemma br_move_futex:
  assumes "br_G n S h b" "br_L n S h t l"
    and "br_inside pc = br_inside (bt_pc l)" "br_leaving pc = br_leaving (bt_pc l)"
    and "\<And>w. bt_pc l \<noteq> BrRelease w" "\<And>w. pc \<noteq> BrRelease w" "bt_pc l \<noteq> BrReset" "pc \<noteq> BrReset"
    and "br_released pc \<Longrightarrow> br_released (bt_pc l)" "br_passed pc \<Longrightarrow> br_passed (bt_pc l)" "\<And>w. pc \<noteq> BrCas w"
  shows "br_next n S h t (b\<lparr>br_futex := k\<rparr>) (br_goto l pc)"
  by (rule br_move [OF assms(1,2)]) (use assms(3-) in blast)+

lemma br_pass:
  assumes G: "br_G n S h b" and L: "br_L n S h t l" and t: "t \<in> S" and pc: "bt_pc l = BrFirst"
    and st: "br_state b = WAIT"
  shows "br_next n S h t b (br_goto l BrLoad)"
proof -
  obtain p E r where h: "h = (p, E, r)" by (cases h) auto
  have "t \<notin> E" "p \<noteq> Resetting t" using L pc t by (auto simp: br_L_def h)
  moreover have "S = {t}" if "n = 1"
  proof -
    have "card S = 1" using G that by (simp add: br_G_def h)
    then obtain x where "S = {x}" by (rule card_1_singletonE)
    with t show ?thesis by simp
  qed
  moreover have "p = Draining \<Longrightarrow> n = 1 \<and> E \<noteq> {}" "p = Resetting u \<Longrightarrow> n = 1 \<and> u \<in> S" "p = Full u \<Longrightarrow> E = S" "E \<subseteq> S" for u
    using G st by (simp_all add: br_G_def h image_iff split: if_splits)
  ultimately have "p = Filling"
    using t by (cases p) (blast, blast, blast, metis singletonD)
  with G L pc show ?thesis
    by (intro br_nextI [where h' = h]) (auto simp: br_L_def br_goto_def h)
qed

lemma br_checked:
  assumes G: "br_G n S h b" and L: "br_L n S h t l" and t: "t \<in> S" and pc: "br_passed (bt_pc l)"
  shows "br_next n S h t b (barrier_check b (br_wait_count b) l)"
proof -
  obtain p E r where h: "h = (p, E, r)" by (cases h) auto
  have p: "p = Filling" using L pc t by (auto simp: br_L_def h)
  then have "card E < card S" using G by (auto simp: br_G_def h intro: psubset_card_mono)
  then have "br_wait_count b < n" "br_init_count b = n" using G by (auto simp: br_G_def h word_less_nat_alt)
  then have "barrier_check b (br_wait_count b) l = br_goto l (BrCas (br_wait_count b))"
    by (simp add: barrier_check_def)
  moreover have "\<not> br_inside (bt_pc l)" "\<not> br_leaving (bt_pc l)" "\<not> br_released (bt_pc l)"
    "\<And>w. bt_pc l \<noteq> BrRelease w" "bt_pc l \<noteq> BrReset"
    using pc by (cases "bt_pc l"; simp)+
  ultimately show ?thesis using G L p \<open>br_wait_count b < n\<close>
    by (intro br_nextI [where h' = h]) (auto simp: br_L_def br_goto_def h)
qed

lemma unat_word_add_1:
  fixes w n :: u32
  assumes "unat w < unat n"
  shows "unat (w + 1) = unat w + 1"
proof -
  have "Suc (unat w) < 4294967296" using assms unat_less_exp(3) [of n] by linarith
  then show ?thesis by (simp add: unat_word_ariths)
qed

lemma br_enter:
  assumes G: "br_G n S h b" and L: "br_L n S h t l" and t: "t \<in> S" and pc: "bt_pc l = BrCas w"
    and w: "br_wait_count b = w"
  shows "br_next n S h t (b\<lparr>br_wait_count := w + 1\<rparr>) (barrier_entered b w l)"
proof -
  obtain p E r where h: "h = (p, E, r)" by (cases h) auto
  have p: "p = Filling" and tE: "t \<notin> E" and wn: "w < n" using L pc t by (auto simp: br_L_def h)
  have S: "finite S" "E \<subseteq> S" "unat n = card S" "unat w = card E" "br_init_count b = n"
    using G w by (auto simp: br_G_def h)
  have fE: "finite E" using S by (auto intro: finite_subset)
  have u: "unat (w + 1) = card (insert t E)"
    using unat_word_add_1 [of w n] wn S(4) tE fE by (simp add: word_less_nat_alt)
  have full: "w + 1 = n \<longleftrightarrow> insert t E = S"
    unfolding word_unat_eq_iff u S(3) using S t by (auto dest: card_subset_eq [rotated 2])
  have w0: "w = 0 \<longleftrightarrow> E = {}" using S(4) fE by (simp add: word_unat_eq_iff)
  let ?p = "if w + 1 \<noteq> n then Filling else if w \<noteq> 0 then Full t else Draining"
  have "(w = 0 \<and> w + 1 = n) \<longleftrightarrow> n = 1 \<and> w + 1 = n" by auto
  with G t u full tE have "br_G n S (?p, insert t E, r) (b\<lparr>br_wait_count := w + 1\<rparr>)"
    by (auto simp: br_G_def h p)
  moreover have "br_L n S (?p, insert t E, r) t (barrier_entered b w l)"
    using L t pc p tE S(5) by (auto simp: br_L_def h barrier_entered_def Let_def br_goto_def)
  moreover have "br_L n S (?p, insert t E, r) v m" if "v \<noteq> t" "br_L n S h v m" for v m
  proof (cases "w + 1 = n")
    case True
    then have "v \<in> E" if "v \<in> S" using full that \<open>v \<noteq> t\<close> by blast
    moreover from this have "w \<noteq> 0" if "v \<in> S" using w0 that by auto
    ultimately show ?thesis using that p True
      by (auto simp: br_L_def h split: if_splits) (cases "bt_pc m"; simp)+
  next
    case False
    then show ?thesis using that p by (auto simp: br_L_def h)
  qed
  ultimately show ?thesis by (rule br_nextI)
qed

lemma br_release:
  assumes G: "br_G n S h b" and L: "br_L n S h t l" and t: "t \<in> S" and pc: "bt_pc l = BrRelease w"
  shows "br_next n S h t (b\<lparr>br_state := RELEASE\<rparr>) (br_goto l (BrWake1 w))"
proof -
  obtain p E r where h: "h = (p, E, r)" by (cases h) auto
  have p: "p = Full t" using L pc t by (auto simp: br_L_def h)
  show ?thesis
  proof (rule br_nextI [where h' = "(Draining, E, r)"])
    show "br_G n S (Draining, E, r) (b\<lparr>br_state := RELEASE\<rparr>)" using G by (auto simp: br_G_def h p)
    show "br_L n S (Draining, E, r) t (br_goto l (BrWake1 w))"
      using L pc by (auto simp: br_L_def br_goto_def h p)
    show "br_L n S (Draining, E, r) u m" if "u \<noteq> t" "br_L n S h u m" for u m
      using that by (auto simp: br_L_def h p)
  qed
qed

lemma br_leave:
  assumes G: "br_G n S h b" and L: "br_L n S h t l" and t: "t \<in> S" and pc: "bt_pc l = BrLeave"
  shows "br_next n S h t (b\<lparr>br_wait_count := br_wait_count b - 1\<rparr>)
    (if br_wait_count b = 1 then br_goto l BrReset else br_return l)"
proof -
  obtain p E r where h: "h = (p, E, r)" by (cases h) auto
  have p: "p = Draining" and tE: "t \<in> E" using L pc t by (auto simp: br_L_def h)
  have S: "finite S" "E \<subseteq> S" "unat (br_wait_count b) = card E" using G by (auto simp: br_G_def h)
  have fE: "finite E" using S by (auto intro: finite_subset)
  have pos: "0 < card E" using fE tE by (auto simp: card_gt_0_iff)
  then have u: "unat (br_wait_count b - 1) = card (E - {t})"
    using S(3) fE tE by (simp add: unat_sub word_le_nat_alt)
  have last: "br_wait_count b = 1 \<longleftrightarrow> E - {t} = {}"
    using S(3) fE tE by (auto simp: word_unat_eq_iff card_1_singleton_iff) 
  let ?p = "if br_wait_count b = 1 then Resetting t else Draining"
  show ?thesis
  proof (rule br_nextI [where h' = "(?p, E - {t}, r)"])
    show "br_G n S (?p, E - {t}, r) (b\<lparr>br_wait_count := br_wait_count b - 1\<rparr>)"
      using G u last t by (auto simp: br_G_def h p)
    show "br_L n S (?p, E - {t}, r) t (if br_wait_count b = 1 then br_goto l BrReset else br_return l)"
      using L pc t tE by (auto simp: br_L_def br_goto_def br_return_def h p)
    show "br_L n S (?p, E - {t}, r) v m" if "v \<noteq> t" "br_L n S h v m" for v m
      using that last by (auto simp: br_L_def h p) (cases "bt_pc m"; simp)+
  qed
qed

lemma br_reset:
  assumes G: "br_G n S h b" and L: "br_L n S h t l" and t: "t \<in> S" and pc: "bt_pc l = BrReset"
  shows "br_next n S h t (b\<lparr>br_state := WAIT\<rparr>) (br_goto l BrWake2)"
proof -
  obtain p E r where h: "h = (p, E, r)" by (cases h) auto
  have p: "p = Resetting t" using L pc t by (auto simp: br_L_def h)
  then have E: "E = {}" using G by (auto simp: br_G_def h)
  show ?thesis
  proof (rule br_nextI [where h' = "(Filling, {}, Suc r)"])
    show "br_G n S (Filling, {}, Suc r) (b\<lparr>br_state := WAIT\<rparr>)" using G by (auto simp: br_G_def h p E)
    show "br_L n S (Filling, {}, Suc r) t (br_goto l BrWake2)"
      using L pc by (auto simp: br_L_def br_goto_def h p E)
    show "br_L n S (Filling, {}, Suc r) u m" if "u \<noteq> t" "br_L n S h u m" for u m
      using that by (auto simp: br_L_def h p E)
  qed
qed

lemma barrier_step_next:
  assumes G: "br_G n S h b" and L: "br_L n S h t l" and t: "t \<in> S"
    and st: "(b', l') \<in> set (pthread_barrier_wait_step fx t b l)"
  shows "br_next n S h t b' l'"
proof (cases "bt_pc l")
  case BrOut
  with st have "b' = b" "l' = br_goto l BrFirst" by (simp_all add: pthread_barrier_wait_step_def)
  with BrOut br_move [OF G L, of b BrFirst] show ?thesis by simp
next
  case BrFirst
  with st have e: "b' = b" "l' = br_goto l (if br_state b = RELEASE then BrWait1 else BrLoad)"
    by (simp_all add: pthread_barrier_wait_step_def)
  show ?thesis
  proof (cases "br_state b")
    case WAIT
    with e br_pass [OF G L t BrFirst] show ?thesis by simp
  next
    case RELEASE
    with e BrFirst br_move [OF G L, of b BrWait1] show ?thesis by simp
  qed
next
  case BrWait1
  then obtain k and r :: "int option" where "b' = b\<lparr>br_futex := k\<rparr>"
    "l' = br_goto l (case r of None \<Rightarrow> BrSleep1 | Some _ \<Rightarrow> BrFirst)"
    using st by (auto simp: pthread_barrier_wait_step_def)
  with BrWait1 show ?thesis by (cases r) (auto intro!: br_move_futex [OF G L])
next
  case BrSleep1
  then obtain k where "b' = b\<lparr>br_futex := k\<rparr>" "l' = br_goto l BrFirst"
    using st by (auto simp: pthread_barrier_wait_step_def)
  with BrSleep1 show ?thesis by (auto intro!: br_move_futex [OF G L])
next
  case BrLoad
  with st br_checked [OF G L t] show ?thesis by (simp add: pthread_barrier_wait_step_def)
next
  case (BrCas w)
  with st br_checked [OF G L t] br_enter [OF G L t BrCas] show ?thesis
    by (auto simp: pthread_barrier_wait_step_def split: if_splits)
next
  case (BrRelease w)
  with st br_release [OF G L t] show ?thesis by (simp add: pthread_barrier_wait_step_def)
next
  case (BrWake1 w)
  then obtain k where "b' = b\<lparr>br_futex := k\<rparr>" "l' = br_goto l BrLeave"
    using st by (auto simp: pthread_barrier_wait_step_def)
  with BrWake1 show ?thesis by (auto intro!: br_move_futex [OF G L])
next
  case BrCheck
  with st have e: "b' = b" "l' = br_goto l (if br_state b = WAIT then BrWait2 else BrLeave)"
    by (simp_all add: pthread_barrier_wait_step_def)
  show ?thesis
  proof (cases "br_state b")
    case WAIT
    with e BrCheck br_move [OF G L, of b BrWait2] show ?thesis by simp
  next
    case RELEASE
    obtain p E r where h: "h = (p, E, r)" by (cases h) auto
    have "p = Draining" using G L t BrCheck RELEASE by (cases p) (auto simp: br_G_def br_L_def h split: if_splits)
    with e RELEASE BrCheck G L show ?thesis
      by (intro br_nextI [where h' = h]) (auto simp: br_L_def br_goto_def h)
  qed
next
  case BrWait2
  then obtain k and r :: "int option" where "b' = b\<lparr>br_futex := k\<rparr>"
    "l' = br_goto l (case r of None \<Rightarrow> BrSleep2 | Some _ \<Rightarrow> BrCheck)"
    using st by (auto simp: pthread_barrier_wait_step_def)
  with BrWait2 show ?thesis by (cases r) (auto intro!: br_move_futex [OF G L])
next
  case BrSleep2
  then obtain k where "b' = b\<lparr>br_futex := k\<rparr>" "l' = br_goto l BrCheck"
    using st by (auto simp: pthread_barrier_wait_step_def)
  with BrSleep2 show ?thesis by (auto intro!: br_move_futex [OF G L])
next
  case BrLeave
  with st br_leave [OF G L t] show ?thesis by (simp add: pthread_barrier_wait_step_def)
next
  case BrReset
  with st br_reset [OF G L t] show ?thesis by (simp add: pthread_barrier_wait_step_def)
next
  case BrWake2
  then obtain k where e: "b' = b\<lparr>br_futex := k\<rparr>" "l' = br_return l"
    using st by (auto simp: pthread_barrier_wait_step_def)
  have "br_L n S h t (br_return l)" using L BrWake2 by (auto simp: br_L_def br_return_def split: prod.splits)
  with e br_G_futex [OF G, of k] show ?thesis by (intro br_nextI [where h' = h]) simp_all
qed

interpretation barrier: par_ghost "barrier_step fx S" "br_G n (set S)" "br_L n (set S)" for fx S n
proof unfold_locales
  fix h b t l b' l'
  assume a: "br_G n (set S) h b" "br_L n (set S) h t l" "(b', l') \<in> set (barrier_step fx S t b l)"
  then have "br_next n (set S) h t b' l'"
    by (intro barrier_step_next [OF a(1,2), where fx = fx]) (simp_all add: barrier_step_def split: if_splits)
  then show "\<exists>h'. br_G n (set S) h' b' \<and> br_L n (set S) h' t l' \<and>
      (\<forall>u m. u \<noteq> t \<longrightarrow> br_L n (set S) h u m \<longrightarrow> br_L n (set S) h' u m)"
    unfolding br_next_def .
qed

section \<open>Properties\<close>

abbreviation barrier_idle :: barrier_thread where
  "barrier_idle \<equiv> \<lparr>bt_pc = BrOut, bt_result = 0, bt_entered = 0, bt_left = 0\<rparr>"

lemma barrier_reach:
  assumes "pthread_barrier_init attr n k b00 = (b0, 0)" "distinct S" "length S = unat n"
    and "par_reach (barrier_step fx S) (b0, \<lambda>_. barrier_idle) (b, ls)"
  obtains h where "br_G n (set S) h b" "\<And>t. br_L n (set S) h t (ls t)"
proof (rule barrier.ghost_reach [OF assms(4)])
  have "n \<noteq> 0" and b0: "br_init_count b0 = n" "br_state b0 = WAIT" "br_wait_count b0 = 0"
    using assms(1) by (auto simp: pthread_barrier_init_def split: if_splits)
  then have "set S \<noteq> {}" using assms(3) by (auto simp: word_unat_eq_iff)
  then show "br_G n (set S) (Filling, {}, 0) b0"
    using b0 assms(2,3) by (auto simp: br_G_def distinct_card)
  show "br_L n (set S) (Filling, {}, 0) t barrier_idle" for t by (auto simp: br_L_def)
qed (rule that)

text \<open>C13. Barriers. When a barrier for \<open>n\<close> threads is used by \<open>n\<close> threads, no thread leaves it for the
  k-th time before every one of them has entered it k times, and nobody runs ahead by more than
  one cycle. No call fails.\<close>

theorem pthread_barrier_separates:
  assumes "pthread_barrier_init attr n k b00 = (b0, 0)" "distinct S" "length S = unat n"
    and "par_reach (barrier_step fx S) (b0, \<lambda>_. barrier_idle) (b, ls)" "t \<in> set S" "u \<in> set S"
  shows "bt_left (ls t) \<le> bt_entered (ls u) \<and> bt_entered (ls u) \<le> bt_left (ls t) + 1 + of_bool (br_leaving (bt_pc (ls t))) \<and>
    bt_result (ls t) \<noteq> EINVAL"
  using assms(1-4)
proof (rule barrier_reach)
  fix h
  assume G: "br_G n (set S) h b" and L: "\<And>t. br_L n (set S) h t (ls t)"
  obtain p E r where h: "h = (p, E, r)" by (cases h) auto
  have t: "br_inside (bt_pc (ls x)) \<longleftrightarrow> x \<in> E" "bt_entered (ls x) = (if p = Filling \<and> x \<notin> E then r else Suc r)"
    "bt_entered (ls x) = bt_left (ls x) + of_bool (br_leaving (bt_pc (ls x)))" "bt_result (ls x) \<noteq> EINVAL"
    if "x \<in> set S" for x using L [of x] that by (simp_all add: br_L_def h)
  have leaving: "t \<in> E \<Longrightarrow> br_leaving (bt_pc (ls t))"
    using t(1) [OF assms(5)] by (cases "bt_pc (ls t)") simp_all
  have "bt_left (ls t) \<le> bt_entered (ls u) \<and>
      bt_entered (ls u) \<le> bt_left (ls t) + 1 + of_bool (br_leaving (bt_pc (ls t)))"
  proof (cases "br_leaving (bt_pc (ls t))")
    case True
    then show ?thesis using t(2) [OF assms(5)] t(3) [OF assms(5)] t(2) [OF assms(6)] by (simp split: if_splits)
  next
    case False
    then show ?thesis using t(2) [OF assms(5)] t(3) [OF assms(5)] t(2) [OF assms(6)] leaving
      by (simp split: if_splits)
  qed
  with t(4) [OF assms(5)] show ?thesis by blast
qed

lemmas barrier_run_simps = barrier_step_def pthread_barrier_wait_step_def barrier_check_def barrier_entered_def
  br_goto_def br_return_def futex_queue_def INT_MAX_nat_def Let_def fun_upd_twist
  word_le_nat_alt

abbreviation barrier_two :: "BarrierState \<Rightarrow> u32 \<Rightarrow> tid list barrier" where
  "barrier_two st w \<equiv> \<lparr>br_init_count = 2, br_state = st, br_wait_count = w, br_pshared = False, br_futex = []\<rparr>"

lemma barrier_init_two: "pthread_barrier_init None 2 [] b = (barrier_two WAIT 0, 0)"
  by (simp add: pthread_barrier_init_def)

theorem pthread_barrier_separates_witness:
  "bt_left \<lparr>bt_pc = BrOut, bt_result = - 1, bt_entered = 1, bt_left = 1\<rparr> \<le>
   bt_entered \<lparr>bt_pc = BrCheck, bt_result = 0, bt_entered = 1, bt_left = 0\<rparr>"
proof -
  have "par_run (barrier_step futex_queue [1, 2]) (barrier_two WAIT 0, \<lambda>_. barrier_idle)
      [(1, 0), (1, 0), (1, 0), (1, 0), (2, 0), (2, 0), (2, 0), (2, 0), (2, 0), (2, 0), (2, 0)] =
    Some (barrier_two RELEASE 1,
      (\<lambda>_. barrier_idle)(1 := \<lparr>bt_pc = BrCheck, bt_result = 0, bt_entered = 1, bt_left = 0\<rparr>,
        2 := \<lparr>bt_pc = BrOut, bt_result = - 1, bt_entered = 1, bt_left = 1\<rparr>))"
    by (simp add: barrier_run_simps)
  note r = pthread_barrier_separates [OF barrier_init_two _ _ par_run_reach [OF this], where t = 2 and u = 1]
  have "distinct [1 :: tid, 2]" "length [1 :: tid, 2] = unat (2 :: u32)" "2 \<in> set [1 :: tid, 2]" "1 \<in> set [1 :: tid, 2]"
    by simp_all
  from r [OF this, THEN conjunct1] show ?thesis by simp
qed

section \<open>Destroying\<close>

text \<open>
  A thread destroys the barrier while others are on their way through it. A thread that is about to enter, or
  starts a new call, would use a barrier that is being destroyed, which is undefined: no thread of this
  system does.
\<close>

definition br_quiet :: "barrier_pc \<Rightarrow> bool" where
  "br_quiet pc \<longleftrightarrow> pc = BrOut \<or> br_leaving pc"

definition barrier_destroy_sys :: "'k futex_ops \<Rightarrow> tid list \<Rightarrow> ('k barrier, barrier_thread + destroy_pc) thread_step" where
  "barrier_destroy_sys fx S t b x =
     (case x of
        Inl l \<Rightarrow> if t \<in> set S \<and> bt_pc l \<noteq> BrOut then map (\<lambda>(b, l). (b, Inl l)) (pthread_barrier_wait_step fx t b l) else []
      | Inr pc \<Rightarrow> map (\<lambda>(b, pc). (b, Inr pc)) (pthread_barrier_destroy_step fx t b pc))"

text \<open>
  The ghost value is that of the barrier, or none once the barrier is destroyed. The flag \<open>rel\<close> says that nobody
  waits for others to enter: the threads inside have been released, or nobody is inside.
\<close>

definition bd_G :: "u32 \<Rightarrow> tid set \<Rightarrow> bool \<Rightarrow> barrier_ghost option \<Rightarrow> 'k barrier \<Rightarrow> bool" where
  "bd_G n S rel h b \<longleftrightarrow>
     (case h of None \<Rightarrow> True | Some h \<Rightarrow> br_G n S h b \<and> (rel \<longrightarrow> br_state b = RELEASE \<or> br_wait_count b = 0))"

definition bd_L :: "u32 \<Rightarrow> tid set \<Rightarrow> tid \<Rightarrow> bool \<Rightarrow> barrier_ghost option \<Rightarrow> tid \<Rightarrow> barrier_thread + destroy_pc \<Rightarrow> bool" where
  "bd_L n S d rel h t x \<longleftrightarrow>
     (case (h, x) of
        (None, Inl l) \<Rightarrow> t \<in> S \<longrightarrow> br_quiet (bt_pc l) \<and> \<not> br_inside (bt_pc l)
      | (None, Inr pc) \<Rightarrow> t = d \<and> pc = BdDone 0
      | (Some h, Inl l) \<Rightarrow> br_L n S h t l \<and> (t \<in> S \<longrightarrow> br_quiet (bt_pc l))
      | (Some (p, E, r), Inr pc) \<Rightarrow>
          t = d \<and> (pc = BdStore \<or> pc = BdCount \<and> rel \<longrightarrow> E = {}) \<and> (\<forall>r. pc = BdDone r \<longrightarrow> r = EBUSY \<and> \<not> rel))"

lemma br_quiet_step:
  assumes "(b', l') \<in> set (pthread_barrier_wait_step fx t b l)" "br_quiet (bt_pc l)" "bt_pc l \<noteq> BrOut"
  shows "br_quiet (bt_pc l')" "bt_pc l \<noteq> BrLeave \<Longrightarrow> br_wait_count b' = br_wait_count b"
    "bt_pc l \<noteq> BrReset \<Longrightarrow> br_state b = RELEASE \<Longrightarrow> br_state b' = RELEASE"
  using assms
  by (cases "bt_pc l"; auto simp: pthread_barrier_wait_step_def br_quiet_def br_goto_def br_return_def split: option.splits)+

lemma br_G_empty: "br_G n S (p, E, r) b \<Longrightarrow> E = {} \<longleftrightarrow> br_wait_count b = 0"
  using finite_subset [of E S] by (auto simp: br_G_def word_unat_eq_iff)

lemma barrier_destroy_wait:
  assumes G: "br_G n S h b" "rel \<longrightarrow> br_state b = RELEASE \<or> br_wait_count b = 0" and L: "br_L n S h t l" and t: "t \<in> S"
    and q: "br_quiet (bt_pc l)" "bt_pc l \<noteq> BrOut" and st: "(b', l') \<in> set (pthread_barrier_wait_step fx t b l)"
  shows "\<exists>h'. bd_G n S rel h' b' \<and> bd_L n S d rel h' t (Inl l') \<and>
    (\<forall>u m. u \<noteq> t \<longrightarrow> bd_L n S d rel (Some h) u m \<longrightarrow> bd_L n S d rel h' u m)"
proof -
  obtain p E r where h: "h = (p, E, r)" by (cases h) auto
  obtain h' where h': "br_G n S h' b'" "br_L n S h' t l'" "\<And>u m. u \<noteq> t \<Longrightarrow> br_L n S h u m \<Longrightarrow> br_L n S h' u m"
    using barrier_step_next [OF G(1) L t st] unfolding br_next_def by blast
  obtain p' E' r' where hp: "h' = (p', E', r')" by (cases h') auto
  note qs = br_quiet_step [OF st q]
  have E: "br_wait_count b' = 0" if "br_wait_count b = 0"
  proof -
    have "E = {}" using br_G_empty G(1) that unfolding h by blast
    then have "bt_pc l \<noteq> BrLeave" using L t by (auto simp: br_L_def h)
    then show ?thesis using qs(2) that by simp
  qed
  have "br_state b' = RELEASE \<or> br_wait_count b' = 0" if "br_state b = RELEASE \<or> br_wait_count b = 0"
  proof (cases "bt_pc l = BrReset")
    case True
    then have "p = Resetting t" using L t by (simp add: br_L_def h)
    then have "br_wait_count b = 0" using G(1) by (simp add: br_G_def h word_unat_eq_iff)
    then show ?thesis using E by simp
  next
    case False
    then show ?thesis using that E qs(3) by blast
  qed
  then have "bd_G n S rel (Some h') b'" using h'(1) G(2) by (simp add: bd_G_def)
  moreover have "bd_L n S d rel (Some h') t (Inl l')" using h'(2) qs(1) by (simp add: bd_L_def hp)
  moreover have "bd_L n S d rel (Some h') u m" if "u \<noteq> t" "bd_L n S d rel (Some h) u m" for u m
  proof (cases m)
    case (Inl l1)
    then show ?thesis using that h'(3) [OF that(1), of l1] by (simp add: bd_L_def hp h)
  next
    case (Inr pc)
    have "E = {} \<Longrightarrow> E' = {}" using E br_G_empty G(1) h'(1) unfolding h hp by blast
    then show ?thesis using that Inr by (auto simp: bd_L_def hp h)
  qed
  ultimately show ?thesis by blast
qed

lemma barrier_destroy_destroyed:
  assumes "bd_L n S d rel None t x" "(b', x') \<in> set (barrier_destroy_sys fx T t b x)" "set T = S"
  shows "bd_L n S d rel None t x'"
proof (cases x)
  case (Inl l)
  then obtain l' where l': "x' = Inl l'" "(b', l') \<in> set (pthread_barrier_wait_step fx t b l)" "t \<in> S" "bt_pc l \<noteq> BrOut"
    using assms(2,3) by (auto simp: barrier_destroy_sys_def split: if_splits)
  have "br_quiet (bt_pc l)" "\<not> br_inside (bt_pc l)" using assms(1) Inl l'(3) by (simp_all add: bd_L_def)
  then have "bt_pc l = BrReset \<or> bt_pc l = BrWake2" using l'(4) by (cases "bt_pc l") (simp_all add: br_quiet_def)
  then have "bt_pc l' = BrWake2 \<or> bt_pc l' = BrOut" using l'(2) by (auto simp: pthread_barrier_wait_step_def br_goto_def br_return_def)
  then show ?thesis using l'(1) by (auto simp: bd_L_def br_quiet_def)
next
  case (Inr pc)
  then show ?thesis using assms(1,2) by (simp add: bd_L_def barrier_destroy_sys_def pthread_barrier_destroy_step_def)
qed

lemma barrier_destroy_alive:
  assumes G: "bd_G n S rel (Some h) b" and L: "bd_L n S d rel (Some h) t (Inr pc)"
    and st: "(b', pc') \<in> set (pthread_barrier_destroy_step fx t b pc)"
  shows "\<exists>h'. bd_G n S rel h' b' \<and> bd_L n S d rel h' t (Inr pc') \<and>
    (\<forall>u m. u \<noteq> t \<longrightarrow> bd_L n S d rel (Some h) u m \<longrightarrow> bd_L n S d rel h' u m)"
proof -
  obtain p E r where h: "h = (p, E, r)" by (cases h) auto
  have g: "br_G n S h b" "rel \<longrightarrow> br_state b = RELEASE \<or> br_wait_count b = 0" using G by (simp_all add: bd_G_def)
  note e = br_G_empty [OF g(1) [unfolded h]]
  have n': "br_init_count b \<noteq> 0" using g(1) by (auto simp: br_G_def h)
  show ?thesis
  proof (cases "pc = BdStore")
    case True
    then have "E = {}" "b' = b\<lparr>br_init_count := 0\<rparr>" "pc' = BdDone 0"
      using L st by (simp_all add: bd_L_def h pthread_barrier_destroy_step_def)
    moreover have "t = d" using L by (simp add: bd_L_def h)
    moreover have "bd_L n S d rel None u m" if "u \<noteq> t" "bd_L n S d rel (Some h) u m" for u m
      using that \<open>E = {}\<close> \<open>t = d\<close> by (cases m) (auto simp: bd_L_def br_L_def h)
    ultimately show ?thesis by (intro exI [of _ None]) (auto simp: bd_G_def bd_L_def)
  next
    case False
    then have b': "b' = b \<or> (\<exists>k. b' = b\<lparr>br_futex := k\<rparr>)"
      using st by (cases pc) (auto simp: pthread_barrier_destroy_step_def)
    then have "bd_G n S rel (Some h) b'" using g br_G_futex [OF g(1)] by (auto simp: bd_G_def)
    moreover have "bd_L n S d rel (Some h) t (Inr pc')"
      using False st L e g(2) n' by (cases pc) (auto simp: pthread_barrier_destroy_step_def bd_L_def h split: option.splits)
    ultimately show ?thesis by blast
  qed
qed

interpretation barrier_destroy: par_ghost "barrier_destroy_sys fx S" "bd_G n (set S) rel" "bd_L n (set S) d rel" for fx S n d rel
proof unfold_locales
  fix h b t x b' x'
  assume a: "bd_G n (set S) rel h b" "bd_L n (set S) d rel h t x" "(b', x') \<in> set (barrier_destroy_sys fx S t b x)"
  show "\<exists>h'. bd_G n (set S) rel h' b' \<and> bd_L n (set S) d rel h' t x' \<and>
      (\<forall>u m. u \<noteq> t \<longrightarrow> bd_L n (set S) d rel h u m \<longrightarrow> bd_L n (set S) d rel h' u m)"
  proof (cases h)
    case None
    then show ?thesis using a(2) barrier_destroy_destroyed [OF _ a(3) refl, of n d rel]
      by (intro exI [of _ None]) (simp add: bd_G_def)
  next
    case (Some g)
    show ?thesis
    proof (cases x)
      case (Inl l)
      then obtain l' where l': "x' = Inl l'" "(b', l') \<in> set (pthread_barrier_wait_step fx t b l)" "t \<in> set S" "bt_pc l \<noteq> BrOut"
        using a(3) by (auto simp: barrier_destroy_sys_def split: if_splits)
      have "br_L n (set S) g t l" "br_quiet (bt_pc l)" using a(2) l'(3) Some Inl by (cases g; simp add: bd_L_def)+
      then show ?thesis using barrier_destroy_wait [OF _ _ _ l'(3) _ l'(4,2), of n g rel d] a(1) Some l'(1) by (simp add: bd_G_def)
    next
      case (Inr pc)
      then obtain pc' where "x' = Inr pc'" "(b', pc') \<in> set (pthread_barrier_destroy_step fx t b pc)"
        using a(3) by (auto simp: barrier_destroy_sys_def)
      then show ?thesis using barrier_destroy_alive [of n "set S" rel g b d t pc] a(1,2) Some Inr by simp
    qed
  qed
qed

text \<open>C38. Destroying a barrier. Let one thread destroy a barrier while the others are anywhere inside it, on their
  way out or out of it, but none starts another call or is about to enter. When \<open>pthread_barrier_destroy\<close> has returned 0 no thread is inside the
  barrier, and as long as one is inside, the barrier stays valid. The call returns nothing but 0 and
  \<open>EBUSY\<close>, and when the threads inside have been released, or none is inside, it does not return \<open>EBUSY\<close>: it waits for them.\<close>

theorem pthread_barrier_destroy_safe:
  assumes "pthread_barrier_init attr n k b00 = (b0, 0)" "distinct S" "length S = unat n"
    and "par_reach (barrier_step fx S) (b0, \<lambda>_. barrier_idle) (b, ls)"
    and "\<forall>t \<in> set S. br_quiet (bt_pc (ls t))"
    and "par_reach (barrier_destroy_sys fx S) (b, (\<lambda>t. Inl (ls t))(d := Inr BdStart)) (b', ls')"
  shows "(ls' d = Inr (BdDone 0) \<longrightarrow> (\<forall>t \<in> set S. \<forall>l. ls' t = Inl l \<longrightarrow> \<not> br_inside (bt_pc l))) \<and>
    ((\<exists>t \<in> set S. \<exists>l. ls' t = Inl l \<and> br_inside (bt_pc l)) \<longrightarrow> br_init_count b' = n) \<and>
    (\<forall>r. ls' d = Inr (BdDone r) \<longrightarrow> r = 0 \<or> r = EBUSY \<and> \<not> (br_state b = RELEASE \<or> br_wait_count b = 0))"
  using assms(1-4)
proof (rule barrier_reach)
  fix h
  assume G: "br_G n (set S) h b" and L: "\<And>t. br_L n (set S) h t (ls t)"
  let ?rel = "br_state b = RELEASE \<or> br_wait_count b = 0"
  obtain p E r where h: "h = (p, E, r)" by (cases h) auto
  have "bd_G n (set S) ?rel (Some h) b" using G by (simp add: bd_G_def)
  moreover have "bd_L n (set S) d ?rel (Some h) t (((\<lambda>t. Inl (ls t))(d := Inr BdStart)) t)" for t
    using L [of t] assms(5) by (auto simp: bd_L_def h)
  ultimately obtain h' where g: "bd_G n (set S) ?rel h' b'" and l: "\<And>t. bd_L n (set S) d ?rel h' t (ls' t)"
    using barrier_destroy.ghost_reach [OF assms(6)] by blast
  show ?thesis
  proof (cases h')
    case None
    have "\<not> br_inside (bt_pc m)" if "t \<in> set S" "ls' t = Inl m" for t m using l [of t] None that by (simp add: bd_L_def)
    moreover have "r = 0" if "ls' d = Inr (BdDone r)" for r using l [of d] None that by (simp add: bd_L_def)
    ultimately show ?thesis by blast
  next
    case (Some x)
    have "br_init_count b' = n" using g Some by (cases x) (simp add: bd_G_def br_G_def)
    moreover have "r = EBUSY \<and> \<not> ?rel" if "ls' d = Inr (BdDone r)" for r
      using l [of d] Some that by (cases x) (simp add: bd_L_def)
    ultimately show ?thesis by fastforce
  qed
qed

text \<open>The first of two threads is still inside when the second, which has left, destroys the barrier as thread 3.\<close>

theorem pthread_barrier_destroy_safe_witness:
  "\<exists>b ls b' ls'. par_run (barrier_step futex_queue [1, 2]) (barrier_two WAIT 0, \<lambda>_. barrier_idle)
      [(1, 0), (1, 0), (1, 0), (1, 0), (2, 0), (2, 0), (2, 0), (2, 0), (2, 0), (2, 0), (2, 0)] = Some (b, ls) \<and>
    br_inside (bt_pc (ls 1)) \<and>
    par_run (barrier_destroy_sys futex_queue [1, 2]) (b, (\<lambda>t. Inl (ls t))(3 := Inr BdStart))
      [(3, 0), (3, 0), (1, 0), (1, 0), (1, 0), (3, 0), (3, 0), (3, 0), (3, 0)] = Some (b', ls') \<and>
    ls' 3 = Inr (BdDone 0) \<and> (\<forall>l. ls' 1 = Inl l \<longrightarrow> \<not> br_inside (bt_pc l))"
proof -
  let ?ls = "(\<lambda>_ :: tid. barrier_idle)(1 := \<lparr>bt_pc = BrCheck, bt_result = 0, bt_entered = 1, bt_left = 0\<rparr>,
    2 := \<lparr>bt_pc = BrOut, bt_result = - 1, bt_entered = 1, bt_left = 1\<rparr>)"
  let ?ls' = "(\<lambda>t. Inl (?ls t))(1 := Inl \<lparr>bt_pc = BrWake2, bt_result = 0, bt_entered = 1, bt_left = 0\<rparr>, 3 := Inr (BdDone 0))"
  let ?b' = "(barrier_two WAIT 0)\<lparr>br_init_count := 0\<rparr>"
  have r1: "par_run (barrier_step futex_queue [1, 2]) (barrier_two WAIT 0, \<lambda>_. barrier_idle)
      [(1, 0), (1, 0), (1, 0), (1, 0), (2, 0), (2, 0), (2, 0), (2, 0), (2, 0), (2, 0), (2, 0)] = Some (barrier_two RELEASE 1, ?ls)"
    by (simp add: barrier_run_simps)
  have r2: "par_run (barrier_destroy_sys futex_queue [1, 2]) (barrier_two RELEASE 1, (\<lambda>t. Inl (?ls t))(3 := Inr BdStart))
      [(3, 0), (3, 0), (1, 0), (1, 0), (1, 0), (3, 0), (3, 0), (3, 0), (3, 0)] = Some (?b', ?ls')"
    by (simp add: barrier_destroy_sys_def pthread_barrier_destroy_step_def barrier_run_simps)
  have q: "\<forall>t \<in> set [1, 2]. br_quiet (bt_pc (?ls t))" by (simp add: br_quiet_def)
  note r = pthread_barrier_destroy_safe [OF barrier_init_two _ _ par_run_reach [OF r1] q par_run_reach [OF r2]]
  have "distinct [1 :: tid, 2]" "length [1 :: tid, 2] = unat (2 :: u32)" by simp_all
  from r [OF this, THEN conjunct1] have "\<forall>l. ?ls' 1 = Inl l \<longrightarrow> \<not> br_inside (bt_pc l)" by simp
  moreover have "br_inside (bt_pc (?ls 1))" "?ls' 3 = Inr (BdDone 0)" by simp_all
  ultimately show ?thesis using r1 r2 by blast
qed

end
