(* ===== verification/Pthread_Rwlock.thy ===== *)
theory Pthread_Rwlock
  imports Bionic_Futex "HOL-Library.Multiset"
begin

text \<open>
  Reader-writer locks (\<open>pthread_rwlock.cpp\<close>). Every atomic access, every access to a pending member
  under \<open>pending_lock\<close> and every futex call is one step of a thread. \<open>pending_lock\<close> is a \<open>Lock\<close>; here
  it is what its users rely on, namely that a thread gets it when nobody has it. The local
  counters \<open>rl_reads\<close> and \<open>rl_write\<close> observe the locks a thread holds; the code has neither.
\<close>

section \<open>Attributes\<close>

type_synonym rwlockattr = u64

abbreviation (input) PTHREAD_PROCESS_PRIVATE :: int where "PTHREAD_PROCESS_PRIVATE \<equiv> 0"
abbreviation (input) PTHREAD_PROCESS_SHARED :: int where "PTHREAD_PROCESS_SHARED \<equiv> 1"
abbreviation (input) PTHREAD_RWLOCK_PREFER_READER_NP :: int where "PTHREAD_RWLOCK_PREFER_READER_NP \<equiv> 0"
abbreviation (input) PTHREAD_RWLOCK_PREFER_WRITER_NONRECURSIVE_NP :: int where
  "PTHREAD_RWLOCK_PREFER_WRITER_NONRECURSIVE_NP \<equiv> 1"
abbreviation (input) RWLOCKATTR_PSHARED_SHIFT :: nat where "RWLOCKATTR_PSHARED_SHIFT \<equiv> 0"
abbreviation (input) RWLOCKATTR_KIND_SHIFT :: nat where "RWLOCKATTR_KIND_SHIFT \<equiv> 1"
abbreviation (input) RWLOCKATTR_PSHARED_MASK :: rwlockattr where "RWLOCKATTR_PSHARED_MASK \<equiv> 1"
abbreviation (input) RWLOCKATTR_KIND_MASK :: rwlockattr where "RWLOCKATTR_KIND_MASK \<equiv> 2"
abbreviation (input) RWLOCKATTR_RESERVED_MASK :: rwlockattr where "RWLOCKATTR_RESERVED_MASK \<equiv> NOT 3"

definition rwlockattr_getpshared :: "rwlockattr \<Rightarrow> bool" where
  "rwlockattr_getpshared attr \<longleftrightarrow>
     drop_bit RWLOCKATTR_PSHARED_SHIFT (attr AND RWLOCKATTR_PSHARED_MASK) \<noteq> 0"

definition rwlockattr_setpshared :: "rwlockattr \<Rightarrow> int \<Rightarrow> rwlockattr" where
  "rwlockattr_setpshared attr pshared =
     (attr AND NOT RWLOCKATTR_PSHARED_MASK) OR push_bit RWLOCKATTR_PSHARED_SHIFT (of_int pshared)"

definition rwlockattr_getkind :: "rwlockattr \<Rightarrow> int" where
  "rwlockattr_getkind attr = uint (drop_bit RWLOCKATTR_KIND_SHIFT (attr AND RWLOCKATTR_KIND_MASK))"

definition rwlockattr_setkind :: "rwlockattr \<Rightarrow> int \<Rightarrow> rwlockattr" where
  "rwlockattr_setkind attr kind =
     (attr AND NOT RWLOCKATTR_KIND_MASK) OR push_bit RWLOCKATTR_KIND_SHIFT (of_int kind)"

definition pthread_rwlockattr_init :: "rwlockattr \<times> int" where
  "pthread_rwlockattr_init = (0, 0)"

definition pthread_rwlockattr_destroy :: "rwlockattr \<times> int" where
  "pthread_rwlockattr_destroy = (- 1, 0)"

definition pthread_rwlockattr_getpshared :: "rwlockattr \<Rightarrow> int \<times> int" where
  "pthread_rwlockattr_getpshared attr =
     (if rwlockattr_getpshared attr then PTHREAD_PROCESS_SHARED else PTHREAD_PROCESS_PRIVATE, 0)"

definition pthread_rwlockattr_setpshared :: "rwlockattr \<Rightarrow> int \<Rightarrow> rwlockattr \<times> int" where
  "pthread_rwlockattr_setpshared attr pshared =
     (if pshared = PTHREAD_PROCESS_PRIVATE then (rwlockattr_setpshared attr 0, 0)
      else if pshared = PTHREAD_PROCESS_SHARED then (rwlockattr_setpshared attr 1, 0)
      else (attr, EINVAL))"

definition pthread_rwlockattr_getkind_np :: "rwlockattr \<Rightarrow> int \<times> int" where
  "pthread_rwlockattr_getkind_np attr = (rwlockattr_getkind attr, 0)"

definition pthread_rwlockattr_setkind_np :: "rwlockattr \<Rightarrow> int \<Rightarrow> rwlockattr \<times> int" where
  "pthread_rwlockattr_setkind_np attr pref =
     (if pref = PTHREAD_RWLOCK_PREFER_READER_NP \<or> pref = PTHREAD_RWLOCK_PREFER_WRITER_NONRECURSIVE_NP
      then (rwlockattr_setkind attr pref, 0) else (attr, EINVAL))"

section \<open>The state word\<close>

abbreviation (input) STATE_HAVE_PENDING_READERS_FLAG :: u32 where "STATE_HAVE_PENDING_READERS_FLAG \<equiv> 1"
abbreviation (input) STATE_HAVE_PENDING_WRITERS_FLAG :: u32 where "STATE_HAVE_PENDING_WRITERS_FLAG \<equiv> 2"
abbreviation (input) STATE_READER_COUNT_CHANGE_STEP :: u32 where "STATE_READER_COUNT_CHANGE_STEP \<equiv> 4"
abbreviation (input) STATE_OWNED_BY_WRITER_FLAG :: u32 where "STATE_OWNED_BY_WRITER_FLAG \<equiv> push_bit 31 1"
abbreviation (input) STATE_HAVE_PENDING_READERS_OR_WRITERS_FLAG :: u32 where
  "STATE_HAVE_PENDING_READERS_OR_WRITERS_FLAG \<equiv>
     STATE_HAVE_PENDING_READERS_FLAG OR STATE_HAVE_PENDING_WRITERS_FLAG"

definition state_owned_by_writer :: "u32 \<Rightarrow> bool" where
  "state_owned_by_writer state \<longleftrightarrow> sint state < 0"

definition state_owned_by_readers :: "u32 \<Rightarrow> bool" where
  "state_owned_by_readers state \<longleftrightarrow> sint state \<ge> sint STATE_READER_COUNT_CHANGE_STEP"

definition state_owned_by_readers_or_writer :: "u32 \<Rightarrow> bool" where
  "state_owned_by_readers_or_writer state \<longleftrightarrow> sint state < 0 \<or> sint state \<ge> sint STATE_READER_COUNT_CHANGE_STEP"

definition state_add_writer_flag :: "u32 \<Rightarrow> u32" where
  "state_add_writer_flag state = state OR STATE_OWNED_BY_WRITER_FLAG"

definition state_is_last_reader :: "u32 \<Rightarrow> bool" where
  "state_is_last_reader state \<longleftrightarrow> drop_bit 2 (sint state) = 1"

definition state_have_pending_writers :: "u32 \<Rightarrow> bool" where
  "state_have_pending_writers state \<longleftrightarrow> state AND STATE_HAVE_PENDING_WRITERS_FLAG \<noteq> 0"

definition state_have_pending_readers_or_writers :: "u32 \<Rightarrow> bool" where
  "state_have_pending_readers_or_writers state \<longleftrightarrow>
     state AND STATE_HAVE_PENDING_READERS_OR_WRITERS_FLAG \<noteq> 0"

record 'k rwlock =
  rw_state :: u32
  rw_writer_tid :: tid
  rw_pshared :: bool
  rw_preferred :: bool
  rw_pending_lock :: "tid option"
  rw_pending_reader_count :: u32
  rw_pending_writer_count :: u32
  rw_reader_serial :: u32
  rw_writer_serial :: u32
  rw_reader_futex :: 'k
  rw_writer_futex :: 'k

definition pthread_rwlock_init :: "rwlockattr option \<Rightarrow> 'k \<Rightarrow> 'k rwlock \<times> int" where
  "pthread_rwlock_init attr k =
     (let z = \<lparr>rw_state = 0, rw_writer_tid = 0, rw_pshared = False, rw_preferred = False,
               rw_pending_lock = None, rw_pending_reader_count = 0, rw_pending_writer_count = 0,
               rw_reader_serial = 0, rw_writer_serial = 0, rw_reader_futex = k, rw_writer_futex = k\<rparr> in
      case attr of
        None \<Rightarrow> (z, 0)
      | Some a \<Rightarrow>
          let z = z\<lparr>rw_pshared := rwlockattr_getpshared a\<rparr>; kind = rwlockattr_getkind a in
          if kind = PTHREAD_RWLOCK_PREFER_READER_NP \<or> kind = PTHREAD_RWLOCK_PREFER_WRITER_NONRECURSIVE_NP then
            let z = z\<lparr>rw_preferred := (kind = PTHREAD_RWLOCK_PREFER_WRITER_NONRECURSIVE_NP)\<rparr> in
            if a AND RWLOCKATTR_RESERVED_MASK \<noteq> 0 then (z, EINVAL) else (z, 0)
          else (z, EINVAL))"

definition pthread_rwlock_destroy :: "'k rwlock \<Rightarrow> int" where
  "pthread_rwlock_destroy g = (if rw_state g \<noteq> 0 then EBUSY else 0)"

definition can_acquire_read_lock :: "u32 \<Rightarrow> bool \<Rightarrow> bool" where
  "can_acquire_read_lock old_state writer_nonrecursive_preferred \<longleftrightarrow>
     \<not> (state_owned_by_writer old_state \<or>
        (writer_nonrecursive_preferred \<and> state_have_pending_writers old_state))"

definition can_acquire_write_lock :: "u32 \<Rightarrow> bool" where
  "can_acquire_write_lock old_state \<longleftrightarrow> \<not> state_owned_by_readers_or_writer old_state"

section \<open>Threads\<close>

text \<open>
  \<open>rw_call\<close> says how a try function was called: by the application, as the first attempt of
  \<open>rdlock\<close> or \<open>wrlock\<close>, or in the loop of the timed functions. The pending part of the two timed
  functions is the same code for readers and writers up to the members it uses.
\<close>

type_synonym rw_timeout = "bool \<times> timespec option"

datatype rw_call = RwTry | RwFast | RwTimed rw_timeout

datatype rw_side = Reader | Writer

datatype rw_pc =
    RwOut
  | RwLoad rw_side rw_call
  | RwCas rw_side rw_call u32
  | RwStore
  | RwTid rw_side rw_timeout
  | RwState rw_side rw_timeout
  | RwLock1 rw_side rw_timeout
  | RwInc rw_side rw_timeout
  | RwOr rw_side rw_timeout
  | RwSerial rw_side rw_timeout u32
  | RwUnlock1 rw_side rw_timeout u32 u32
  | RwWait rw_side rw_timeout u32
  | RwSleep rw_side rw_timeout
  | RwLock2 rw_side rw_timeout int
  | RwDec rw_side rw_timeout int
  | RwAnd rw_side rw_timeout int
  | RwUnlock2 rw_side rw_timeout int
  | RuLoad
  | RuTid
  | RuClear
  | RuAnd
  | RuSub
  | RuLock
  | RuCount
  | RuUnlock "rw_side option"
  | RuWake rw_side

record rw_thread =
  rl_pc :: rw_pc
  rl_reads :: nat
  rl_write :: bool
  rl_ret :: int

definition rw_goto :: "rw_thread \<Rightarrow> rw_pc \<Rightarrow> rw_thread" where
  "rw_goto l pc = l\<lparr>rl_pc := pc\<rparr>"

definition rw_return :: "rw_thread \<Rightarrow> int \<Rightarrow> rw_thread" where
  "rw_return l r = l\<lparr>rl_pc := RwOut, rl_ret := r\<rparr>"

type_synonym 'k rw_outcomes = "('k rwlock \<times> rw_thread) list"

text \<open>What the callers do when a try function fails.\<close>

definition rw_try_failed :: "rw_side \<Rightarrow> rw_call \<Rightarrow> int \<Rightarrow> rw_thread \<Rightarrow> rw_thread" where
  "rw_try_failed sd c result l =
     (case c of
        RwTry \<Rightarrow> rw_return l result
      | RwFast \<Rightarrow> rw_goto l (RwTid sd (False, None))
      | RwTimed tmo \<Rightarrow>
          if result = EAGAIN then rw_return l result
          else case check_timespec (snd tmo) True of
              None \<Rightarrow> l
            | Some r \<Rightarrow> if r \<noteq> 0 then rw_return l r else rw_goto l (RwState sd tmo))"

text \<open>\<open>__pthread_rwlock_tryrdlock\<close>: the head of its loop for the value read, and its steps.\<close>

definition tryrdlock_check :: "rw_call \<Rightarrow> u32 \<Rightarrow> 'k rwlock \<Rightarrow> rw_thread \<Rightarrow> rw_thread" where
  "tryrdlock_check c old_state g l =
     (if can_acquire_read_lock old_state (rw_preferred g) then
        if \<not> state_owned_by_readers (old_state + STATE_READER_COUNT_CHANGE_STEP)
        then rw_try_failed Reader c EAGAIN l
        else rw_goto l (RwCas Reader c old_state)
      else rw_try_failed Reader c EBUSY l)"

definition pthread_rwlock_tryrdlock_step :: "'k rwlock \<Rightarrow> rw_thread \<Rightarrow> 'k rw_outcomes" where
  "pthread_rwlock_tryrdlock_step g l =
     (case rl_pc l of
        RwLoad Reader c \<Rightarrow> [(g, tryrdlock_check c (rw_state g) g l)]
      | RwCas Reader c old_state \<Rightarrow>
          (if rw_state g = old_state then
             [(g\<lparr>rw_state := old_state + STATE_READER_COUNT_CHANGE_STEP\<rparr>,
               rw_return (l\<lparr>rl_reads := rl_reads l + 1\<rparr>) 0)]
           else []) @ [(g, tryrdlock_check c (rw_state g) g l)]
      | _ \<Rightarrow> [])"

definition trywrlock_check :: "rw_call \<Rightarrow> u32 \<Rightarrow> rw_thread \<Rightarrow> rw_thread" where
  "trywrlock_check c old_state l =
     (if can_acquire_write_lock old_state then rw_goto l (RwCas Writer c old_state)
      else rw_try_failed Writer c EBUSY l)"

definition pthread_rwlock_trywrlock_step :: "tid \<Rightarrow> 'k rwlock \<Rightarrow> rw_thread \<Rightarrow> 'k rw_outcomes" where
  "pthread_rwlock_trywrlock_step t g l =
     (case rl_pc l of
        RwLoad Writer c \<Rightarrow> [(g, trywrlock_check c (rw_state g) l)]
      | RwCas Writer c old_state \<Rightarrow>
          (if rw_state g = old_state then
             [(g\<lparr>rw_state := state_add_writer_flag old_state\<rparr>, rw_goto l RwStore)]
           else []) @ [(g, trywrlock_check c (rw_state g) l)]
      | RwStore \<Rightarrow> [(g\<lparr>rw_writer_tid := t\<rparr>, rw_return (l\<lparr>rl_write := True\<rparr>) 0)]
      | _ \<Rightarrow> [])"

definition can_acquire :: "rw_side \<Rightarrow> u32 \<Rightarrow> 'k rwlock \<Rightarrow> bool" where
  "can_acquire sd old_state g \<longleftrightarrow>
     (case sd of Reader \<Rightarrow> can_acquire_read_lock old_state (rw_preferred g)
      | Writer \<Rightarrow> can_acquire_write_lock old_state)"

definition pending_flag :: "rw_side \<Rightarrow> u32" where
  "pending_flag sd = (case sd of Reader \<Rightarrow> STATE_HAVE_PENDING_READERS_FLAG | Writer \<Rightarrow> STATE_HAVE_PENDING_WRITERS_FLAG)"

definition pending_count :: "rw_side \<Rightarrow> 'k rwlock \<Rightarrow> u32" where
  "pending_count sd g = (case sd of Reader \<Rightarrow> rw_pending_reader_count g | Writer \<Rightarrow> rw_pending_writer_count g)"

definition set_pending_count :: "rw_side \<Rightarrow> u32 \<Rightarrow> 'k rwlock \<Rightarrow> 'k rwlock" where
  "set_pending_count sd n g =
     (case sd of Reader \<Rightarrow> g\<lparr>rw_pending_reader_count := n\<rparr> | Writer \<Rightarrow> g\<lparr>rw_pending_writer_count := n\<rparr>)"

definition wakeup_serial :: "rw_side \<Rightarrow> 'k rwlock \<Rightarrow> u32" where
  "wakeup_serial sd g = (case sd of Reader \<Rightarrow> rw_reader_serial g | Writer \<Rightarrow> rw_writer_serial g)"

definition set_wakeup_serial :: "rw_side \<Rightarrow> u32 \<Rightarrow> 'k rwlock \<Rightarrow> 'k rwlock" where
  "set_wakeup_serial sd n g = (case sd of Reader \<Rightarrow> g\<lparr>rw_reader_serial := n\<rparr> | Writer \<Rightarrow> g\<lparr>rw_writer_serial := n\<rparr>)"

definition rw_futex :: "rw_side \<Rightarrow> 'k rwlock \<Rightarrow> 'k" where
  "rw_futex sd g = (case sd of Reader \<Rightarrow> rw_reader_futex g | Writer \<Rightarrow> rw_writer_futex g)"

definition set_rw_futex :: "rw_side \<Rightarrow> 'k \<Rightarrow> 'k rwlock \<Rightarrow> 'k rwlock" where
  "set_rw_futex sd k g = (case sd of Reader \<Rightarrow> g\<lparr>rw_reader_futex := k\<rparr> | Writer \<Rightarrow> g\<lparr>rw_writer_futex := k\<rparr>)"

text \<open>The loops of \<open>__pthread_rwlock_timedrdlock\<close> and \<open>__pthread_rwlock_timedwrlock\<close> after a failed try.\<close>

definition rw_pending_step ::
  "'k futex_ops \<Rightarrow> rw_side \<Rightarrow> tid \<Rightarrow> 'k rwlock \<Rightarrow> rw_thread \<Rightarrow> 'k rw_outcomes" where
  "rw_pending_step fx sd t g l =
     (case rl_pc l of
        RwState _ tmo \<Rightarrow>
          [(g, rw_goto l (if can_acquire sd (rw_state g) g then RwLoad sd (RwTimed tmo) else RwLock1 sd tmo))]
      | RwLock1 _ tmo \<Rightarrow>
          if rw_pending_lock g = None then [(g\<lparr>rw_pending_lock := Some t\<rparr>, rw_goto l (RwInc sd tmo))] else []
      | RwInc _ tmo \<Rightarrow> [(set_pending_count sd (pending_count sd g + 1) g, rw_goto l (RwOr sd tmo))]
      | RwOr _ tmo \<Rightarrow>
          [(g\<lparr>rw_state := rw_state g OR pending_flag sd\<rparr>, rw_goto l (RwSerial sd tmo (rw_state g)))]
      | RwSerial _ tmo old_state \<Rightarrow> [(g, rw_goto l (RwUnlock1 sd tmo old_state (wakeup_serial sd g)))]
      | RwUnlock1 _ tmo old_state old_serial \<Rightarrow>
          [(g\<lparr>rw_pending_lock := None\<rparr>,
            rw_goto l (if \<not> can_acquire sd old_state g then RwWait sd tmo old_serial else RwLock2 sd tmo 0))]
      | RwWait _ tmo old_serial \<Rightarrow>
          map (\<lambda>(k, r). (set_rw_futex sd k g,
                 rw_goto l (case r of None \<Rightarrow> RwSleep sd tmo | Some r \<Rightarrow> RwLock2 sd tmo r)))
            (fx_wait fx t (wakeup_serial sd g) old_serial (rw_futex sd g))
      | RwSleep _ tmo \<Rightarrow>
          map (\<lambda>(k, r). (set_rw_futex sd k g, rw_goto l (RwLock2 sd tmo r))) (fx_leave fx t (rw_futex sd g))
      | RwLock2 _ tmo r \<Rightarrow>
          if rw_pending_lock g = None then [(g\<lparr>rw_pending_lock := Some t\<rparr>, rw_goto l (RwDec sd tmo r))] else []
      | RwDec _ tmo r \<Rightarrow>
          [(set_pending_count sd (pending_count sd g - 1) g,
            rw_goto l (if pending_count sd g - 1 = 0 then RwAnd sd tmo r else RwUnlock2 sd tmo r))]
      | RwAnd _ tmo r \<Rightarrow> [(g\<lparr>rw_state := rw_state g AND NOT (pending_flag sd)\<rparr>, rw_goto l (RwUnlock2 sd tmo r))]
      | RwUnlock2 _ tmo r \<Rightarrow>
          [(g\<lparr>rw_pending_lock := None\<rparr>,
            if r = - ETIMEDOUT then rw_return l ETIMEDOUT else rw_goto l (RwLoad sd (RwTimed tmo)))]
      | _ \<Rightarrow> [])"

definition rw_pc_side :: "rw_pc \<Rightarrow> rw_side option" where
  "rw_pc_side pc =
     (case pc of
        RwTid sd _ \<Rightarrow> Some sd | RwState sd _ \<Rightarrow> Some sd | RwLock1 sd _ \<Rightarrow> Some sd | RwInc sd _ \<Rightarrow> Some sd
      | RwOr sd _ \<Rightarrow> Some sd | RwSerial sd _ _ \<Rightarrow> Some sd | RwUnlock1 sd _ _ _ \<Rightarrow> Some sd
      | RwWait sd _ _ \<Rightarrow> Some sd | RwSleep sd _ \<Rightarrow> Some sd | RwLock2 sd _ _ \<Rightarrow> Some sd
      | RwDec sd _ _ \<Rightarrow> Some sd | RwAnd sd _ _ \<Rightarrow> Some sd | RwUnlock2 sd _ _ \<Rightarrow> Some sd | _ \<Rightarrow> None)"

definition pthread_rwlock_timedrdlock_step ::
  "'k futex_ops \<Rightarrow> tid \<Rightarrow> 'k rwlock \<Rightarrow> rw_thread \<Rightarrow> 'k rw_outcomes" where
  "pthread_rwlock_timedrdlock_step fx t g l =
     (if rw_pc_side (rl_pc l) = Some Reader then
        (case rl_pc l of
           RwTid _ tmo \<Rightarrow>
             [(g, if rw_writer_tid g = t then rw_return l EDEADLK else rw_goto l (RwLoad Reader (RwTimed tmo)))]
         | _ \<Rightarrow> rw_pending_step fx Reader t g l)
      else pthread_rwlock_tryrdlock_step g l)"

definition pthread_rwlock_timedwrlock_step ::
  "'k futex_ops \<Rightarrow> tid \<Rightarrow> 'k rwlock \<Rightarrow> rw_thread \<Rightarrow> 'k rw_outcomes" where
  "pthread_rwlock_timedwrlock_step fx t g l =
     (if rw_pc_side (rl_pc l) = Some Writer then
        (case rl_pc l of
           RwTid _ tmo \<Rightarrow>
             [(g, if rw_writer_tid g = t then rw_return l EDEADLK else rw_goto l (RwLoad Writer (RwTimed tmo)))]
         | _ \<Rightarrow> rw_pending_step fx Writer t g l)
      else pthread_rwlock_trywrlock_step t g l)"

definition pthread_rwlock_unlock_step ::
  "'k futex_ops \<Rightarrow> tid \<Rightarrow> 'k rwlock \<Rightarrow> rw_thread \<Rightarrow> 'k rw_outcomes" where
  "pthread_rwlock_unlock_step fx t g l =
     (case rl_pc l of
        RuLoad \<Rightarrow>
          [(g, if state_owned_by_writer (rw_state g) then rw_goto l RuTid
               else if state_owned_by_readers (rw_state g) then rw_goto l RuSub
               else rw_return l EPERM)]
      | RuTid \<Rightarrow> [(g, if rw_writer_tid g \<noteq> t then rw_return l EPERM else rw_goto l RuClear)]
      | RuClear \<Rightarrow> [(g\<lparr>rw_writer_tid := 0\<rparr>, rw_goto l RuAnd)]
      | RuAnd \<Rightarrow>
          (let l = l\<lparr>rl_write := False\<rparr> in
           [(g\<lparr>rw_state := rw_state g AND NOT STATE_OWNED_BY_WRITER_FLAG\<rparr>,
             if \<not> state_have_pending_readers_or_writers (rw_state g) then rw_return l 0
             else rw_goto l RuLock)])
      | RuSub \<Rightarrow>
          (let l = l\<lparr>rl_reads := rl_reads l - 1\<rparr> in
           [(g\<lparr>rw_state := rw_state g - STATE_READER_COUNT_CHANGE_STEP\<rparr>,
             if \<not> state_is_last_reader (rw_state g) \<or> \<not> state_have_pending_readers_or_writers (rw_state g)
             then rw_return l 0 else rw_goto l RuLock)])
      | RuLock \<Rightarrow> if rw_pending_lock g = None then [(g\<lparr>rw_pending_lock := Some t\<rparr>, rw_goto l RuCount)] else []
      | RuCount \<Rightarrow>
          if rw_pending_writer_count g \<noteq> 0 then
            [(set_wakeup_serial Writer (wakeup_serial Writer g + 1) g, rw_goto l (RuUnlock (Some Writer)))]
          else if rw_pending_reader_count g \<noteq> 0 then
            [(set_wakeup_serial Reader (wakeup_serial Reader g + 1) g, rw_goto l (RuUnlock (Some Reader)))]
          else [(g, rw_goto l (RuUnlock None))]
      | RuUnlock w \<Rightarrow>
          [(g\<lparr>rw_pending_lock := None\<rparr>, case w of None \<Rightarrow> rw_return l 0 | Some sd \<Rightarrow> rw_goto l (RuWake sd))]
      | RuWake sd \<Rightarrow>
          map (\<lambda>(k, r). (set_rw_futex sd k g, rw_return l 0))
            (fx_wake fx (case sd of Writer \<Rightarrow> 1 | Reader \<Rightarrow> INT_MAX_nat) (rw_futex sd g))
      | _ \<Rightarrow> [])"

text \<open>
  The calls: \<open>rdlock\<close>, \<open>wrlock\<close>, the try and the timed functions. Unlocking a lock that the caller does
  not hold is undefined, so that call is left out.
\<close>

definition pthread_rwlock_rdlock :: "rw_thread \<Rightarrow> rw_thread" where
  "pthread_rwlock_rdlock l = rw_goto l (RwLoad Reader RwFast)"

definition pthread_rwlock_timedrdlock :: "timespec option \<Rightarrow> rw_thread \<Rightarrow> rw_thread" where
  "pthread_rwlock_timedrdlock abs_timeout l = rw_goto l (RwTid Reader (True, abs_timeout))"

definition pthread_rwlock_timedrdlock_monotonic_np :: "timespec option \<Rightarrow> rw_thread \<Rightarrow> rw_thread" where
  "pthread_rwlock_timedrdlock_monotonic_np abs_timeout l = rw_goto l (RwTid Reader (False, abs_timeout))"

definition pthread_rwlock_clockrdlock :: "int \<Rightarrow> timespec option \<Rightarrow> rw_thread \<Rightarrow> rw_thread" where
  "pthread_rwlock_clockrdlock clock abs_timeout l =
     (if clock = CLOCK_MONOTONIC then pthread_rwlock_timedrdlock_monotonic_np abs_timeout l
      else if clock = CLOCK_REALTIME then pthread_rwlock_timedrdlock abs_timeout l
      else rw_return l EINVAL)"

definition pthread_rwlock_tryrdlock :: "rw_thread \<Rightarrow> rw_thread" where
  "pthread_rwlock_tryrdlock l = rw_goto l (RwLoad Reader RwTry)"

definition pthread_rwlock_wrlock :: "rw_thread \<Rightarrow> rw_thread" where
  "pthread_rwlock_wrlock l = rw_goto l (RwLoad Writer RwFast)"

definition pthread_rwlock_timedwrlock :: "timespec option \<Rightarrow> rw_thread \<Rightarrow> rw_thread" where
  "pthread_rwlock_timedwrlock abs_timeout l = rw_goto l (RwTid Writer (True, abs_timeout))"

definition pthread_rwlock_timedwrlock_monotonic_np :: "timespec option \<Rightarrow> rw_thread \<Rightarrow> rw_thread" where
  "pthread_rwlock_timedwrlock_monotonic_np abs_timeout l = rw_goto l (RwTid Writer (False, abs_timeout))"

definition pthread_rwlock_clockwrlock :: "int \<Rightarrow> timespec option \<Rightarrow> rw_thread \<Rightarrow> rw_thread" where
  "pthread_rwlock_clockwrlock clock abs_timeout l =
     (if clock = CLOCK_MONOTONIC then pthread_rwlock_timedwrlock_monotonic_np abs_timeout l
      else if clock = CLOCK_REALTIME then pthread_rwlock_timedwrlock abs_timeout l
      else rw_return l EINVAL)"

definition pthread_rwlock_trywrlock :: "rw_thread \<Rightarrow> rw_thread" where
  "pthread_rwlock_trywrlock l = rw_goto l (RwLoad Writer RwTry)"

definition rwlock_calls :: "(int \<times> timespec option) list \<Rightarrow> rw_thread \<Rightarrow> rw_thread list" where
  "rwlock_calls tmos l =
     [pthread_rwlock_rdlock l, pthread_rwlock_wrlock l, pthread_rwlock_tryrdlock l, pthread_rwlock_trywrlock l] @
     (if 0 < rl_reads l \<or> rl_write l then [rw_goto l RuLoad] else []) @
     map (\<lambda>(clock, ts). pthread_rwlock_clockrdlock clock ts l) tmos @
     map (\<lambda>(clock, ts). pthread_rwlock_clockwrlock clock ts l) tmos"

text \<open>Thread identifiers are positive; zero in \<open>writer_tid\<close> means nobody.\<close>

definition rwlock_step ::
  "'k futex_ops \<Rightarrow> (int \<times> timespec option) list \<Rightarrow> ('k rwlock, rw_thread) thread_step" where
  "rwlock_step fx tmos t g l =
     (if t = 0 then []
      else if rl_pc l = RwOut then map (\<lambda>l'. (g, l')) (rwlock_calls tmos l)
      else pthread_rwlock_timedrdlock_step fx t g l @ pthread_rwlock_timedwrlock_step fx t g l @
           pthread_rwlock_unlock_step fx t g l)"

section \<open>The fields of the state word\<close>

definition rw_count :: "u32 \<Rightarrow> nat" where
  "rw_count x = unat x mod 2147483648 div 4"

lemma rw_count_bits: "rw_count x = unat (drop_bit 2 (x AND mask 31))"
  by (simp only: rw_count_def unat_drop_bit unat_and_mask) simp

lemma owned_by_writer_bit: "state_owned_by_writer x \<longleftrightarrow> bit x 31"
  using bit_last_iff [of x] by (simp add: state_owned_by_writer_def)

lemma owned_by_writer_unat: "state_owned_by_writer x \<longleftrightarrow> 2147483648 \<le> unat x"
proof -
  have "bit x 31 \<longleftrightarrow> bit (unat x) 31" by (simp add: bit_unsigned_iff)
  moreover have "bit (unat x) 31 \<longleftrightarrow> odd (unat x div 2147483648)" by (simp add: bit_iff_odd)
  moreover have "unat x div 2147483648 < 2" by (rule less_mult_imp_div_less) (use unat_less_exp(3) [of x] in simp)
  ultimately show ?thesis unfolding owned_by_writer_bit by (auto simp: less_2_cases_iff)
qed

lemma sint_reader:
  assumes "\<not> state_owned_by_writer x"
  shows "sint x = int (unat x)"
proof -
  have u: "uint x = int (unat x)" by simp
  have "sint (word_of_int (uint x) :: u32) = (uint x + 2147483648) mod 4294967296 - 2147483648"
    by (subst int_word_sint) simp
  then have "sint x = (uint x + 2147483648) mod 4294967296 - 2147483648" by (simp only: word_of_int_uint)
  moreover have "unat x < 2147483648" using assms by (simp add: owned_by_writer_unat)
  then have "0 \<le> int (unat x) + 2147483648" "int (unat x) + 2147483648 < 4294967296" by linarith+
  ultimately show ?thesis unfolding u by (simp only: mod_pos_pos_trivial)
qed

lemma owned_by_readers_iff: "state_owned_by_readers x \<longleftrightarrow> \<not> state_owned_by_writer x \<and> 0 < rw_count x"
proof (cases "state_owned_by_writer x")
  case True
  then show ?thesis by (simp add: state_owned_by_readers_def state_owned_by_writer_def)
next
  case False
  then have "unat x < 2147483648" by (simp add: owned_by_writer_unat)
  then have "0 < rw_count x \<longleftrightarrow> 4 \<le> unat x" by (auto simp: rw_count_def div_greater_zero_iff)
  moreover have "sint (4 :: u32) = 4" by simp
  moreover have "4 \<le> int (unat x) \<longleftrightarrow> 4 \<le> unat x" by linarith
  ultimately show ?thesis unfolding state_owned_by_readers_def sint_reader [OF False] using False by (simp only: simp_thms)
qed

lemma can_acquire_write_iff:
  "can_acquire_write_lock x \<longleftrightarrow> \<not> state_owned_by_writer x \<and> rw_count x = 0"
  using owned_by_readers_iff [of x]
  by (auto simp: can_acquire_write_lock_def state_owned_by_readers_or_writer_def state_owned_by_readers_def
      state_owned_by_writer_def)

lemma rw_count_cong:
  assumes "\<And>i. 2 \<le> i \<Longrightarrow> i < 31 \<Longrightarrow> bit x i = bit y i"
  shows "rw_count x = rw_count y"
proof -
  have "bit (drop_bit 2 (x AND mask 31)) i = bit (drop_bit 2 (y AND mask 31)) i" for i
    using assms [of "2 + i"] by (auto simp: bit_drop_bit_eq bit_and_iff bit_mask_iff)
  then have "drop_bit 2 (x AND mask 31) = drop_bit 2 (y AND mask 31)" by (rule bit_eqI)
  then show ?thesis by (simp only: rw_count_bits)
qed

lemma rw_flag_ops:
  assumes "f = 1 \<or> f = 2"
  shows "rw_count (x OR f) = rw_count x" "state_owned_by_writer (x OR f) = state_owned_by_writer x"
    "rw_count (x AND NOT f) = rw_count x" "state_owned_by_writer (x AND NOT f) = state_owned_by_writer x"
proof -
  have "(2 :: u32) = push_bit 1 1" by simp
  then have "bit (2 :: u32) i \<longleftrightarrow> i = 1" for i by (simp only: bit_push_bit_iff bit_1_iff) auto
  then have "\<not> bit (2 :: u32) i" "\<not> bit (1 :: u32) i" if "2 \<le> i" for i
    using that by (simp_all add: bit_1_iff)
  with assms have nb: "\<not> bit f i" if "2 \<le> i" for i using that by (elim disjE) (simp_all only: not_False_eq_True)
  show "rw_count (x OR f) = rw_count x" "rw_count (x AND NOT f) = rw_count x"
    by (rule rw_count_cong; use nb in \<open>simp add: bit_or_iff bit_and_iff bit_not_iff\<close>)+
  show "state_owned_by_writer (x OR f) = state_owned_by_writer x"
    "state_owned_by_writer (x AND NOT f) = state_owned_by_writer x"
    unfolding owned_by_writer_bit using nb [of 31] by (simp_all add: bit_or_iff bit_and_iff bit_not_iff)
qed

lemma rw_writer_ops:
  "rw_count (x OR push_bit 31 1) = rw_count x" "state_owned_by_writer (x OR push_bit 31 1)"
  "rw_count (x AND NOT (push_bit 31 1)) = rw_count x" "\<not> state_owned_by_writer (x AND NOT (push_bit 31 1))"
proof -
  have nb: "bit (push_bit 31 1 :: u32) i \<longleftrightarrow> i = 31" for i by (simp only: bit_push_bit_iff bit_1_iff) auto
  show "rw_count (x OR push_bit 31 1) = rw_count x" "rw_count (x AND NOT (push_bit 31 1)) = rw_count x"
    by (rule rw_count_cong; simp only: bit_or_iff bit_and_iff bit_not_iff nb; simp)+
  show "state_owned_by_writer (x OR push_bit 31 1)" "\<not> state_owned_by_writer (x AND NOT (push_bit 31 1))"
    unfolding owned_by_writer_bit by (simp_all only: bit_or_iff bit_and_iff bit_not_iff nb) simp_all
qed

lemma rw_count_add:
  assumes "\<not> state_owned_by_writer x" "state_owned_by_readers (x + 4)"
  shows "rw_count (x + 4) = Suc (rw_count x)" "\<not> state_owned_by_writer (x + 4)"
proof -
  have x: "unat x < 2147483648" using assms(1) by (simp add: owned_by_writer_unat)
  then have u: "unat (x + 4) = unat x + 4" by (simp add: unat_word_ariths)
  moreover have "unat (x + 4) < 2147483648" using assms(2) by (simp add: owned_by_readers_iff owned_by_writer_unat)
  ultimately show "rw_count (x + 4) = Suc (rw_count x)" "\<not> state_owned_by_writer (x + 4)"
    using x by (simp_all add: rw_count_def owned_by_writer_unat)
qed

lemma rw_count_sub:
  assumes "\<not> state_owned_by_writer x" "0 < rw_count x"
  shows "rw_count (x - 4) = rw_count x - 1" "\<not> state_owned_by_writer (x - 4)"
proof -
  have x: "unat x < 2147483648" "4 \<le> unat x"
    using assms by (auto simp: owned_by_writer_unat rw_count_def div_greater_zero_iff)
  then have "unat (x - 4) = unat x - 4" by (simp add: unat_sub word_le_nat_alt)
  with x show "rw_count (x - 4) = rw_count x - 1" "\<not> state_owned_by_writer (x - 4)"
    by (simp_all add: rw_count_def owned_by_writer_unat)
qed

section \<open>The invariant\<close>

text \<open>
  The ghost value is the multiset of the threads that hold the lock for reading, and the writer
  with how far it is, if there is one.
\<close>

datatype rw_mode = Acquiring | Holding | Releasing

type_synonym rw_ghost = "tid multiset \<times> (tid \<times> rw_mode) option"

definition rw_G :: "rw_ghost \<Rightarrow> 'k rwlock \<Rightarrow> bool" where
  "rw_G h g \<longleftrightarrow>
     (case h of (R, W) \<Rightarrow>
        rw_count (rw_state g) = size R \<and> (state_owned_by_writer (rw_state g) \<longleftrightarrow> W \<noteq> None) \<and>
        (W \<noteq> None \<longrightarrow> R = {#}) \<and>
        rw_writer_tid g = (case W of Some (t, Holding) \<Rightarrow> t | _ \<Rightarrow> 0) \<and> (\<forall>t m. W = Some (t, m) \<longrightarrow> t \<noteq> 0))"

definition rw_pc_ok :: "rw_pc \<Rightarrow> bool" where
  "rw_pc_ok pc \<longleftrightarrow>
     (case pc of
        RwCas Reader _ old \<Rightarrow> \<not> state_owned_by_writer old \<and> state_owned_by_readers (old + 4)
      | RwCas Writer _ old \<Rightarrow> can_acquire_write_lock old
      | _ \<Rightarrow> True)"

definition rw_L :: "rw_ghost \<Rightarrow> tid \<Rightarrow> rw_thread \<Rightarrow> bool" where
  "rw_L h t l \<longleftrightarrow>
     (case h of (R, W) \<Rightarrow>
        rl_reads l = count R t \<and> (rl_write l \<longleftrightarrow> W = Some (t, Holding) \<or> W = Some (t, Releasing)) \<and>
        (rl_pc l = RwStore \<longleftrightarrow> W = Some (t, Acquiring)) \<and> (rl_pc l = RuAnd \<longleftrightarrow> W = Some (t, Releasing)) \<and>
        (rl_pc l = RuClear \<longrightarrow> W = Some (t, Holding)) \<and> (rl_pc l = RuSub \<longrightarrow> 0 < rl_reads l) \<and>
        (rl_pc l = RuLoad \<longrightarrow> 0 < rl_reads l \<or> rl_write l) \<and> rw_pc_ok (rl_pc l))"

definition rw_next where
  "rw_next h t g' l' \<longleftrightarrow> (\<exists>h'. rw_G h' g' \<and> rw_L h' t l' \<and> (\<forall>u m. u \<noteq> t \<longrightarrow> rw_L h u m \<longrightarrow> rw_L h' u m))"

lemma rw_nextI:
  "rw_G h' g' \<Longrightarrow> rw_L h' t l' \<Longrightarrow> (\<And>u m. u \<noteq> t \<Longrightarrow> rw_L h u m \<Longrightarrow> rw_L h' u m) \<Longrightarrow> rw_next h t g' l'"
  unfolding rw_next_def by blast

text \<open>Places that claim nothing about the locks held.\<close>

definition rw_plain :: "rw_pc \<Rightarrow> bool" where
  "rw_plain pc \<longleftrightarrow> pc \<notin> {RwStore, RuAnd, RuClear, RuSub, RuLoad}"

lemma rw_quiet:
  assumes "rw_G h g" "rw_L h t l" "rw_plain (rl_pc l)"
    and "rw_count (rw_state g') = rw_count (rw_state g)"
    and "state_owned_by_writer (rw_state g') = state_owned_by_writer (rw_state g)"
    and "rw_writer_tid g' = rw_writer_tid g"
    and "rl_reads l' = rl_reads l" "rl_write l' = rl_write l" "rw_plain (rl_pc l')" "rw_pc_ok (rl_pc l')"
  shows "rw_next h t g' l'"
proof (rule rw_nextI)
  show "rw_G h g'" using assms(1,4-6) by (simp add: rw_G_def split: prod.splits)
  show "rw_L h t l'" using assms(2,3,7-10) by (simp add: rw_L_def rw_plain_def split: prod.splits)
qed

lemma rw_plain_simps [simp]:
  "rw_plain RwOut" "rw_plain (RwLoad sd c)" "rw_plain (RwCas sd c w)" "rw_plain (RwTid sd tmo)"
  "rw_plain (RwState sd tmo)" "rw_plain (RwLock1 sd tmo)" "rw_plain (RwInc sd tmo)" "rw_plain (RwOr sd tmo)"
  "rw_plain (RwSerial sd tmo w)" "rw_plain (RwUnlock1 sd tmo w v)" "rw_plain (RwWait sd tmo w)"
  "rw_plain (RwSleep sd tmo)" "rw_plain (RwLock2 sd tmo r)" "rw_plain (RwDec sd tmo r)" "rw_plain (RwAnd sd tmo r)"
  "rw_plain (RwUnlock2 sd tmo r)" "rw_plain RuTid" "rw_plain RuLock" "rw_plain RuCount" "rw_plain (RuUnlock x)"
  "rw_plain (RuWake sd)"
  by (simp_all add: rw_plain_def)

lemma rw_pc_ok_simps [simp]:
  "rw_pc_ok RwOut" "rw_pc_ok (RwLoad sd c)" "rw_pc_ok (RwTid sd tmo)"
  "rw_pc_ok (RwState sd tmo)" "rw_pc_ok (RwLock1 sd tmo)" "rw_pc_ok (RwInc sd tmo)" "rw_pc_ok (RwOr sd tmo)"
  "rw_pc_ok (RwSerial sd tmo w)" "rw_pc_ok (RwUnlock1 sd tmo w v)" "rw_pc_ok (RwWait sd tmo w)"
  "rw_pc_ok (RwSleep sd tmo)" "rw_pc_ok (RwLock2 sd tmo r)" "rw_pc_ok (RwDec sd tmo r)" "rw_pc_ok (RwAnd sd tmo r)"
  "rw_pc_ok (RwUnlock2 sd tmo r)" "rw_pc_ok RuTid" "rw_pc_ok RuLock" "rw_pc_ok RuCount" "rw_pc_ok (RuUnlock x)"
  "rw_pc_ok (RuWake sd)" "rw_pc_ok RwStore" "rw_pc_ok RuAnd" "rw_pc_ok RuClear" "rw_pc_ok RuSub" "rw_pc_ok RuLoad"
  "rw_pc_ok (RwCas Reader c old) \<longleftrightarrow> \<not> state_owned_by_writer old \<and> state_owned_by_readers (old + 4)"
  "rw_pc_ok (RwCas Writer c old) \<longleftrightarrow> can_acquire_write_lock old"
  by (simp_all add: rw_pc_ok_def)

lemmas rw_outcome_defs = rw_goto_def rw_return_def

lemma rw_check_quiet:
  assumes "rw_plain (rl_pc l)" "rw_pc_ok (rl_pc l)"
  shows "rl_reads (tryrdlock_check c old g l) = rl_reads l" "rl_write (tryrdlock_check c old g l) = rl_write l"
    "rw_plain (rl_pc (tryrdlock_check c old g l))" "rw_pc_ok (rl_pc (tryrdlock_check c old g l))"
    "rl_reads (trywrlock_check c old l) = rl_reads l" "rl_write (trywrlock_check c old l) = rl_write l"
    "rw_plain (rl_pc (trywrlock_check c old l))" "rw_pc_ok (rl_pc (trywrlock_check c old l))"
  using assms
  by (simp_all add: tryrdlock_check_def trywrlock_check_def rw_try_failed_def can_acquire_read_lock_def
      rw_outcome_defs split: rw_call.split option.split)

lemma rw_take_read:
  assumes G: "rw_G h g" and L: "rw_L h t l" and pc: "rl_pc l = RwCas Reader c (rw_state g)"
  shows "rw_next h t (g\<lparr>rw_state := rw_state g + 4\<rparr>) (rw_return (l\<lparr>rl_reads := rl_reads l + 1\<rparr>) 0)"
proof -
  obtain R W where h: "h = (R, W)" by (cases h)
  have ok: "\<not> state_owned_by_writer (rw_state g)" "state_owned_by_readers (rw_state g + 4)"
    using L pc by (simp_all add: rw_L_def h)
  then have W: "W = None" using G by (cases W) (auto simp: rw_G_def h)
  note c = rw_count_add [OF ok]
  show ?thesis
  proof (rule rw_nextI [where h' = "(add_mset t R, None)"])
    show "rw_G (add_mset t R, None) (g\<lparr>rw_state := rw_state g + 4\<rparr>)" using G c by (simp add: rw_G_def h W)
    show "rw_L (add_mset t R, None) t (rw_return (l\<lparr>rl_reads := rl_reads l + 1\<rparr>) 0)"
      using L by (simp add: rw_L_def h W rw_return_def)
    show "rw_L (add_mset t R, None) u m" if "u \<noteq> t" "rw_L h u m" for u m
      using that by (auto simp: rw_L_def h W)
  qed
qed

lemma rw_take_write:
  assumes G: "rw_G h g" and L: "rw_L h t l" and t: "t \<noteq> 0" and pc: "rl_pc l = RwCas Writer c (rw_state g)"
  shows "rw_next h t (g\<lparr>rw_state := state_add_writer_flag (rw_state g)\<rparr>) (rw_goto l RwStore)"
proof -
  obtain R W where h: "h = (R, W)" by (cases h)
  have "can_acquire_write_lock (rw_state g)" using L pc by (simp add: rw_L_def h)
  then have z: "W = None" "R = {#}" using G by (cases W; auto simp: rw_G_def h can_acquire_write_iff)+
  show ?thesis
  proof (rule rw_nextI [where h' = "({#}, Some (t, Acquiring))"])
    show "rw_G ({#}, Some (t, Acquiring)) (g\<lparr>rw_state := state_add_writer_flag (rw_state g)\<rparr>)"
      using G t rw_writer_ops(1,2) [of "rw_state g"] by (simp add: rw_G_def h z state_add_writer_flag_def)
    show "rw_L ({#}, Some (t, Acquiring)) t (rw_goto l RwStore)"
      using L pc by (simp add: rw_L_def h z rw_goto_def)
    show "rw_L ({#}, Some (t, Acquiring)) u m" if "u \<noteq> t" "rw_L h u m" for u m
      using that by (auto simp: rw_L_def h z)
  qed
qed

lemma rw_mode_step:
  assumes G: "rw_G (R, Some (t, m)) g" and L: "rw_L (R, Some (t, m)) t l"
    and "rw_state g' = rw_state g" "rw_writer_tid g' = (if m' = Holding then t else 0)"
    and "rw_L (R, Some (t, m')) t l'"
  shows "rw_next (R, Some (t, m)) t g' l'"
  by (rule rw_nextI [where h' = "(R, Some (t, m'))"])
    (use assms in \<open>simp_all add: rw_G_def rw_L_def split: rw_mode.splits\<close>)

lemma rw_release_write:
  assumes G: "rw_G h g" and L: "rw_L h t l" and pc: "rl_pc l = RuAnd" and pc': "rw_plain pc'" "rw_pc_ok pc'"
  shows "rw_next h t (g\<lparr>rw_state := rw_state g AND NOT (push_bit 31 1)\<rparr>)
    (l\<lparr>rl_write := False, rl_pc := pc', rl_ret := r\<rparr>)"
proof -
  obtain R W where h: "h = (R, W)" by (cases h)
  have z: "W = Some (t, Releasing)" "R = {#}" using G L pc by (simp_all add: rw_L_def rw_G_def h)
  show ?thesis
  proof (rule rw_nextI [where h' = "({#}, None)"])
    show "rw_G ({#}, None) (g\<lparr>rw_state := rw_state g AND NOT (push_bit 31 1)\<rparr>)"
      using G rw_writer_ops(3,4) [of "rw_state g"] by (simp add: rw_G_def h z)
    show "rw_L ({#}, None) t (l\<lparr>rl_write := False, rl_pc := pc', rl_ret := r\<rparr>)"
      using L pc' by (simp add: rw_L_def h z rw_plain_def)
    show "rw_L ({#}, None) u m" if "u \<noteq> t" "rw_L h u m" for u m
      using that by (auto simp: rw_L_def h z)
  qed
qed

lemma rw_release_read:
  assumes G: "rw_G h g" and L: "rw_L h t l" and pc: "rl_pc l = RuSub" and pc': "rw_plain pc'" "rw_pc_ok pc'"
  shows "rw_next h t (g\<lparr>rw_state := rw_state g - 4\<rparr>) (l\<lparr>rl_reads := rl_reads l - 1, rl_pc := pc', rl_ret := r\<rparr>)"
proof -
  obtain R W where h: "h = (R, W)" by (cases h)
  have tR: "t \<in># R" using L pc by (auto simp: rw_L_def h)
  then have W: "W = None" and ok: "\<not> state_owned_by_writer (rw_state g)" "0 < rw_count (rw_state g)"
    using G by (auto simp: rw_G_def h nonempty_has_size [symmetric])
  note c = rw_count_sub [OF ok]
  show ?thesis
  proof (rule rw_nextI [where h' = "(R - {#t#}, None)"])
    show "rw_G (R - {#t#}, None) (g\<lparr>rw_state := rw_state g - 4\<rparr>)"
      using G c tR by (simp add: rw_G_def h W size_Diff_singleton)
    show "rw_L (R - {#t#}, None) t (l\<lparr>rl_reads := rl_reads l - 1, rl_pc := pc', rl_ret := r\<rparr>)"
      using L pc' by (simp add: rw_L_def h W rw_plain_def)
    show "rw_L (R - {#t#}, None) u m" if "u \<noteq> t" "rw_L h u m" for u m
      using that by (auto simp: rw_L_def h W)
  qed
qed

lemma rw_pending_step_inv:
  assumes G: "rw_G h g" and L: "rw_L h t l" and sd: "rw_pc_side (rl_pc l) = Some sd"
    and st: "(g', l') \<in> set (rw_pending_step fx sd t g l)"
  shows "rw_next h t g' l'"
proof -
  have f: "pending_flag sd = 1 \<or> pending_flag sd = 2" by (cases sd) (simp_all add: pending_flag_def)
  note ops = rw_flag_ops [OF f, of "rw_state g"]
  have fut: "rw_state (set_rw_futex sd k g) = rw_state g" "rw_writer_tid (set_rw_futex sd k g) = rw_writer_tid g"
    "rw_state (set_pending_count sd n g) = rw_state g" "rw_writer_tid (set_pending_count sd n g) = rw_writer_tid g" for k n
    by (cases sd; simp add: set_rw_futex_def set_pending_count_def)+
  have pl: "rw_plain (rl_pc l)" using sd by (cases "rl_pc l") (simp_all add: rw_pc_side_def)
  have "rw_count (rw_state g') = rw_count (rw_state g) \<and>
      state_owned_by_writer (rw_state g') = state_owned_by_writer (rw_state g) \<and> rw_writer_tid g' = rw_writer_tid g \<and>
      rl_reads l' = rl_reads l \<and> rl_write l' = rl_write l \<and> rw_plain (rl_pc l') \<and> rw_pc_ok (rl_pc l')"
    using st by (cases "rl_pc l")
      (auto simp: rw_pending_step_def rw_outcome_defs ops fut split: if_splits option.splits)
  then show ?thesis by (intro rw_quiet [OF G L pl]) simp_all
qed

lemma timedrdlock_step_inv:
  assumes G: "rw_G h g" and L: "rw_L h t l" and st: "(g', l') \<in> set (pthread_rwlock_timedrdlock_step fx t g l)"
  shows "rw_next h t g' l'"
proof (cases "rw_pc_side (rl_pc l) = Some Reader")
  case True
  show ?thesis
  proof (cases "\<exists>tmo. rl_pc l = RwTid Reader tmo")
    case True
    then show ?thesis using st
      by (intro rw_quiet [OF G L])
        (auto simp: pthread_rwlock_timedrdlock_step_def rw_pc_side_def rw_outcome_defs split: if_splits)
  next
    case False
    with True st have "(g', l') \<in> set (rw_pending_step fx Reader t g l)"
      by (auto simp: pthread_rwlock_timedrdlock_step_def rw_pc_side_def split: rw_pc.splits)
    then show ?thesis by (rule rw_pending_step_inv [OF G L True])
  qed
next
  case False
  then have st: "(g', l') \<in> set (pthread_rwlock_tryrdlock_step g l)"
    using st by (simp add: pthread_rwlock_timedrdlock_step_def)
  have ok: "rw_pc_ok (rl_pc l)" using L by (simp add: rw_L_def split: prod.splits)
  consider c where "rl_pc l = RwLoad Reader c" "g' = g" "l' = tryrdlock_check c (rw_state g) g l"
    | c old where "rl_pc l = RwCas Reader c old" "g' = g" "l' = tryrdlock_check c (rw_state g) g l"
    | c where "rl_pc l = RwCas Reader c (rw_state g)" "g' = g\<lparr>rw_state := rw_state g + 4\<rparr>"
        "l' = rw_return (l\<lparr>rl_reads := rl_reads l + 1\<rparr>) 0"
    using st by (auto simp: pthread_rwlock_tryrdlock_step_def split: rw_pc.splits rw_side.splits if_splits)
  then show ?thesis
  proof cases
    case 1
    then show ?thesis using rw_check_quiet [of l] ok by (intro rw_quiet [OF G L]) simp_all
  next
    case 2
    then show ?thesis using rw_check_quiet [of l] ok by (intro rw_quiet [OF G L]) simp_all
  next
    case 3
    then show ?thesis using rw_take_read [OF G L] by simp
  qed
qed

lemma timedwrlock_step_inv:
  assumes G: "rw_G h g" and L: "rw_L h t l" and t: "t \<noteq> 0"
    and st: "(g', l') \<in> set (pthread_rwlock_timedwrlock_step fx t g l)"
  shows "rw_next h t g' l'"
proof (cases "rw_pc_side (rl_pc l) = Some Writer")
  case True
  show ?thesis
  proof (cases "\<exists>tmo. rl_pc l = RwTid Writer tmo")
    case True
    then show ?thesis using st
      by (intro rw_quiet [OF G L])
        (auto simp: pthread_rwlock_timedwrlock_step_def rw_pc_side_def rw_outcome_defs split: if_splits)
  next
    case False
    with True st have "(g', l') \<in> set (rw_pending_step fx Writer t g l)"
      by (auto simp: pthread_rwlock_timedwrlock_step_def rw_pc_side_def split: rw_pc.splits)
    then show ?thesis by (rule rw_pending_step_inv [OF G L True])
  qed
next
  case False
  then have st: "(g', l') \<in> set (pthread_rwlock_trywrlock_step t g l)"
    using st by (simp add: pthread_rwlock_timedwrlock_step_def)
  have ok: "rw_pc_ok (rl_pc l)" using L by (simp add: rw_L_def split: prod.splits)
  consider c where "rl_pc l = RwLoad Writer c" "g' = g" "l' = trywrlock_check c (rw_state g) l"
    | c old where "rl_pc l = RwCas Writer c old" "g' = g" "l' = trywrlock_check c (rw_state g) l"
    | c where "rl_pc l = RwCas Writer c (rw_state g)" "g' = g\<lparr>rw_state := state_add_writer_flag (rw_state g)\<rparr>"
        "l' = rw_goto l RwStore"
    | "rl_pc l = RwStore" "g' = g\<lparr>rw_writer_tid := t\<rparr>" "l' = rw_return (l\<lparr>rl_write := True\<rparr>) 0"
    using st by (auto simp: pthread_rwlock_trywrlock_step_def split: rw_pc.splits rw_side.splits if_splits)
  then show ?thesis
  proof cases
    case 1
    then show ?thesis using rw_check_quiet [of l] ok by (intro rw_quiet [OF G L]) simp_all
  next
    case 2
    then show ?thesis using rw_check_quiet [of l] ok by (intro rw_quiet [OF G L]) simp_all
  next
    case 3
    then show ?thesis using rw_take_write [OF G L t] by simp
  next
    case 4
    obtain R where h: "h = (R, Some (t, Acquiring))" using L 4(1) by (auto simp: rw_L_def split: prod.splits)
    show ?thesis unfolding h
      by (rule rw_mode_step [where m' = Holding]) (use G L 4 in \<open>auto simp: h rw_L_def rw_return_def\<close>)
  qed
qed

lemma rw_holder_word:
  assumes G: "rw_G (R, W) g" and L: "rw_L (R, W) t l" and hold: "0 < rl_reads l \<or> rl_write l"
  shows "rl_write l \<Longrightarrow> state_owned_by_writer (rw_state g)"
    and "\<not> rl_write l \<Longrightarrow> \<not> state_owned_by_writer (rw_state g) \<and> state_owned_by_readers (rw_state g) \<and> 0 < rl_reads l"
proof -
  have g: "rw_count (rw_state g) = size R" "state_owned_by_writer (rw_state g) \<longleftrightarrow> W \<noteq> None" "W \<noteq> None \<longrightarrow> R = {#}"
    using G unfolding rw_G_def prod.case by blast+
  have l: "rl_reads l = count R t" "rl_write l \<longleftrightarrow> W = Some (t, Holding) \<or> W = Some (t, Releasing)"
    using L unfolding rw_L_def prod.case by blast+
  show "state_owned_by_writer (rw_state g)" if "rl_write l" using that g(2) l(2) by blast
  assume "\<not> rl_write l"
  with hold have r: "0 < rl_reads l" by blast
  then have "R \<noteq> {#}" using l(1) by auto
  then have "W = None" "0 < size R" using g(3) nonempty_has_size by blast+
  with g r show "\<not> state_owned_by_writer (rw_state g) \<and> state_owned_by_readers (rw_state g) \<and> 0 < rl_reads l"
    by (simp only: owned_by_readers_iff simp_thms)
qed

lemma rw_owner_holds:
  assumes "rw_G (R, W) g" "rw_writer_tid g = t" "t \<noteq> 0"
  shows "W = Some (t, Holding)"
proof -
  have w: "t = (case W of Some (t, Holding) \<Rightarrow> t | _ \<Rightarrow> 0)"
    using assms unfolding rw_G_def prod.case by blast
  show ?thesis
  proof (cases W)
    case (Some p)
    obtain u m where "p = (u, m)" by (cases p)
    with w Some assms(3) show ?thesis by (cases m) simp_all
  qed (use w assms(3) in simp)
qed

lemma unlock_step_inv:
  assumes G: "rw_G h g" and L: "rw_L h t l" and t: "t \<noteq> 0"
    and st: "(g', l') \<in> set (pthread_rwlock_unlock_step fx t g l)"
  shows "rw_next h t g' l'"
proof -
  obtain R W where h: "h = (R, W)" by (cases h)
  have fut: "rw_state (set_rw_futex sd k g) = rw_state g" "rw_writer_tid (set_rw_futex sd k g) = rw_writer_tid g"
    "rw_state (set_wakeup_serial sd n g) = rw_state g" "rw_writer_tid (set_wakeup_serial sd n g) = rw_writer_tid g" for sd k n
    by (cases sd; simp add: set_rw_futex_def set_wakeup_serial_def)+
  show ?thesis
  proof (cases "rl_pc l")
    case RuLoad
    then have hold: "0 < rl_reads l \<or> rl_write l" using L by (auto simp: rw_L_def h)
    note w = rw_holder_word [OF G [unfolded h] L [unfolded h] hold]
    have e: "g' = g" "l' = rw_goto l (if rl_write l then RuTid else RuSub)"
      using st RuLoad w by (cases "rl_write l"; simp add: pthread_rwlock_unlock_step_def)+
    have "rw_L h t l'"
    proof (cases "rl_write l")
      case True
      with e L RuLoad show ?thesis by (auto simp: rw_L_def rw_goto_def h)
    next
      case False
      with e L RuLoad w(2) [OF False] show ?thesis by (simp add: rw_L_def rw_goto_def h)
    qed
    with G e show ?thesis by (intro rw_nextI [where h' = h]) simp_all
  next
    case RuTid
    show ?thesis
    proof (cases "rw_writer_tid g = t")
      case True
      then have "W = Some (t, Holding)" using rw_owner_holds [OF G [unfolded h]] t by blast
      with True st RuTid G L show ?thesis
        by (intro rw_nextI [where h' = h]) (auto simp: pthread_rwlock_unlock_step_def rw_L_def rw_goto_def h)
    next
      case False
      with st RuTid show ?thesis
        by (intro rw_quiet [OF G L]) (simp_all add: pthread_rwlock_unlock_step_def rw_return_def)
    qed
  next
    case RuClear
    then have W: "h = (R, Some (t, Holding))" using L by (simp add: rw_L_def h)
    have "g' = g\<lparr>rw_writer_tid := 0\<rparr>" "l' = rw_goto l RuAnd"
      using st RuClear by (simp_all add: pthread_rwlock_unlock_step_def)
    then show ?thesis unfolding W
      by (intro rw_mode_step [where m' = Releasing]) (use G L RuClear in \<open>auto simp: W rw_L_def rw_goto_def\<close>)
  next
    case RuAnd
    have g': "g' = g\<lparr>rw_state := rw_state g AND NOT (push_bit 31 1)\<rparr>"
      and "l' = l\<lparr>rl_write := False, rl_pc := RwOut, rl_ret := 0\<rparr> \<or>
         l' = l\<lparr>rl_write := False, rl_pc := RuLock, rl_ret := rl_ret l\<rparr>"
      using st RuAnd by (auto simp: pthread_rwlock_unlock_step_def Let_def rw_outcome_defs split: if_splits)
    then show ?thesis
      using rw_release_write [OF G L RuAnd, of RwOut 0] rw_release_write [OF G L RuAnd, of RuLock "rl_ret l"]
      by (elim disjE) (simp_all only: g' rw_plain_simps rw_pc_ok_simps simp_thms)
  next
    case RuSub
    have g': "g' = g\<lparr>rw_state := rw_state g - 4\<rparr>"
      and "l' = l\<lparr>rl_reads := rl_reads l - 1, rl_pc := RwOut, rl_ret := 0\<rparr> \<or>
         l' = l\<lparr>rl_reads := rl_reads l - 1, rl_pc := RuLock, rl_ret := rl_ret l\<rparr>"
      using st RuSub by (auto simp: pthread_rwlock_unlock_step_def Let_def rw_outcome_defs split: if_splits)
    then show ?thesis
      using rw_release_read [OF G L RuSub, of RwOut 0] rw_release_read [OF G L RuSub, of RuLock "rl_ret l"]
      by (elim disjE) (simp_all only: g' rw_plain_simps rw_pc_ok_simps simp_thms)
  next
    case RuLock
    with st show ?thesis
      by (intro rw_quiet [OF G L]) (auto simp: pthread_rwlock_unlock_step_def rw_goto_def split: if_splits)
  next
    case RuCount
    with st show ?thesis
      by (intro rw_quiet [OF G L]) (auto simp: pthread_rwlock_unlock_step_def rw_goto_def fut split: if_splits)
  next
    case (RuUnlock w)
    with st show ?thesis
      by (intro rw_quiet [OF G L]) (auto simp: pthread_rwlock_unlock_step_def rw_outcome_defs split: option.splits)
  next
    case (RuWake sd)
    with st show ?thesis
      by (intro rw_quiet [OF G L]) (auto simp: pthread_rwlock_unlock_step_def rw_outcome_defs fut)
  qed (use st in \<open>simp_all add: pthread_rwlock_unlock_step_def\<close>)
qed

lemmas rwlock_call_defs = rwlock_calls_def pthread_rwlock_rdlock_def pthread_rwlock_wrlock_def
  pthread_rwlock_tryrdlock_def pthread_rwlock_trywrlock_def pthread_rwlock_clockrdlock_def
  pthread_rwlock_clockwrlock_def pthread_rwlock_timedrdlock_def pthread_rwlock_timedwrlock_def
  pthread_rwlock_timedrdlock_monotonic_np_def pthread_rwlock_timedwrlock_monotonic_np_def

lemma rwlock_step_ghost:
  assumes "rw_G h g" "rw_L h t l" "(g', l') \<in> set (rwlock_step fx tmos t g l)"
  shows "\<exists>h'. rw_G h' g' \<and> rw_L h' t l' \<and> (\<forall>u m. u \<noteq> t \<longrightarrow> rw_L h u m \<longrightarrow> rw_L h' u m)"
proof -
  have t: "t \<noteq> 0" using assms(3) by (auto simp: rwlock_step_def)
  have "rw_next h t g' l'"
  proof (cases "rl_pc l = RwOut")
    case True
    with assms(3) t have e: "g' = g" "l' \<in> set (rwlock_calls tmos l)" by (auto simp: rwlock_step_def)
    have call: "rw_next h t g' l'" if "rw_plain (rl_pc l')" "rw_pc_ok (rl_pc l')" "rl_reads l' = rl_reads l" "rl_write l' = rl_write l"
      using that e(1) True by (intro rw_quiet [OF assms(1,2)]) simp_all
    show ?thesis
    proof (cases "l' = rw_goto l RuLoad \<and> (0 < rl_reads l \<or> rl_write l)")
      case un: True
      then have "rw_L h t l'" using assms(2) True by (auto simp: rw_L_def rw_goto_def split: prod.splits)
      with assms(1) e(1) show ?thesis by (intro rw_nextI [where h' = h]) simp_all
    next
      case False
      with e(2) show ?thesis
        by (intro call) (auto simp: rwlock_call_defs rw_outcome_defs
          split: if_splits)
    qed
  next
    case False
    with assms(3) t consider "(g', l') \<in> set (pthread_rwlock_timedrdlock_step fx t g l)"
      | "(g', l') \<in> set (pthread_rwlock_timedwrlock_step fx t g l)" | "(g', l') \<in> set (pthread_rwlock_unlock_step fx t g l)"
      by (auto simp: rwlock_step_def)
    then show ?thesis
      by cases (rule timedrdlock_step_inv [OF assms(1,2)] timedwrlock_step_inv [OF assms(1,2) t]
          unlock_step_inv [OF assms(1,2) t]; assumption)+
  qed
  then show ?thesis unfolding rw_next_def .
qed

interpretation rwlock: par_ghost "rwlock_step fx tmos" rw_G rw_L for fx tmos
  by unfold_locales (rule rwlock_step_ghost)

section \<open>Properties\<close>

abbreviation rw_idle :: rw_thread where
  "rw_idle \<equiv> \<lparr>rl_pc = RwOut, rl_reads = 0, rl_write = False, rl_ret = 0\<rparr>"

lemma rwlock_reach:
  assumes "pthread_rwlock_init attr k = (g0, 0)"
    and "par_reach (rwlock_step fx tmos) (g0, \<lambda>_. rw_idle) (g, ls)"
  obtains R W where "rw_G (R, W) g" "\<And>t. rw_L (R, W) t (ls t)"
proof (rule rwlock.ghost_reach [OF assms(2)])
  have "rw_state g0 = 0" "rw_writer_tid g0 = 0"
    using assms(1) by (auto simp: pthread_rwlock_init_def Let_def split: option.splits if_splits)
  then show "rw_G ({#}, None) g0" by (simp add: rw_G_def rw_count_def owned_by_writer_unat)
  show "rw_L ({#}, None) t rw_idle" for t by (simp add: rw_L_def)
qed (use that in auto)

lemma sum_count_le_size:
  assumes "distinct ts"
  shows "sum_list (map (count R) ts) \<le> size R"
proof -
  have "sum_list (map (count R) ts) = sum (count R) (set ts)" using assms by (simp add: sum_list_distinct_conv_sum_set)
  also have "\<dots> = sum (count R) (set ts \<inter> set_mset R)"
    by (intro sum.mono_neutral_right) (auto simp: not_in_iff)
  also have "\<dots> \<le> sum (count R) (set_mset R)" by (rule sum_mono2) auto
  also have "\<dots> = size R" by (simp add: size_multiset_overloaded_eq)
  finally show ?thesis .
qed

text \<open>C3. Readers and writers exclude each other. In every interleaving of calls on an initialised
  lock, a thread that holds it for writing is the only holder, the state word says so and
  \<open>writer_tid\<close> is that thread between its calls; a thread that holds it for reading keeps
  writers out, and the reader count of the state word covers the read locks of any threads.\<close>

theorem pthread_rwlock_exclusion:
  assumes "pthread_rwlock_init attr k = (g0, 0)"
    and "par_reach (rwlock_step fx tmos) (g0, \<lambda>_. rw_idle) (g, ls)"
  shows "(rl_write (ls t) \<longrightarrow> state_owned_by_writer (rw_state g) \<and> (\<forall>u. rl_reads (ls u) = 0) \<and>
      (\<forall>u. u \<noteq> t \<longrightarrow> \<not> rl_write (ls u)) \<and> (rl_pc (ls t) = RwOut \<longrightarrow> rw_writer_tid g = t)) \<and>
    (0 < rl_reads (ls t) \<longrightarrow> state_owned_by_readers (rw_state g) \<and> (\<forall>u. \<not> rl_write (ls u))) \<and>
    (distinct ts \<longrightarrow> sum_list (map (\<lambda>u. rl_reads (ls u)) ts) \<le> rw_count (rw_state g))"
  using assms
proof (rule rwlock_reach)
  fix R W
  assume G: "rw_G (R, W) g" and L: "\<And>t. rw_L (R, W) t (ls t)"
  have l: "rl_reads (ls u) = count R u" "rl_write (ls u) \<longleftrightarrow> W = Some (u, Holding) \<or> W = Some (u, Releasing)"
    "rl_pc (ls u) = RuAnd \<longleftrightarrow> W = Some (u, Releasing)" for u
    using L [of u] by (simp_all add: rw_L_def)
  have g: "rw_count (rw_state g) = size R" "state_owned_by_writer (rw_state g) \<longleftrightarrow> W \<noteq> None" "W \<noteq> None \<longrightarrow> R = {#}"
    "rw_writer_tid g = (case W of Some (t, Holding) \<Rightarrow> t | _ \<Rightarrow> 0)"
    using G by (simp_all add: rw_G_def)
  have "rl_write (ls t) \<longrightarrow> state_owned_by_writer (rw_state g) \<and> (\<forall>u. rl_reads (ls u) = 0) \<and>
      (\<forall>u. u \<noteq> t \<longrightarrow> \<not> rl_write (ls u)) \<and> (rl_pc (ls t) = RwOut \<longrightarrow> rw_writer_tid g = t)"
    using g l(3) [of t] by (auto simp: l(1,2))
  moreover have "0 < rl_reads (ls t) \<longrightarrow> state_owned_by_readers (rw_state g) \<and> (\<forall>u. \<not> rl_write (ls u))"
  proof
    assume "0 < rl_reads (ls t)"
    then have R: "R \<noteq> {#}" by (auto simp: l(1))
    with g(3) have "W = None" by blast
    with R g(1,2) show "state_owned_by_readers (rw_state g) \<and> (\<forall>u. \<not> rl_write (ls u))"
      by (simp add: l(2) owned_by_readers_iff nonempty_has_size)
  qed
  moreover have "distinct ts \<longrightarrow> sum_list (map (\<lambda>u. rl_reads (ls u)) ts) \<le> rw_count (rw_state g)"
    using sum_count_le_size [of ts R] by (simp add: l(1) g(1))
  ultimately show ?thesis by blast
qed

lemmas rwlock_run_simps = rwlock_step_def rwlock_call_defs pthread_rwlock_timedrdlock_step_def
  pthread_rwlock_timedwrlock_step_def pthread_rwlock_tryrdlock_step_def pthread_rwlock_trywrlock_step_def
  pthread_rwlock_unlock_step_def tryrdlock_check_def trywrlock_check_def rw_pc_side_def
  rw_try_failed_def rw_goto_def rw_return_def can_acquire_read_lock_def can_acquire_write_lock_def
  state_owned_by_writer_def state_owned_by_readers_def state_owned_by_readers_or_writer_def
  state_have_pending_writers_def state_add_writer_flag_def Let_def fun_upd_twist futex_queue_def INT_MAX_nat_def

abbreviation rwlock_zero :: "tid list rwlock" where
  "rwlock_zero \<equiv> \<lparr>rw_state = 0, rw_writer_tid = 0, rw_pshared = False, rw_preferred = False,
     rw_pending_lock = None, rw_pending_reader_count = 0, rw_pending_writer_count = 0,
     rw_reader_serial = 0, rw_writer_serial = 0, rw_reader_futex = [], rw_writer_futex = []\<rparr>"

lemma rwlock_init_zero: "pthread_rwlock_init None [] = (rwlock_zero, 0)"
  by (simp add: pthread_rwlock_init_def)

theorem pthread_rwlock_exclusion_witness:
  "state_owned_by_readers 8 \<and> \<not> rl_write rw_idle"
proof -
  have "par_run (rwlock_step futex_queue []) (rwlock_zero, \<lambda>_. rw_idle)
      [(1, 2), (1, 0), (2, 2), (2, 0), (1, 0), (2, 0), (2, 0)] =
    Some (rwlock_zero\<lparr>rw_state := 8\<rparr>, (\<lambda>_. rw_idle)(1 := rw_idle\<lparr>rl_reads := 1\<rparr>, 2 := rw_idle\<lparr>rl_reads := 1\<rparr>))"
    by (simp add: rwlock_run_simps)
  from pthread_rwlock_exclusion [OF rwlock_init_zero par_run_reach [OF this], where t = 1, THEN conjunct2, THEN conjunct1]
  show ?thesis by auto
qed

text \<open>The pending writers of a lock that prefers them.\<close>

definition rw_prefers :: "bool \<Rightarrow> rw_thread \<Rightarrow> bool" where
  "rw_prefers p l \<longleftrightarrow> (\<forall>c old. rl_pc l = RwCas Reader c old \<longrightarrow> can_acquire_read_lock old p)"

lemma rw_prefers_other: "(\<And>c old. rl_pc l \<noteq> RwCas Reader c old) \<Longrightarrow> rw_prefers p l"
  by (simp add: rw_prefers_def)

lemma rw_prefers_try_failed: "rw_prefers p l \<Longrightarrow> rw_prefers p (rw_try_failed sd c r l)"
  by (auto simp: rw_prefers_def rw_try_failed_def rw_return_def rw_goto_def split: rw_call.splits option.splits)

lemma rw_prefers_check:
  "rw_prefers (rw_preferred g) l \<Longrightarrow> rw_prefers (rw_preferred g) (tryrdlock_check c (rw_state g) g l)"
  "rw_prefers p l \<Longrightarrow> rw_prefers p (trywrlock_check c old l)"
  by (simp_all add: tryrdlock_check_def trywrlock_check_def rw_prefers_try_failed)
    (simp_all add: rw_prefers_def rw_goto_def)

lemma rw_prefers_pending:
  assumes "(g', l') \<in> set (rw_pending_step fx sd t g l)"
  shows "rw_preferred g' = rw_preferred g \<and> rw_prefers p l' \<and> rl_reads l' = rl_reads l"
  using assms unfolding rw_pending_step_def
  by (cases "rl_pc l") (auto simp: rw_prefers_def rw_goto_def rw_return_def set_pending_count_def set_rw_futex_def
    split: if_splits rw_side.splits option.splits)

lemma rw_prefers_unlock:
  assumes "(g', l') \<in> set (pthread_rwlock_unlock_step fx t g l)"
  shows "rw_preferred g' = rw_preferred g \<and> rw_prefers p l' \<and> rl_reads l' \<le> rl_reads l"
  using assms unfolding pthread_rwlock_unlock_step_def
  by (cases "rl_pc l") (auto simp: rw_prefers_def rw_goto_def rw_return_def set_wakeup_serial_def set_rw_futex_def Let_def
    split: if_splits rw_side.splits option.splits)

lemma rw_try_failed_reads [simp]: "rl_reads (rw_try_failed sd c r l) = rl_reads l"
  by (simp add: rw_try_failed_def rw_return_def rw_goto_def split: rw_call.splits option.splits)

lemma rw_check_reads [simp]:
  "rl_reads (tryrdlock_check c old g l) = rl_reads l" "rl_reads (trywrlock_check c old l) = rl_reads l"
  by (simp_all add: tryrdlock_check_def trywrlock_check_def rw_goto_def)

text \<open>One step keeps the claim, and takes a read lock only as the claim allows.\<close>

definition rw_prefers_step :: "'k rwlock \<Rightarrow> rw_thread \<Rightarrow> 'k rwlock \<Rightarrow> rw_thread \<Rightarrow> bool" where
  "rw_prefers_step g l g' l' \<longleftrightarrow> rw_preferred g' = rw_preferred g \<and> rw_prefers (rw_preferred g) l' \<and>
     (rl_reads l < rl_reads l' \<longrightarrow> can_acquire_read_lock (rw_state g) (rw_preferred g))"

lemma rw_prefers_tryrdlock:
  assumes "rw_prefers (rw_preferred g) l" "(g', l') \<in> set (pthread_rwlock_tryrdlock_step g l)"
  shows "rw_prefers_step g l g' l'"
proof (cases "rl_pc l")
  case (RwCas sd c old)
  then show ?thesis
    using assms by (cases sd) (auto simp: pthread_rwlock_tryrdlock_step_def rw_prefers_step_def rw_prefers_check
      rw_return_def rw_prefers_def [of _ l] rw_prefers_other split: if_splits)
next
  case (RwLoad sd c)
  then show ?thesis
    using assms by (cases sd) (simp_all add: pthread_rwlock_tryrdlock_step_def rw_prefers_step_def rw_prefers_check)
qed (use assms in \<open>simp_all add: pthread_rwlock_tryrdlock_step_def\<close>)

lemma rw_prefers_trywrlock:
  assumes "rw_prefers (rw_preferred g) l" "(g', l') \<in> set (pthread_rwlock_trywrlock_step t g l)"
  shows "rw_prefers_step g l g' l'"
proof (cases "rl_pc l")
  case (RwCas sd c old)
  then show ?thesis
    using assms by (cases sd) (auto simp: pthread_rwlock_trywrlock_step_def rw_prefers_step_def rw_prefers_check
      rw_goto_def rw_prefers_other split: if_splits)
next
  case (RwLoad sd c)
  then show ?thesis
    using assms by (cases sd) (simp_all add: pthread_rwlock_trywrlock_step_def rw_prefers_step_def rw_prefers_check)
qed (use assms in \<open>simp_all add: pthread_rwlock_trywrlock_step_def rw_prefers_step_def rw_return_def rw_prefers_other\<close>)

lemma rw_prefers_timed:
  assumes "rw_prefers (rw_preferred g) l"
  shows "(g', l') \<in> set (pthread_rwlock_timedrdlock_step fx t g l) \<Longrightarrow> rw_prefers_step g l g' l'"
    and "(g', l') \<in> set (pthread_rwlock_timedwrlock_step fx t g l) \<Longrightarrow> rw_prefers_step g l g' l'"
proof -
  have tid: "rw_prefers_step g l g (if b then rw_return l r else rw_goto l (RwLoad sd c))" for b r sd c
    by (simp add: rw_prefers_step_def rw_prefers_other rw_return_def rw_goto_def)
  have pend: "rw_prefers_step g l g' l'" if "(g', l') \<in> set (rw_pending_step fx sd t g l)" for sd
    using rw_prefers_pending [OF that, of "rw_preferred g"] by (simp add: rw_prefers_step_def)
  show "(g', l') \<in> set (pthread_rwlock_timedrdlock_step fx t g l) \<Longrightarrow> rw_prefers_step g l g' l'"
    using rw_prefers_tryrdlock [OF assms] tid pend [of Reader] unfolding pthread_rwlock_timedrdlock_step_def
    by (cases "rl_pc l") (auto split: if_splits)
  show "(g', l') \<in> set (pthread_rwlock_timedwrlock_step fx t g l) \<Longrightarrow> rw_prefers_step g l g' l'"
    using rw_prefers_trywrlock [OF assms] tid pend [of Writer] unfolding pthread_rwlock_timedwrlock_step_def
    by (cases "rl_pc l") (auto split: if_splits)
qed

lemma rw_prefers_rwlock_step:
  assumes "rw_prefers (rw_preferred g) l" "(g', l') \<in> set (rwlock_step fx tmos t g l)"
  shows "rw_prefers_step g l g' l'"
proof (cases "rl_pc l = RwOut")
  case True
  with assms(2) have "g' = g" "l' \<in> set (rwlock_calls tmos l)" by (auto simp: rwlock_step_def split: if_splits)
  then show ?thesis
    by (auto simp: rwlock_call_defs rw_goto_def rw_return_def
      rw_prefers_step_def rw_prefers_other split: if_splits)
next
  case False
  with assms(2) consider "(g', l') \<in> set (pthread_rwlock_timedrdlock_step fx t g l)"
    | "(g', l') \<in> set (pthread_rwlock_timedwrlock_step fx t g l)" | "(g', l') \<in> set (pthread_rwlock_unlock_step fx t g l)"
    by (auto simp: rwlock_step_def split: if_splits)
  then show ?thesis
  proof cases
    case 3
    from rw_prefers_unlock [OF this, of "rw_preferred g"] show ?thesis by (simp add: rw_prefers_step_def)
  qed (use rw_prefers_timed [OF assms(1)] in blast)+
qed

interpretation rwlock_pref: par_invariant "rwlock_step fx tmos" "\<lambda>g ls. rw_preferred g = p \<and> (\<forall>t. rw_prefers p (ls t))" for fx tmos p
proof (unfold_locales, elim conjE)
  fix g g' :: "'a rwlock" and ls l' t
  assume a: "(g', l') \<in> set (rwlock_step fx tmos t g (ls t))" "rw_preferred g = p" "\<forall>t. rw_prefers p (ls t)"
  then have "rw_prefers_step g (ls t) g' l'" by (intro rw_prefers_rwlock_step) simp_all
  with a show "rw_preferred g' = p \<and> (\<forall>u. rw_prefers p ((ls(t := l')) u))" by (simp add: rw_prefers_step_def)
qed

text \<open>C34. Writer preference. A lock initialised with the kind
  \<open>PTHREAD_RWLOCK_PREFER_WRITER_NONRECURSIVE_NP\<close> gives out no read lock while a writer holds it or the
  state word announces a pending writer, by whichever of the calls a reader comes.\<close>

theorem pthread_rwlock_prefers_writers:
  assumes "pthread_rwlock_init (Some attr) k = (g0, 0)"
    and "pthread_rwlockattr_getkind_np attr = (PTHREAD_RWLOCK_PREFER_WRITER_NONRECURSIVE_NP, 0)"
    and "par_reach (rwlock_step fx tmos) (g0, \<lambda>_. rw_idle) (g, ls)"
    and "(g', l') \<in> set (rwlock_step fx tmos t g (ls t))" "rl_reads (ls t) < rl_reads l'"
  shows "\<not> state_owned_by_writer (rw_state g) \<and> \<not> state_have_pending_writers (rw_state g)"
proof -
  have "rw_preferred g0" using assms(1,2)
    by (auto simp: pthread_rwlock_init_def pthread_rwlockattr_getkind_np_def Let_def split: if_splits)
  moreover have "rw_prefers True rw_idle" by (simp add: rw_prefers_other)
  ultimately have "rw_preferred g" "rw_prefers True (ls t)"
    using rwlock_pref.par_reach_inv [OF assms(3), of True] by simp_all
  then have "rw_prefers_step g (ls t) g' l'" using assms(4) by (intro rw_prefers_rwlock_step) simp_all
  with \<open>rw_preferred g\<close> assms(5) show ?thesis by (simp add: rw_prefers_step_def can_acquire_read_lock_def)
qed

theorem pthread_rwlock_prefers_writers_witness:
  "\<not> state_owned_by_writer 0 \<and> \<not> state_have_pending_writers 0"
proof -
  let ?z = "rwlock_zero\<lparr>rw_preferred := True\<rparr>"
  have i: "pthread_rwlock_init (Some 2) [] = (?z, 0)" "pthread_rwlockattr_getkind_np 2 = (1, 0)"
    by (simp_all add: pthread_rwlock_init_def rwlockattr_getkind_def pthread_rwlockattr_getkind_np_def rwlockattr_getpshared_def)
  have "par_run (rwlock_step futex_queue []) (?z, \<lambda>_. rw_idle) [(1, 2), (1, 0)] =
    Some (?z, (\<lambda>_. rw_idle)(1 := rw_idle\<lparr>rl_pc := RwCas Reader RwTry 0\<rparr>))"
    by (simp add: rwlock_run_simps)
  note r = pthread_rwlock_prefers_writers [OF i par_run_reach [OF this], where t = 1 and g' = "?z\<lparr>rw_state := 4\<rparr>"
      and l' = "rw_idle\<lparr>rl_reads := 1\<rparr>"]
  show ?thesis by (rule r [simplified]) (simp_all add: rwlock_run_simps)
qed

lemma attr_field:
  fixes a v m :: "'w :: len word"
  assumes "v AND m = v"
  shows "((a AND NOT m) OR v) AND m = v" "m AND k = 0 \<Longrightarrow> ((a AND NOT m) OR v) AND k = a AND k"
proof -
  show "((a AND NOT m) OR v) AND m = v" using assms by (simp add: bit.conj_disj_distrib2 and.assoc)
  assume k: "m AND k = 0"
  have "v AND k = v AND (m AND k)" using assms by (metis and.assoc)
  with k have v: "v AND k = 0" by simp
  have "a AND k = a AND ((k AND m) OR (k AND NOT m))" by (simp add: bit.conj_disj_distrib [symmetric])
  then have "a AND NOT m AND k = a AND k" using k by (simp add: ac_simps)
  with v show "((a AND NOT m) OR v) AND k = a AND k" by (simp add: bit.conj_disj_distrib2 and.assoc)
qed

text \<open>Attributes. Setting the kind or the sharing of an attribute to one of its values makes that
  the value read back and leaves the other field alone; any other value is refused with
  \<open>EINVAL\<close> and changes nothing.\<close>

lemma pthread_rwlockattr_roundtrip:
  "(case pthread_rwlockattr_setkind_np attr pref of (attr', r) \<Rightarrow>
      if pref \<in> {0, 1} then r = 0 \<and> pthread_rwlockattr_getkind_np attr' = (pref, 0) \<and>
        pthread_rwlockattr_getpshared attr' = pthread_rwlockattr_getpshared attr
      else r = EINVAL \<and> attr' = attr) \<and>
   (case pthread_rwlockattr_setpshared attr pshared of (attr', r) \<Rightarrow>
      if pshared \<in> {0, 1} then r = 0 \<and> pthread_rwlockattr_getpshared attr' = (pshared, 0) \<and>
        pthread_rwlockattr_getkind_np attr' = pthread_rwlockattr_getkind_np attr
      else r = EINVAL \<and> attr' = attr)"
proof -
  note f = attr_field [where 'w = 64 and a = attr]
  have "(2 :: u64) AND 1 = 0" "(1 :: u64) AND 2 = 0" by simp_all
  with f [of 0 2] f [of 2 2] f [of 0 1] f [of 1 1] show ?thesis
    by (auto simp del: drop_bit_and simp add: pthread_rwlockattr_setkind_np_def pthread_rwlockattr_getkind_np_def pthread_rwlockattr_setpshared_def
      pthread_rwlockattr_getpshared_def rwlockattr_setkind_def rwlockattr_getkind_def rwlockattr_setpshared_def rwlockattr_getpshared_def)
qed

end
