(* ===== verification/Prop_Area.thy ===== *)
theory Prop_Area
  imports Bionic_Prelude "HOL-Library.Monad_Syntax"
begin

text \<open>
  The shared memory of the system properties (\<open>prop_area.cpp\<close>, \<open>prop_info.cpp\<close> and their
  headers): a bump allocator over a fixed area, in it a trie whose levels are binary search
  trees, and the property objects. The area is a map from offsets to the objects placed there.
  Strings are the characters in front of the terminator. The result \<open>None\<close> of the outer
  \<open>option\<close> type means that the code does not return, or uses memory that holds no such object.
\<close>

section \<open>Objects\<close>

abbreviation (input) PROP_VALUE_MAX :: nat where "PROP_VALUE_MAX \<equiv> 92"
abbreviation (input) PA_SIZE :: nat where "PA_SIZE \<equiv> 128 * 1024"
abbreviation (input) sizeof_prop_area :: nat where "sizeof_prop_area \<equiv> 128"
abbreviation (input) sizeof_prop_bt :: nat where "sizeof_prop_bt \<equiv> 20"
abbreviation (input) sizeof_prop_info :: nat where "sizeof_prop_info \<equiv> 96"

record prop_bt =
  bt_name :: string
  bt_prop :: nat
  bt_left :: nat
  bt_right :: nat
  bt_children :: nat

text \<open>The memory is zero before the constructor runs, so the offsets it does not set are zero.\<close>

definition prop_bt_new :: "string \<Rightarrow> nat \<Rightarrow> prop_bt" where
  "prop_bt_new name name_length =
     \<lparr>bt_name = take name_length name, bt_prop = 0, bt_left = 0, bt_right = 0, bt_children = 0\<rparr>"

text \<open>
  The union of \<open>prop_info\<close>: the value itself, or the legacy error message with the offset of
  the long value from the object.
\<close>

datatype prop_value = Value string | LongProperty string nat

record prop_info =
  pi_serial :: u32
  pi_value :: prop_value
  pi_name :: string

abbreviation (input) kLongFlag :: u32 where "kLongFlag \<equiv> push_bit 16 1"

definition kLongLegacyError :: string where
  "kLongLegacyError = ''Must use __system_property_read_callback() to read''"

definition is_long :: "prop_info \<Rightarrow> bool" where
  "is_long pi \<longleftrightarrow> pi_serial pi AND kLongFlag \<noteq> 0"

definition prop_info_new :: "string \<Rightarrow> nat \<Rightarrow> string \<Rightarrow> nat \<Rightarrow> prop_info" where
  "prop_info_new name namelen v valuelen =
     \<lparr>pi_serial = push_bit 24 (of_nat valuelen), pi_value = Value (take valuelen v), pi_name = take namelen name\<rparr>"

definition prop_info_new_long :: "string \<Rightarrow> nat \<Rightarrow> nat \<Rightarrow> prop_info" where
  "prop_info_new_long name namelen long_offset =
     \<lparr>pi_serial = push_bit 24 (of_nat (length kLongLegacyError)) OR kLongFlag,
      pi_value = LongProperty kLongLegacyError long_offset, pi_name = take namelen name\<rparr>"

datatype prop_obj = Bt prop_bt | Info prop_info | Chars string

text \<open>
  The last field is not part of the shared memory: it is the static member \<open>pa_data_size_\<close> of the process that
  works on the area. Mapping an area sets it for all areas of the process (\<open>Property_Contexts\<close>).
\<close>

record prop_area =
  bytes_used :: nat
  pa_serial :: u32
  dirty_backup_area :: string
  pa_data :: "nat \<Rightarrow> prop_obj option"
  pa_data_size :: nat

text \<open>Rounding up to a power of two, which the macro does with a mask.\<close>

definition BIONIC_ALIGN :: "nat \<Rightarrow> nat \<Rightarrow> nat" where
  "BIONIC_ALIGN v align = (v + align - 1) div align * align"

text \<open>A new area; its file was given the size \<open>PA_SIZE\<close> before.\<close>

abbreviation (input) PA_DATA_SIZE :: nat where "PA_DATA_SIZE \<equiv> PA_SIZE - sizeof_prop_area"

definition prop_area_new :: prop_area where
  "prop_area_new =
     \<lparr>bytes_used = sizeof_prop_bt + BIONIC_ALIGN PROP_VALUE_MAX 4, pa_serial = 0, dirty_backup_area = [],
      pa_data = [0 \<mapsto> Bt (prop_bt_new [] 0)], pa_data_size = PA_DATA_SIZE\<rparr>"

section \<open>Allocation\<close>

definition allocate_obj :: "prop_area \<Rightarrow> nat \<Rightarrow> (prop_area \<times> nat) option" where
  "allocate_obj pa sz =
     (let aligned = BIONIC_ALIGN sz 4 in
      if bytes_used pa + aligned > pa_data_size pa then None
      else Some (pa\<lparr>bytes_used := bytes_used pa + aligned\<rparr>, bytes_used pa))"

definition put_obj :: "nat \<Rightarrow> prop_obj \<Rightarrow> prop_area \<Rightarrow> prop_area" where
  "put_obj off x pa = pa\<lparr>pa_data := (pa_data pa)(off \<mapsto> x)\<rparr>"

definition new_prop_bt :: "prop_area \<Rightarrow> string \<Rightarrow> nat \<Rightarrow> (prop_area \<times> nat) option" where
  "new_prop_bt pa name namelen =
     (case allocate_obj pa (sizeof_prop_bt + namelen + 1) of
        None \<Rightarrow> None
      | Some (pa, new_offset) \<Rightarrow> Some (put_obj new_offset (Bt (prop_bt_new name namelen)) pa, new_offset))"

text \<open>\<open>valuelen + 1\<close> is computed in 32 bits. The result is null after a failed allocation, with what
  the first allocation took.\<close>

definition new_prop_info :: "prop_area \<Rightarrow> string \<Rightarrow> nat \<Rightarrow> string \<Rightarrow> nat \<Rightarrow> prop_area \<times> nat option" where
  "new_prop_info pa name namelen v valuelen =
     (case allocate_obj pa (sizeof_prop_info + namelen + 1) of
        None \<Rightarrow> (pa, None)
      | Some (pa, new_offset) \<Rightarrow>
          if valuelen \<ge> PROP_VALUE_MAX then
            (case allocate_obj pa ((valuelen + 1) mod 2 ^ 32) of
               None \<Rightarrow> (pa, None)
             | Some (pa, long_value_offset) \<Rightarrow>
                 (put_obj new_offset (Info (prop_info_new_long name namelen (long_value_offset - new_offset)))
                    (put_obj long_value_offset (Chars (take valuelen v)) pa), Some new_offset))
          else (put_obj new_offset (Info (prop_info_new name namelen v valuelen)) pa, Some new_offset))"

text \<open>A pointer is the offset it points to, or null.\<close>

definition to_prop_obj :: "prop_area \<Rightarrow> nat \<Rightarrow> nat option" where
  "to_prop_obj pa off = (if off > pa_data_size pa then None else Some off)"

definition to_prop_bt :: "prop_area \<Rightarrow> nat \<Rightarrow> prop_bt option" where
  "to_prop_bt pa off = (case pa_data pa off of Some (Bt bt) \<Rightarrow> Some bt | _ \<Rightarrow> None)"

definition to_prop_info :: "prop_area \<Rightarrow> nat \<Rightarrow> prop_info option" where
  "to_prop_info pa off = (case pa_data pa off of Some (Info pi) \<Rightarrow> Some pi | _ \<Rightarrow> None)"

definition long_value :: "prop_area \<Rightarrow> nat \<Rightarrow> string option" where
  "long_value pa off =
     (case to_prop_info pa off of
        Some pi \<Rightarrow>
          (case pi_value pi of
             LongProperty _ long_offset \<Rightarrow>
               (case pa_data pa (off + long_offset) of Some (Chars v) \<Rightarrow> Some v | _ \<Rightarrow> None)
           | Value _ \<Rightarrow> None)
      | None \<Rightarrow> None)"

section \<open>The trie\<close>

fun strncmp :: "string \<Rightarrow> string \<Rightarrow> nat \<Rightarrow> int" where
  "strncmp s1 s2 0 = 0"
| "strncmp [] [] (Suc n) = 0"
| "strncmp [] (d # s2) (Suc n) = - of_char d"
| "strncmp (c # s1) [] (Suc n) = of_char c"
| "strncmp (c # s1) (d # s2) (Suc n) = (if c \<noteq> d then of_char c - of_char d else strncmp s1 s2 n)"

definition cmp_prop_name :: "string \<Rightarrow> nat \<Rightarrow> string \<Rightarrow> nat \<Rightarrow> int" where
  "cmp_prop_name one one_len two two_len =
     (if one_len < two_len then - 1 else if one_len > two_len then 1 else strncmp one two one_len)"

text \<open>A node of the trie gets a new offset in one of its fields.\<close>

definition set_bt :: "prop_area \<Rightarrow> nat \<Rightarrow> (prop_bt \<Rightarrow> prop_bt) \<Rightarrow> prop_area" where
  "set_bt pa off f =
     (case pa_data pa off of Some (Bt bt) \<Rightarrow> put_obj off (Bt (f bt)) pa | _ \<Rightarrow> pa)"

partial_function (option) find_prop_bt ::
  "prop_area \<Rightarrow> nat option \<Rightarrow> string \<Rightarrow> nat \<Rightarrow> bool \<Rightarrow> (prop_area \<times> nat option) option" where
  "find_prop_bt pa bt name namelen alloc_if_needed =
     (case bt of
        None \<Rightarrow> Some (pa, None)
      | Some off \<Rightarrow> do {
          current \<leftarrow> to_prop_bt pa off;
          let ret = cmp_prop_name name namelen (bt_name current) (length (bt_name current));
          if ret = 0 then Some (pa, Some off)
          else if ret < 0 then
            if bt_left current \<noteq> 0 then find_prop_bt pa (to_prop_obj pa (bt_left current)) name namelen alloc_if_needed
            else if \<not> alloc_if_needed then Some (pa, None)
            else case new_prop_bt pa name namelen of
                None \<Rightarrow> Some (pa, None)
              | Some (pa, new_offset) \<Rightarrow> Some (set_bt pa off (bt_left_update (\<lambda>_. new_offset)), Some new_offset)
          else
            if bt_right current \<noteq> 0 then find_prop_bt pa (to_prop_obj pa (bt_right current)) name namelen alloc_if_needed
            else if \<not> alloc_if_needed then Some (pa, None)
            else case new_prop_bt pa name namelen of
                None \<Rightarrow> Some (pa, None)
              | Some (pa, new_offset) \<Rightarrow> Some (set_bt pa off (bt_right_update (\<lambda>_. new_offset)), Some new_offset) })"

text \<open>
  The loop of \<open>find_property\<close> over the tokens of the name: \<open>strchr\<close> finds the next dot. The length of a token is
  kept in 32 bits. It ends at
  the node of the last token, or with null. \<open>find_property_root\<close> is the part of its body that finds or
  creates the tree of the children.
\<close>

definition find_property_root ::
  "prop_area \<Rightarrow> nat \<Rightarrow> string \<Rightarrow> nat \<Rightarrow> bool \<Rightarrow> (prop_area \<times> nat option) option" where
  "find_property_root pa off remaining_name substr_size alloc_if_needed =
     do { current \<leftarrow> to_prop_bt pa off;
          if bt_children current \<noteq> 0 then Some (pa, to_prop_obj pa (bt_children current))
          else if alloc_if_needed then
            case new_prop_bt pa remaining_name substr_size of
              None \<Rightarrow> Some (pa, None)
            | Some (pa, new_offset) \<Rightarrow>
                Some (set_bt pa off (bt_children_update (\<lambda>_. new_offset)), Some new_offset)
          else Some (pa, None) }"

function find_property_node ::
  "prop_area \<Rightarrow> nat \<Rightarrow> string \<Rightarrow> bool \<Rightarrow> (prop_area \<times> nat option) option" where
  "find_property_node pa off remaining_name alloc_if_needed =
     (let sep = dropWhile (\<lambda>c. c \<noteq> CHR ''.'') remaining_name;
          substr_size = (length remaining_name - length sep) mod 2 ^ 32 in
      if substr_size = 0 then Some (pa, None)
      else do {
        (pa, root) \<leftarrow> find_property_root pa off remaining_name substr_size alloc_if_needed;
        if root = None then Some (pa, None)
        else do {
          (pa, found) \<leftarrow> find_prop_bt pa root remaining_name substr_size alloc_if_needed;
          case found of
            None \<Rightarrow> Some (pa, None)
          | Some current \<Rightarrow>
              if sep = [] then Some (pa, Some current)
              else find_property_node pa current (tl sep) alloc_if_needed } })"
  by pat_completeness auto

lemma dropWhile_tl_less: "dropWhile P xs \<noteq> [] \<Longrightarrow> length (tl (dropWhile P xs)) < length xs"
  using length_dropWhile_le [of P xs] by (cases "dropWhile P xs") simp_all

termination find_property_node
  by (relation "measure (\<lambda>(pa, off, remaining_name, alloc). length remaining_name)")
    (simp_all add: dropWhile_tl_less)

definition find_property ::
  "prop_area \<Rightarrow> nat option \<Rightarrow> string \<Rightarrow> nat \<Rightarrow> string \<Rightarrow> nat \<Rightarrow> bool \<Rightarrow> (prop_area \<times> nat option) option" where
  "find_property pa trie name namelen v valuelen alloc_if_needed =
     (case trie of
        None \<Rightarrow> Some (pa, None)
      | Some trie \<Rightarrow> do {
          (pa, found) \<leftarrow> find_property_node pa trie name alloc_if_needed;
          case found of
            None \<Rightarrow> Some (pa, None)
          | Some off \<Rightarrow> do {
              current \<leftarrow> to_prop_bt pa off;
              if bt_prop current \<noteq> 0 then Some (pa, to_prop_obj pa (bt_prop current))
              else if alloc_if_needed then
                (case new_prop_info pa name namelen v valuelen of
                   (pa, None) \<Rightarrow> Some (pa, None)
                 | (pa, Some new_offset) \<Rightarrow>
                     Some (set_bt pa off (bt_prop_update (\<lambda>_. new_offset)), Some new_offset))
              else Some (pa, None) } })"

text \<open>
  \<open>foreach_property\<close> with the call-back as a function on the state it works on. The code keeps
  the result of the recursive calls in an \<open>int\<close> and tests it for being negative, which a \<open>bool\<close>
  never is: the result is ignored.
\<close>

partial_function (option) foreach_property ::
  "prop_area \<Rightarrow> nat option \<Rightarrow> (nat \<Rightarrow> prop_info \<Rightarrow> 's \<Rightarrow> 's) \<Rightarrow> 's \<Rightarrow> ('s \<times> bool) option" where
  "foreach_property pa trie propfn cookie =
     (case trie of
        None \<Rightarrow> Some (cookie, False)
      | Some off \<Rightarrow> do {
          trie \<leftarrow> to_prop_bt pa off;
          (cookie, err) \<leftarrow> (if bt_left trie \<noteq> 0 then foreach_property pa (to_prop_obj pa (bt_left trie)) propfn cookie
                     else Some (cookie, True));
          if bt_prop trie \<noteq> 0 \<and> to_prop_obj pa (bt_prop trie) = None then Some (cookie, False)
          else do {
            cookie \<leftarrow> (if bt_prop trie \<noteq> 0 then do {
                          info \<leftarrow> to_prop_info pa (bt_prop trie);
                          Some (propfn (bt_prop trie) info cookie) }
                        else Some cookie);
            (cookie, err) \<leftarrow> (if bt_children trie \<noteq> 0
                        then foreach_property pa (to_prop_obj pa (bt_children trie)) propfn cookie
                        else Some (cookie, True));
            (cookie, err) \<leftarrow> (if bt_right trie \<noteq> 0 then foreach_property pa (to_prop_obj pa (bt_right trie)) propfn cookie
                        else Some (cookie, True));
            Some (cookie, True) } })"

definition root_node :: "prop_area \<Rightarrow> nat option" where
  "root_node pa = to_prop_obj pa 0"

definition pa_find :: "prop_area \<Rightarrow> string \<Rightarrow> nat option option" where
  "pa_find pa name = map_option snd (find_property pa (root_node pa) name (length name mod 2 ^ 32) [] 0 False)"

text \<open>
  The argument \<open>rw\<close> says whether the area is mapped for writing. The first write of \<open>find_property\<close> is that of
  \<open>allocate_obj\<close> to \<open>bytes_used_\<close>, and without it nothing is written: when a run changes \<open>bytes_used_\<close> of an area that is
  mapped for reading only, it ends in a fault.
\<close>

definition pa_add :: "bool \<Rightarrow> prop_area \<Rightarrow> string \<Rightarrow> nat \<Rightarrow> string \<Rightarrow> nat \<Rightarrow> (prop_area \<times> bool) option" where
  "pa_add rw pa name namelen v valuelen =
     do { (pa', r) \<leftarrow> find_property pa (root_node pa) name namelen v valuelen True;
          if \<not> rw \<and> bytes_used pa' \<noteq> bytes_used pa then None else Some (pa', r \<noteq> None) }"

definition pa_foreach :: "prop_area \<Rightarrow> (nat \<Rightarrow> prop_info \<Rightarrow> 's \<Rightarrow> 's) \<Rightarrow> 's \<Rightarrow> ('s \<times> bool) option" where
  "pa_foreach pa propfn cookie = foreach_property pa (root_node pa) propfn cookie"

end
