(* ===== verification/Prop_Trie.thy ===== *)
theory Prop_Trie
  imports Prop_Area "HOL-Library.Tree" "HOL-Library.Sublist"
begin

text \<open>
  Correctness of the property trie of \<open>Prop_Area\<close>. A ghost function gives for every path of
  tokens the binary search tree of the tokens that follow it; \<open>pa_inv\<close> ties it to the memory.
  Finding and adding are shown to work on this trie, and the properties say what that
  means for the callers of \<open>find\<close>, \<open>add\<close> and \<open>foreach\<close>.
\<close>

section \<open>The order of the names\<close>

definition name_cmp :: "string \<Rightarrow> string \<Rightarrow> int" where
  "name_cmp s t = cmp_prop_name s (length s) t (length t)"

lemma strncmp_take: "strncmp s t n = strncmp (take n s) t n"
  by (induction s t n rule: strncmp.induct) simp_all

lemma cmp_prop_name_take:
  "k \<le> length s \<Longrightarrow> cmp_prop_name s k t (length t) = name_cmp (take k s) t"
  using strncmp_take [of s t k] by (cases "k = length t") (simp_all add: name_cmp_def cmp_prop_name_def min_absorb2)

lemma of_char_neq: "c \<noteq> d \<Longrightarrow> (of_char c :: int) < of_char d \<or> (of_char d :: int) < of_char c"
  by (metis linorder_neqE of_char_eq_iff)

lemma strncmp_eq: "length s = n \<Longrightarrow> length t = n \<Longrightarrow> strncmp s t n = 0 \<longleftrightarrow> s = t"
  by (induction s t n rule: strncmp.induct) auto

lemma strncmp_flip: "length s = n \<Longrightarrow> length t = n \<Longrightarrow> strncmp t s n = - strncmp s t n"
  by (induction s t n rule: strncmp.induct) auto

lemma strncmp_trans:
  "length s = n \<Longrightarrow> length t = n \<Longrightarrow> length u = n \<Longrightarrow> strncmp s t n < 0 \<Longrightarrow> strncmp t u n < 0 \<Longrightarrow> strncmp s u n < 0"
proof (induction n arbitrary: s t u)
  case (Suc n)
  obtain a s' where 1: "s = a # s'" "length s' = n" using Suc.prems(1) by (cases s) auto
  obtain b t' where 2: "t = b # t'" "length t' = n" using Suc.prems(2) by (cases t) auto
  obtain c u' where 3: "u = c # u'" "length u' = n" using Suc.prems(3) by (cases u) auto
  note e = 1(1) 2(1) 3(1)
  note IH = Suc.IH [of s' t' u', OF 1(2) 2(2) 3(2)]
  show ?case using Suc.prems(4,5) IH unfolding e
    by (cases "a = b"; cases "b = c"; cases "a = c") simp_all
qed simp

lemma name_cmp_eq [simp]: "name_cmp s t = 0 \<longleftrightarrow> s = t"
  by (auto simp: name_cmp_def cmp_prop_name_def strncmp_eq)

lemma name_cmp_self [simp]: "name_cmp s s = 0"
  by simp

lemma name_cmp_flip: "name_cmp t s = - name_cmp s t"
  using strncmp_flip [of s "length s" t] by (auto simp: name_cmp_def cmp_prop_name_def)

lemma name_cmp_trans: "name_cmp s t < 0 \<Longrightarrow> name_cmp t u < 0 \<Longrightarrow> name_cmp s u < 0"
  by (auto simp: name_cmp_def cmp_prop_name_def split: if_splits intro: strncmp_trans)

section \<open>Levels\<close>

type_synonym level = "(nat \<times> string) tree"

abbreviation names :: "level \<Rightarrow> string set" where
  "names t \<equiv> snd ` set_tree t"

abbreviation level_ordered :: "level \<Rightarrow> bool" where
  "level_ordered \<equiv> bst_wrt (\<lambda>x y. name_cmp (snd x) (snd y) < 0)"

fun root :: "level \<Rightarrow> nat" where
  "root Leaf = 0"
| "root (Node l a r) = fst a"

fun lookup_level :: "level \<Rightarrow> string \<Rightarrow> nat option" where
  "lookup_level Leaf n = None"
| "lookup_level (Node l a r) n =
     (if name_cmp n (snd a) = 0 then Some (fst a) else if name_cmp n (snd a) < 0 then lookup_level l n else lookup_level r n)"

fun insert_level :: "nat \<Rightarrow> string \<Rightarrow> level \<Rightarrow> level" where
  "insert_level o' n Leaf = Node Leaf (o', n) Leaf"
| "insert_level o' n (Node l a r) =
     (if name_cmp n (snd a) < 0 then Node (insert_level o' n l) a r else Node l a (insert_level o' n r))"

text \<open>The node that gets the new one, and on which side.\<close>

fun slot :: "level \<Rightarrow> string \<Rightarrow> nat \<times> bool" where
  "slot Leaf n = (0, False)"
| "slot (Node l a r) n =
     (if name_cmp n (snd a) < 0 then if l = Leaf then (fst a, True) else slot l n
      else if r = Leaf then (fst a, False) else slot r n)"

lemma lookup_level_iff:
  assumes "level_ordered t"
  shows "lookup_level t n = Some x \<longleftrightarrow> (x, n) \<in> set_tree t"
  using assms
proof (induction t)
  case (Node l a r)
  obtain y m where a: "a = (y, m)" by (cases a)
  from Node have IH: "lookup_level l n = Some x \<longleftrightarrow> (x, n) \<in> set_tree l" "lookup_level r n = Some x \<longleftrightarrow> (x, n) \<in> set_tree r"
    by simp_all
  have l: "(x, n) \<in> set_tree l \<Longrightarrow> name_cmp n m < 0" and r: "(x, n) \<in> set_tree r \<Longrightarrow> name_cmp m n < 0" for x
    using Node.prems a by auto
  show ?case using IH l [of x] r [of x] name_cmp_flip [of m n] by (cases "n = m") (auto simp: a)
qed simp

lemma lookup_level_None: "level_ordered t \<Longrightarrow> lookup_level t n = None \<longleftrightarrow> n \<notin> names t"
  using lookup_level_iff [of t n] by (cases "lookup_level t n") force+

lemma set_insert_level [simp]: "set_tree (insert_level x n t) = insert (x, n) (set_tree t)"
  by (induction t) auto

lemma root_insert_level [simp]: "t \<noteq> Leaf \<Longrightarrow> root (insert_level x n t) = root t"
  by (cases t) auto

lemma insert_level_ordered:
  "level_ordered t \<Longrightarrow> n \<notin> names t \<Longrightarrow> level_ordered (insert_level x n t)"
proof (induction t)
  case (Node l a r)
  have "n \<noteq> snd a" using Node.prems by auto
  then have "name_cmp n (snd a) < 0 \<or> name_cmp (snd a) n < 0" using name_cmp_flip [of n "snd a"] name_cmp_eq [of n "snd a"] by linarith
  with Node show ?case by (auto simp: name_cmp_flip [of n "snd a"])
qed simp

lemma slot_in: "t \<noteq> Leaf \<Longrightarrow> fst (slot t n) \<in> fst ` set_tree t"
  by (induction t) auto

text \<open>The nodes with the roots of their subtrees, and the effect of an insertion on them.\<close>

fun links :: "level \<Rightarrow> ((nat \<times> string) \<times> nat \<times> nat) set" where
  "links Leaf = {}"
| "links (Node l a r) = insert (a, root l, root r) (links l \<union> links r)"

definition relink :: "nat \<Rightarrow> nat \<times> bool \<Rightarrow> (nat \<times> string) \<times> nat \<times> nat \<Rightarrow> (nat \<times> string) \<times> nat \<times> nat" where
  "relink x s e = (case e of (a, lo, ro) \<Rightarrow>
     (a, if s = (fst a, True) then x else lo, if s = (fst a, False) then x else ro))"

lemma fst_links [simp]: "fst ` links t = set_tree t"
  by (induction t) (simp_all add: image_Un insert_commute Un_commute)

lemma links_set: "(a, lo, ro) \<in> links t \<Longrightarrow> a \<in> set_tree t"
  by (metis fst_conv fst_links image_eqI)

lemma set_links: "a \<in> set_tree t \<Longrightarrow> \<exists>lo ro. (a, lo, ro) \<in> links t"
  by (induction t) auto

lemma relink_other: "fst s \<notin> fst ` set_tree t \<Longrightarrow> relink x s ` links t = links t"
proof -
  assume s: "fst s \<notin> fst ` set_tree t"
  have "relink x s e = e" if "e \<in> links t" for e
  proof -
    obtain a lo ro where e: "e = (a, lo, ro)" by (cases e)
    have "fst a \<noteq> fst s" using s links_set [of a lo ro t] that unfolding e by (metis image_eqI)
    then show ?thesis by (auto simp: relink_def e)
  qed
  then show ?thesis by simp
qed

lemma links_insert_level:
  assumes "t \<noteq> Leaf" "distinct (map fst (inorder t))"
  shows "links (insert_level x n t) = insert ((x, n), 0, 0) (relink x (slot t n) ` links t)"
  using assms
proof (induction t)
  case (Node l a r)
  have d: "distinct (map fst (inorder l))" "distinct (map fst (inorder r))" "fst a \<notin> fst ` set_tree l" "fst a \<notin> fst ` set_tree r"
    "fst ` set_tree l \<inter> fst ` set_tree r = {}" using Node.prems(2) by auto
  show ?case
  proof (cases "name_cmp n (snd a) < 0")
    case True
    show ?thesis
    proof (cases "l = Leaf")
      case True
      then show ?thesis using \<open>name_cmp n (snd a) < 0\<close> d relink_other [of "(fst a, True)" r x]
        by (simp add: relink_def) (rule insert_commute)
    next
      case False
      have "fst (slot l n) \<in> fst ` set_tree l" using False by (rule slot_in)
      then have s: "fst (slot l n) \<noteq> fst a" "fst (slot l n) \<notin> fst ` set_tree r" using d by (metis, blast)
      have "relink x (slot l n) (a, root l, root r) = (a, root l, root r)" using s(1) by (auto simp: relink_def)
      then show ?thesis using True False Node.IH(1) [OF False d(1)] relink_other [OF s(2), of x] 
        by (simp add: image_Un Un_commute) (rule insert_commute)
    qed
  next
    case ge: False
    show ?thesis
    proof (cases "r = Leaf")
      case True
      then show ?thesis using ge d relink_other [of "(fst a, False)" l x]
        by (simp add: relink_def) (rule insert_commute)
    next
      case False
      have "fst (slot r n) \<in> fst ` set_tree r" using False by (rule slot_in)
      then have s: "fst (slot r n) \<noteq> fst a" "fst (slot r n) \<notin> fst ` set_tree l" using d by (metis, blast)
      have "relink x (slot r n) (a, root l, root r) = (a, root l, root r)" using s(1) by (auto simp: relink_def)
      then show ?thesis using ge False Node.IH(2) [OF False d(2)] relink_other [OF s(2), of x] 
        by (simp add: image_Un Un_commute) (rule insert_commute)
    qed
  qed
qed simp

section \<open>The invariant\<close>

type_synonym trie = "string list \<Rightarrow> level"

definition token :: "string \<Rightarrow> bool" where
  "token n \<longleftrightarrow> n \<noteq> [] \<and> CHR ''.'' \<notin> set n"

function tokens :: "string \<Rightarrow> string list" where
  "tokens s =
     (let sep = dropWhile (\<lambda>c. c \<noteq> CHR ''.'') s
      in take (length (takeWhile (\<lambda>c. c \<noteq> CHR ''.'') s) mod 2 ^ 32) s # (if sep = [] then [] else tokens (tl sep)))"
  by pat_completeness auto

termination tokens
  by (relation "measure length") (simp_all add: dropWhile_tl_less del: length_tl)

declare tokens.simps [simp del] find_property_node.simps [simp del]

lemma tokens_not_Nil [simp]: "tokens s \<noteq> []" "[] \<noteq> tokens s"
  by (subst tokens.simps, simp add: Let_def)+

text \<open>The value of the object at an offset. It does not depend on the nodes of the trie.\<close>

definition info_value :: "prop_area \<Rightarrow> nat \<Rightarrow> string option" where
  "info_value pa off =
     (case to_prop_info pa off of
        Some i \<Rightarrow> (case pi_value i of Value v \<Rightarrow> Some v | LongProperty _ _ \<Rightarrow> long_value pa off)
      | None \<Rightarrow> None)"

definition keeps :: "prop_area \<Rightarrow> prop_area \<Rightarrow> bool" where
  "keeps pa pa' \<longleftrightarrow> (\<forall>x z. pa_data pa x = Some z \<longrightarrow> (\<forall>bt. z \<noteq> Bt bt) \<longrightarrow> pa_data pa' x = Some z)"

lemma keepsD:
  "keeps pa pa' \<Longrightarrow> pa_data pa x = Some (Info i) \<Longrightarrow> pa_data pa' x = Some (Info i)"
  "keeps pa pa' \<Longrightarrow> pa_data pa x = Some (Chars v) \<Longrightarrow> pa_data pa' x = Some (Chars v)"
  by (simp_all add: keeps_def)

lemma keeps_trans: "keeps pa pa1 \<Longrightarrow> keeps pa1 pa2 \<Longrightarrow> keeps pa pa2"
  by (simp add: keeps_def)

lemma info_value_keeps: "keeps pa pa' \<Longrightarrow> info_value pa p = Some v \<Longrightarrow> info_value pa' p = Some v"
  by (auto simp: info_value_def to_prop_info_def long_value_def keepsD split: option.splits prop_obj.splits prop_value.splits)

text \<open>The serial of an object that is not being changed has the length of what it holds.\<close>

definition serial_ok :: "prop_info \<Rightarrow> bool" where
  "serial_ok i \<longleftrightarrow> even (unat (pi_serial i)) \<and>
     (case pi_value i of
        Value v \<Rightarrow> length v < PROP_VALUE_MAX \<and> unat (pi_serial i) div 2 ^ 24 = length v
      | LongProperty e _ \<Rightarrow> e = kLongLegacyError \<and> unat (pi_serial i) div 2 ^ 24 = length e \<and> is_long i)"

text \<open>The object of a property.\<close>

definition info_ok :: "prop_area \<Rightarrow> string list \<Rightarrow> nat \<Rightarrow> bool" where
  "info_ok pa P p \<longleftrightarrow>
     (\<exists>i v. pa_data pa p = Some (Info i) \<and> tokens (pi_name i) = P \<and> length (pi_name i) < 2 ^ 32 \<and>
       serial_ok i \<and> info_value pa p = Some v \<and>
       (length v < PROP_VALUE_MAX \<longrightarrow> pi_value i = Value v))"

lemma info_ok_keeps: "info_ok pa P p \<Longrightarrow> keeps pa pa' \<Longrightarrow> info_ok pa' P p"
  unfolding info_ok_def using keepsD(1) info_value_keeps by metis

text \<open>
  The node of a level: its name, its links, its children, and its property if it has one. Links
  lead to larger offsets.
\<close>

definition node_ok :: "trie \<Rightarrow> prop_area \<Rightarrow> string list \<Rightarrow> nat \<Rightarrow> string \<Rightarrow> nat \<Rightarrow> nat \<Rightarrow> bool" where
  "node_ok L pa P x n lo ro \<longleftrightarrow>
     (\<exists>p. pa_data pa x = Some (Bt \<lparr>bt_name = n, bt_prop = p, bt_left = lo, bt_right = ro, bt_children = root (L (P @ [n]))\<rparr>) \<and>
       (\<forall>y \<in> {lo, ro, root (L (P @ [n]))}. y = 0 \<or> x < y) \<and>
       (p \<noteq> 0 \<longrightarrow> info_ok pa (P @ [n]) p))"

definition pa_inv :: "trie \<Rightarrow> prop_area \<Rightarrow> bool" where
  "pa_inv L pa \<longleftrightarrow>
     pa_data pa 0 = Some (Bt \<lparr>bt_name = [], bt_prop = 0, bt_left = 0, bt_right = 0, bt_children = root (L [])\<rparr>) \<and>
     (\<forall>P x n lo ro. ((x, n), lo, ro) \<in> links (L P) \<longrightarrow> node_ok L pa P x n lo ro \<and> 0 < x \<and> token n) \<and>
     (\<forall>P x n Q m. (x, n) \<in> set_tree (L P) \<longrightarrow> (x, m) \<in> set_tree (L Q) \<longrightarrow> P = Q) \<and>
     (\<forall>P. level_ordered (L P)) \<and>
     (\<forall>P n. n \<notin> names (L P) \<longrightarrow> L (P @ [n]) = Leaf) \<and>
     (\<forall>x. pa_data pa x \<noteq> None \<longrightarrow> x < bytes_used pa) \<and> bytes_used pa \<le> pa_data_size pa"

definition node_at :: "trie \<Rightarrow> string list \<Rightarrow> nat \<Rightarrow> bool" where
  "node_at L P x \<longleftrightarrow> (P = [] \<and> x = 0) \<or> (\<exists>Q n. P = Q @ [n] \<and> (x, n) \<in> set_tree (L Q))"

text \<open>The property of a path; zero when there is none.\<close>

definition prop_at :: "trie \<Rightarrow> prop_area \<Rightarrow> string list \<Rightarrow> nat \<Rightarrow> bool" where
  "prop_at L pa P p \<longleftrightarrow> p \<noteq> 0 \<and> (\<exists>x bt. node_at L P x \<and> pa_data pa x = Some (Bt bt) \<and> bt_prop bt = p)"

lemma pa_invD:
  assumes "pa_inv L pa"
  shows pa_inv_root: "pa_data pa 0 = Some (Bt \<lparr>bt_name = [], bt_prop = 0, bt_left = 0, bt_right = 0, bt_children = root (L [])\<rparr>)"
    and pa_inv_node: "((x, n), lo, ro) \<in> links (L P) \<Longrightarrow> node_ok L pa P x n lo ro"
    and pa_inv_token: "(x, n) \<in> set_tree (L P) \<Longrightarrow> 0 < x \<and> token n"
    and pa_inv_unique: "(x, n) \<in> set_tree (L P) \<Longrightarrow> (x, m) \<in> set_tree (L Q) \<Longrightarrow> P = Q"
    and pa_inv_ordered: "level_ordered (L P)"
    and pa_inv_Leaf: "n \<notin> names (L P) \<Longrightarrow> L (P @ [n]) = Leaf"
    and pa_inv_used: "pa_data pa x = Some z \<Longrightarrow> x < bytes_used pa"
    and pa_inv_size: "bytes_used pa \<le> pa_data_size pa"
proof -
  note i = assms [unfolded pa_inv_def]
  show "pa_data pa 0 = Some (Bt \<lparr>bt_name = [], bt_prop = 0, bt_left = 0, bt_right = 0, bt_children = root (L [])\<rparr>)"
    "bytes_used pa \<le> pa_data_size pa" "level_ordered (L P)" using i by simp_all
  have n: "((x, n), lo, ro) \<in> links (L P) \<Longrightarrow> node_ok L pa P x n lo ro \<and> 0 < x \<and> token n" for lo ro
    using i by blast
  show "((x, n), lo, ro) \<in> links (L P) \<Longrightarrow> node_ok L pa P x n lo ro" using n by blast
  show "(x, n) \<in> set_tree (L P) \<Longrightarrow> 0 < x \<and> token n" using n set_links [of "(x, n)" "L P"] by blast
  show "(x, n) \<in> set_tree (L P) \<Longrightarrow> (x, m) \<in> set_tree (L Q) \<Longrightarrow> P = Q" using i by blast
  show "n \<notin> names (L P) \<Longrightarrow> L (P @ [n]) = Leaf" using i by blast
  show "pa_data pa x = Some z \<Longrightarrow> x < bytes_used pa" using i by simp
qed

lemma pa_inv_cell:
  assumes "pa_inv L pa" "(x, n) \<in> set_tree (L P)"
  obtains lo ro p where "((x, n), lo, ro) \<in> links (L P)"
    "pa_data pa x = Some (Bt \<lparr>bt_name = n, bt_prop = p, bt_left = lo, bt_right = ro, bt_children = root (L (P @ [n]))\<rparr>)"
    "p \<noteq> 0 \<Longrightarrow> info_ok pa (P @ [n]) p"
proof -
  obtain lo ro where l: "((x, n), lo, ro) \<in> links (L P)"
    using set_links [OF assms(2)] by blast
  from pa_inv_node [OF assms(1) this] that [OF l] show ?thesis unfolding node_ok_def by blast
qed

lemma pa_inv_name:
  assumes "pa_inv L pa" "(x, n) \<in> set_tree (L P)" "(x, m) \<in> set_tree (L Q)"
  shows "n = m"
proof -
  obtain lo ro p where "pa_data pa x = Some (Bt \<lparr>bt_name = n, bt_prop = p, bt_left = lo, bt_right = ro, bt_children = root (L (P @ [n]))\<rparr>)"
    using pa_inv_cell [OF assms(1,2)] by metis
  moreover obtain lo ro p where "pa_data pa x = Some (Bt \<lparr>bt_name = m, bt_prop = p, bt_left = lo, bt_right = ro, bt_children = root (L (Q @ [m]))\<rparr>)"
    using pa_inv_cell [OF assms(1,3)] by metis
  ultimately show ?thesis by simp
qed

lemma level_sorted: "level_ordered t \<Longrightarrow> sorted_wrt (\<lambda>x y. name_cmp (snd x) (snd y) < 0) (inorder t)"
proof (induction t)
  case (Node l a r)
  then show ?case by (auto simp: sorted_wrt_append intro: name_cmp_trans [of _ "snd a"])
qed simp

lemma level_distinct:
  assumes "level_ordered t" "\<And>x n m. (x, n) \<in> set_tree t \<Longrightarrow> (x, m) \<in> set_tree t \<Longrightarrow> n = m"
  shows "distinct (map fst (inorder t))"
proof -
  have "distinct xs" if "sorted_wrt (\<lambda>x y. name_cmp (snd x) (snd y) < 0) xs" for xs :: "(nat \<times> string) list"
    using that by (induction xs) auto
  from this [OF level_sorted [OF assms(1)]] have "distinct (inorder t)" .
  moreover have "inj_on fst (set_tree t)"
  proof (rule inj_onI)
    fix a b
    assume "a \<in> set_tree t" "b \<in> set_tree t" "fst a = fst b"
    with assms(2) [of "fst a" "snd a" "snd b"] show "a = b" by (cases a; cases b) simp
  qed
  ultimately show ?thesis by (simp add: distinct_map)
qed

lemma pa_inv_distinct: "pa_inv L pa \<Longrightarrow> distinct (map fst (inorder (L P)))"
  by (rule level_distinct [OF pa_inv_ordered pa_inv_name])

lemma pa_inv_ptr:
  assumes "pa_inv L pa" "x \<in> fst ` set_tree (L P)"
  shows "0 < x" "to_prop_obj pa x = Some x" "x < bytes_used pa"
proof -
  obtain n where n: "(x, n) \<in> set_tree (L P)" using assms(2) by force
  show "0 < x" using pa_inv_token [OF assms(1) n] by simp
  show "x < bytes_used pa" using pa_inv_cell [OF assms(1) n] pa_inv_used [OF assms(1)] by metis
  then show "to_prop_obj pa x = Some x" using pa_inv_size [OF assms(1)] by (simp add: to_prop_obj_def)
qed

section \<open>Finding in a level\<close>

lemma root_in: "t \<noteq> Leaf \<Longrightarrow> root t \<in> fst ` set_tree t"
  by (cases t) auto

definition link_update :: "bool \<Rightarrow> nat \<Rightarrow> prop_bt \<Rightarrow> prop_bt" where
  "link_update b y = (if b then bt_left_update (\<lambda>_. y) else bt_right_update (\<lambda>_. y))"

lemma find_prop_bt_level:
  assumes inv: "pa_inv L pa" and k: "k \<le> length name" and "links t \<subseteq> links (L P)" "t \<noteq> Leaf"
  shows "find_prop_bt pa (Some (root t)) name k alloc =
    (case lookup_level t (take k name) of
       Some x \<Rightarrow> Some (pa, Some x)
     | None \<Rightarrow>
         if \<not> alloc then Some (pa, None)
         else case new_prop_bt pa name k of
             None \<Rightarrow> Some (pa, None)
           | Some (pa', x) \<Rightarrow>
               Some (set_bt pa' (fst (slot t (take k name))) (link_update (snd (slot t (take k name))) x), Some x))"
  using assms(3,4)
proof (induction t)
  case (Node l a r)
  let ?n = "take k name"
  obtain x m where a: "a = (x, m)" by (cases a)
  have "((x, m), root l, root r) \<in> links (L P)" using Node.prems(1) a by simp
  from pa_inv_node [OF inv this] obtain p where
    c: "to_prop_bt pa x = Some \<lparr>bt_name = m, bt_prop = p, bt_left = root l, bt_right = root r, bt_children = root (L (P @ [m]))\<rparr>"
    by (auto simp: node_ok_def to_prop_bt_def)
  have sub: "root s \<noteq> 0 \<and> to_prop_obj pa (root s) = Some (root s)" if "s \<noteq> Leaf" "s = l \<or> s = r" for s
  proof -
    have "set_tree s \<subseteq> set_tree (L P)" using Node.prems(1) that(2) links_set by (fastforce simp flip: fst_links)
    then have "root s \<in> fst ` set_tree (L P)" using root_in [OF that(1)] by blast
    from pa_inv_ptr [OF inv this] show ?thesis by simp
  qed
  have IH: "links l \<subseteq> links (L P)" "links r \<subseteq> links (L P)" using Node.prems(1) by auto
  show ?case
    using sub [of l] sub [of r] Node.IH(1) [OF IH(1)] Node.IH(2) [OF IH(2)]
    by (subst find_prop_bt.simps, cases "l = Leaf"; cases "r = Leaf")
      (simp_all add: a c cmp_prop_name_take [OF k] Let_def link_update_def cong: option.case_cong)
qed simp

section \<open>Adding a node\<close>

lemma BIONIC_ALIGN_ge: "sz \<le> BIONIC_ALIGN sz 4"
  by (simp add: BIONIC_ALIGN_def)

lemma allocate_objD:
  assumes "allocate_obj pa sz = Some (pa', x)"
  shows "x = bytes_used pa" "pa_data pa' = pa_data pa" "bytes_used pa + sz \<le> bytes_used pa'" "bytes_used pa' \<le> pa_data_size pa'"
  using assms BIONIC_ALIGN_ge [of sz] by (auto simp: allocate_obj_def Let_def split: if_splits)

lemma new_prop_btD:
  assumes "new_prop_bt pa name k = Some (pa', x)"
  shows "x = bytes_used pa" "pa_data pa' = (pa_data pa)(x \<mapsto> Bt (prop_bt_new name k))" "x < bytes_used pa'"
    "bytes_used pa' \<le> pa_data_size pa'"
proof -
  obtain pa1 where a: "allocate_obj pa (20 + k + 1) = Some (pa1, x)" "pa' = put_obj x (Bt (prop_bt_new name k)) pa1"
    using assms by (auto simp: new_prop_bt_def split: option.splits)
  from allocate_objD [OF a(1)] show "x = bytes_used pa" "pa_data pa' = (pa_data pa)(x \<mapsto> Bt (prop_bt_new name k))"
    "x < bytes_used pa'" "bytes_used pa' \<le> pa_data_size pa'" by (simp_all add: a(2) put_obj_def)
qed

lemma set_bt_data:
  "pa_data pa x = Some (Bt bt) \<Longrightarrow> pa_data (set_bt pa x f) = (pa_data pa)(x \<mapsto> Bt (f bt))"
  "bytes_used (set_bt pa x f) = bytes_used pa"
  "pa_data_size (set_bt pa x f) = pa_data_size pa"
  by (simp_all add: set_bt_def put_obj_def split: option.splits prop_obj.splits)

lemma node_at_cell:
  assumes "pa_inv L pa" "node_at L P x"
  obtains bt where "pa_data pa x = Some (Bt bt)" "bt_children bt = root (L P)"
proof (cases "P = []")
  case True
  then have "x = 0" using assms(2) by (simp add: node_at_def)
  then show ?thesis using that pa_inv_root [OF assms(1)] True by simp
next
  case False
  then obtain Q n where "P = Q @ [n]" "(x, n) \<in> set_tree (L Q)" using assms(2) by (auto simp: node_at_def)
  then show ?thesis using that pa_inv_cell [OF assms(1)] by (metis prop_bt.select_convs(5))
qed

text \<open>What the two ways to add a node have in common: one more node, one changed cell.\<close>

definition grows :: "trie \<Rightarrow> prop_area \<Rightarrow> trie \<Rightarrow> prop_area \<Rightarrow> bool" where
  "grows L pa L' pa' \<longleftrightarrow>
     (\<forall>Q. set_tree (L Q) \<subseteq> set_tree (L' Q)) \<and>
     (\<forall>x bt. pa_data pa x = Some (Bt bt) \<longrightarrow> (\<exists>bt'. pa_data pa' x = Some (Bt bt') \<and> bt_prop bt' = bt_prop bt)) \<and>
     (\<forall>Q a bt. a \<in> set_tree (L' Q) - set_tree (L Q) \<longrightarrow> pa_data pa' (fst a) = Some (Bt bt) \<longrightarrow> bt_prop bt = 0) \<and>
     keeps pa pa'"

lemma grows_refl: "grows L pa L pa"
  by (simp add: grows_def keeps_def)

lemma growsD:
  assumes "grows L pa L' pa'"
  shows "a \<in> set_tree (L Q) \<Longrightarrow> a \<in> set_tree (L' Q)"
    and "pa_data pa x = Some (Bt bt) \<Longrightarrow> \<exists>bt'. pa_data pa' x = Some (Bt bt') \<and> bt_prop bt' = bt_prop bt"
    and "a \<in> set_tree (L' Q) \<Longrightarrow> a \<notin> set_tree (L Q) \<Longrightarrow> pa_data pa' (fst a) = Some (Bt bt) \<Longrightarrow> bt_prop bt = 0"
    and "keeps pa pa'"
  using assms unfolding grows_def by (blast, blast, blast, blast)

lemma grows_trans:
  assumes g: "grows L pa L1 pa1" "grows L1 pa1 L2 pa2" and "\<And>Q a. a \<in> set_tree (L1 Q) \<Longrightarrow> \<exists>bt. pa_data pa1 (fst a) = Some (Bt bt)"
  shows "grows L pa L2 pa2"
  unfolding grows_def
proof (intro conjI allI impI)
  fix Q a bt
  assume a: "a \<in> set_tree (L2 Q) - set_tree (L Q)" "pa_data pa2 (fst a) = Some (Bt bt)"
  show "bt_prop bt = 0"
  proof (cases "a \<in> set_tree (L1 Q)")
    case True
    then obtain b1 where b1: "pa_data pa1 (fst a) = Some (Bt b1)" using assms(3) by blast
    have "bt_prop b1 = 0" using growsD(3) [OF g(1) True _ b1] a(1) by simp
    with growsD(2) [OF g(2) b1] a(2) show ?thesis by auto
  next
    case False
    with a growsD(3) [OF g(2), of a Q bt] show ?thesis by simp
  qed
next
  fix x bt
  assume "pa_data pa x = Some (Bt bt)"
  then obtain b1 where b1: "pa_data pa1 x = Some (Bt b1)" "bt_prop b1 = bt_prop bt" using growsD(2) [OF g(1)] by blast
  from growsD(2) [OF g(2) b1(1)] show "\<exists>bt'. pa_data pa2 x = Some (Bt bt') \<and> bt_prop bt' = bt_prop bt" by (simp add: b1(2))
next
  show "set_tree (L Q) \<subseteq> set_tree (L2 Q)" for Q using growsD(1) [OF g(1)] growsD(1) [OF g(2)] by blast
qed (rule keeps_trans [OF growsD(4) [OF g(1)] growsD(4) [OF g(2)]])

lemma node_ok_keep:
  assumes "node_ok L pa Q y m lo ro" "pa_data pa y = Some (Bt bt)"
    and "pa_data pa' y = Some (Bt (bt\<lparr>bt_left := lo', bt_right := ro', bt_children := root (L' (Q @ [m]))\<rparr>))"
    and "keeps pa pa'"
    and "lo' = lo \<or> y < lo'" "ro' = ro \<or> y < ro'" "root (L' (Q @ [m])) = root (L (Q @ [m])) \<or> y < root (L' (Q @ [m]))"
  shows "node_ok L' pa' Q y m lo' ro'"
  using assms info_ok_keeps [OF _ assms(4)] unfolding node_ok_def by auto

text \<open>The new node itself is as it should be.\<close>

lemma node_ok_new:
  "pa_data pa x = Some (Bt (prop_bt_new name k)) \<Longrightarrow> take k name = n \<Longrightarrow> L (P @ [n]) = Leaf \<Longrightarrow> node_ok L pa P x n 0 0"
  by (simp add: node_ok_def prop_bt_new_def)

lemma fresh_node:
  assumes "pa_inv L pa" "bytes_used pa \<le> x"
  shows "pa_data pa x = None" "x \<notin> fst ` set_tree (L P)"
  using pa_inv_used [OF assms(1), of x] pa_inv_ptr(3) [OF assms(1), of x P] assms(2) by force+

text \<open>
  The parts of the invariant that only depend on which nodes there are.
\<close>

lemma pa_inv_insert:
  assumes inv: "pa_inv L pa" and off: "node_at L P off" and n: "n \<notin> names (L P)" "token n" and x: "bytes_used pa \<le> x" "0 < x"
    and root: "pa_data pa' 0 = Some (Bt \<lparr>bt_name = [], bt_prop = 0, bt_left = 0, bt_right = 0,
        bt_children = root ((L(P := insert_level x n (L P))) [])\<rparr>)"
    and node: "\<And>Q y m lo ro. ((y, m), lo, ro) \<in> links ((L(P := insert_level x n (L P))) Q) \<Longrightarrow>
        node_ok (L(P := insert_level x n (L P))) pa' Q y m lo ro"
    and used: "\<And>x. pa_data pa' x \<noteq> None \<Longrightarrow> x < bytes_used pa'" "bytes_used pa' \<le> pa_data_size pa'"
  shows "pa_inv (L(P := insert_level x n (L P))) pa'"
proof -
  let ?L = "L(P := insert_level x n (L P))"
  have set: "a \<in> set_tree (?L Q) \<longleftrightarrow> a \<in> set_tree (L Q) \<or> (Q = P \<and> a = (x, n))" for a Q by auto
  have fresh: "(x, m) \<notin> set_tree (L Q)" for m Q using fresh_node(2) [OF inv x(1), of Q] by force
  have "0 < y \<and> token m" if "((y, m), lo, ro) \<in> links (?L Q)" for Q y m lo ro
    using links_set [OF that] pa_inv_token [OF inv, of y m Q] x(2) n(2) unfolding set by auto
  moreover have "Q = R" if "(y, m) \<in> set_tree (?L Q)" "(y, k) \<in> set_tree (?L R)" for y m Q k R
    using that pa_inv_unique [OF inv] fresh unfolding set by blast
  moreover have "level_ordered (?L Q)" for Q using pa_inv_ordered [OF inv] insert_level_ordered [OF _ n(1)] by simp
  moreover have "?L (Q @ [m]) = Leaf" if "m \<notin> names (?L Q)" for Q m
  proof -
    have m: "m \<notin> names (L Q)" using that set by force
    have "Q @ [m] \<noteq> P" using off m by (force simp: node_at_def)
    then show ?thesis using pa_inv_Leaf [OF inv m] by simp
  qed
  ultimately show ?thesis unfolding pa_inv_def using root node used by blast
qed

text \<open>A new node changes one other cell, in its links only.\<close>

definition relinked :: "prop_area \<Rightarrow> nat \<Rightarrow> prop_bt \<Rightarrow> nat \<Rightarrow> (prop_bt \<Rightarrow> prop_bt) \<Rightarrow> prop_area \<Rightarrow> bool" where
  "relinked pa x b y f pa' \<longleftrightarrow>
     (\<exists>bt. pa_data pa y = Some (Bt bt) \<and> pa_data pa' = (pa_data pa)(x \<mapsto> Bt b, y \<mapsto> Bt (f bt))) \<and>
     pa_data pa x = None \<and> bt_prop b = 0 \<and> (\<forall>bt. bt_prop (f bt) = bt_prop bt) \<and> x < bytes_used pa' \<and> bytes_used pa \<le> x \<and>
     bytes_used pa' \<le> pa_data_size pa'"

lemma relinkedI:
  assumes "pa_inv L pa" "new_prop_bt pa name k = Some (pa1, x)" "pa_data pa y = Some (Bt bt)" "\<And>bt. bt_prop (f bt) = bt_prop bt"
  shows "relinked pa x (prop_bt_new name k) y f (set_bt pa1 y f)"
proof -
  note d = new_prop_btD [OF assms(2)]
  have "y < x" using pa_inv_used [OF assms(1,3)] d(1) by simp
  then have "pa_data pa1 y = Some (Bt bt)" using assms(3) d(2) by simp
  from set_bt_data(1) [OF this, of f] have "pa_data (set_bt pa1 y f) = (pa_data pa)(x \<mapsto> Bt (prop_bt_new name k), y \<mapsto> Bt (f bt))"
    using d(2) by simp
  then show ?thesis unfolding relinked_def
    using d fresh_node(1) [OF assms(1), of x] assms(3,4) by (simp add: set_bt_data(2,3) prop_bt_new_def)
qed

lemma relinkedD:
  assumes "relinked pa x b y f pa'"
  shows "keeps pa pa'"
    and "pa_data pa z = Some (Bt bt) \<Longrightarrow> pa_data pa' z = Some (Bt (if z = y then f bt else bt))"
    and "pa_data pa' x = Some (Bt b)" "x \<noteq> y" "bytes_used pa \<le> x" "bytes_used pa' \<le> pa_data_size pa'"
  using assms by (auto simp: relinked_def keeps_def)

lemma relinked_used:
  assumes "pa_inv L pa" "relinked pa x b y f pa'" "pa_data pa' z \<noteq> None"
  shows "z < bytes_used pa'"
  using assms(2,3) pa_inv_used [OF assms(1), of z] by (force simp: relinked_def split: if_splits)

lemma relinked_grows:
  assumes "pa_inv L pa" "relinked pa x b y f pa'"
  shows "grows L pa (L(P := insert_level x n (L P))) pa'"
proof -
  have "bt_prop bt = 0" if "pa_data pa' x = Some (Bt bt)" for bt
    using relinkedD(3) [OF assms(2)] that assms(2) by (simp add: relinked_def)
  moreover have "\<exists>bt'. pa_data pa' z = Some (Bt bt') \<and> bt_prop bt' = bt_prop bt" if "pa_data pa z = Some (Bt bt)" for z bt
    using relinkedD(2) [OF assms(2) that] assms(2) by (auto simp: relinked_def)
  ultimately show ?thesis using relinkedD(1) [OF assms(2)] by (auto simp: grows_def)
qed

lemma relinked_first:
  assumes inv: "pa_inv L pa" and off: "node_at L P off" and n: "token n" "take k name = n" and P: "L P = Leaf"
    and r: "relinked pa x (prop_bt_new name k) off (bt_children_update (\<lambda>_. x)) pa'"
  shows "pa_inv (L(P := insert_level x n (L P))) pa'"
proof (rule pa_inv_insert [OF inv off])
  let ?L = "L(P := insert_level x n (L P))"
  have "pa_data pa 0 \<noteq> None" using pa_inv_root [OF inv] by simp
  then have "0 < bytes_used pa" using pa_inv_used [OF inv] by auto
  then show "0 < x" using relinkedD(5) [OF r] by simp
  have off0: "off = 0 \<longleftrightarrow> P = []" using off pa_inv_token [OF inv] by (fastforce simp: node_at_def)
  show "pa_data pa' 0 = Some (Bt \<lparr>bt_name = [], bt_prop = 0, bt_left = 0, bt_right = 0, bt_children = root (?L [])\<rparr>)"
    using relinkedD(2) [OF r pa_inv_root [OF inv]] off0 P by auto
  show "node_ok ?L pa' Q y m lo ro" if l: "((y, m), lo, ro) \<in> links (?L Q)" for Q y m lo ro
  proof (cases "Q = P")
    case True
    then have "y = x" "m = n" "lo = 0" "ro = 0" using l P by simp_all
    moreover have "L (P @ [n]) = Leaf" using P by (intro pa_inv_Leaf [OF inv]) simp
    ultimately show ?thesis using node_ok_new [OF relinkedD(3) [OF r] n(2), of ?L P] True by simp
  next
    case False
    then have l: "((y, m), lo, ro) \<in> links (L Q)" using l by simp
    have old: "node_ok L pa Q y m lo ro" using l by (rule pa_inv_node [OF inv])
    then obtain p where c: "pa_data pa y = Some (Bt \<lparr>bt_name = m, bt_prop = p, bt_left = lo, bt_right = ro, bt_children = root (L (Q @ [m]))\<rparr>)"
      by (auto simp: node_ok_def)
    have "y = off \<longleftrightarrow> Q @ [m] = P"
    proof
      assume "y = off"
      with off links_set [OF l] pa_inv_token [OF inv, of y m Q] obtain R k where "P = R @ [k]" "(y, k) \<in> set_tree (L R)"
        by (auto simp: node_at_def)
      with links_set [OF l] pa_inv_unique [OF inv, of y k R m Q] pa_inv_name [OF inv, of y k R m Q] show "Q @ [m] = P" by simp
    next
      assume "Q @ [m] = P"
      then have "(off, m) \<in> set_tree (L Q)" using off by (auto simp: node_at_def)
      with links_set [OF l] show "y = off"
        using lookup_level_iff [OF pa_inv_ordered [OF inv, of Q], of m] by (metis option.inject)
    qed
    then show ?thesis
      using relinkedD(2) [OF r c] P relinkedD(5) [OF r] pa_inv_used [OF inv c] old c
      by (intro node_ok_keep [OF old c _ relinkedD(1) [OF r]]) auto
  qed
qed (use assms relinked_used [OF inv r] relinkedD [OF r] in simp_all)

lemma relinked_level:
  assumes inv: "pa_inv L pa" and off: "node_at L P off" and n: "token n" "take k name = n" "n \<notin> names (L P)" and P: "L P \<noteq> Leaf"
    and r: "relinked pa x (prop_bt_new name k) (fst (slot (L P) n)) (link_update (snd (slot (L P) n)) x) pa'"
  shows "pa_inv (L(P := insert_level x n (L P))) pa'"
proof (rule pa_inv_insert [OF inv off])
  let ?L = "L(P := insert_level x n (L P))"
  let ?s = "slot (L P) n"
  have s: "fst ?s \<in> fst ` set_tree (L P)" using P by (rule slot_in)
  show "0 < x" using relinkedD(5) [OF r] pa_inv_ptr(1,3) [OF inv s] by simp
  have root: "root (?L Q) = root (L Q)" for Q using P by simp
  show "pa_data pa' 0 = Some (Bt \<lparr>bt_name = [], bt_prop = 0, bt_left = 0, bt_right = 0, bt_children = root (?L [])\<rparr>)"
    using relinkedD(2) [OF r pa_inv_root [OF inv]] pa_inv_ptr(1) [OF inv s] unfolding root by auto
  show "node_ok ?L pa' Q y m lo ro" if l: "((y, m), lo, ro) \<in> links (?L Q)" for Q y m lo ro
  proof (cases "Q = P \<and> y = x")
    case True
    have "(y, m) \<notin> set_tree (L P)" for m using True fresh_node(2) [OF inv relinkedD(5) [OF r], of P] by force
    then have e: "m = n" "lo = 0" "ro = 0"
      using l True unfolding links_insert_level [OF P pa_inv_distinct [OF inv]] fun_upd_apply
      by (auto simp: relink_def links_insert_level [OF P pa_inv_distinct [OF inv]] dest!: links_set)
    show ?thesis using node_ok_new [OF relinkedD(3) [OF r] n(2), of ?L P] pa_inv_Leaf [OF inv n(3)] e True by simp
  next
    case False
    obtain lo0 ro0 where l0: "((y, m), lo0, ro0) \<in> links (L Q)"
      and lr: "lo = (if Q = P \<and> ?s = (y, True) then x else lo0)" "ro = (if Q = P \<and> ?s = (y, False) then x else ro0)"
      using l False links_insert_level [OF P pa_inv_distinct [OF inv], of x n] by (auto simp: relink_def split: if_splits)
    have old: "node_ok L pa Q y m lo0 ro0" using l0 by (rule pa_inv_node [OF inv])
    then obtain p where c: "pa_data pa y = Some (Bt \<lparr>bt_name = m, bt_prop = p, bt_left = lo0, bt_right = ro0, bt_children = root (L (Q @ [m]))\<rparr>)"
      by (auto simp: node_ok_def)
    have y: "y < x" using pa_inv_used [OF inv c] relinkedD(5) [OF r] by simp
    have "Q = P" if "y = fst ?s"
      using s links_set [OF l0] pa_inv_unique [OF inv, of y m Q] that by force
    then have "pa_data pa' y = Some (Bt \<lparr>bt_name = m, bt_prop = p, bt_left = lo, bt_right = ro, bt_children = root (L (Q @ [m]))\<rparr>)"
      using relinkedD(2) [OF r c] lr by (cases "?s") (auto simp: link_update_def)
    then have "pa_data pa' y = Some (Bt (\<lparr>bt_name = m, bt_prop = p, bt_left = lo0, bt_right = ro0, bt_children = root (L (Q @ [m]))\<rparr>
        \<lparr>bt_left := lo, bt_right := ro, bt_children := root (?L (Q @ [m]))\<rparr>))" unfolding root by simp
    from node_ok_keep [where L' = ?L, OF old c this relinkedD(1) [OF r]] y lr show ?thesis unfolding root by simp
  qed
qed (use assms relinked_used [OF inv r] relinkedD [OF r] in simp_all)

section \<open>Finding and adding\<close>

text \<open>One round of the loop of \<open>find_property\<close>.\<close>

lemma find_token:
  assumes inv: "pa_inv L pa" and off: "node_at L P off" and n: "take k name = n" "k \<le> length name" "token n"
  obtains pa1 rt pa' r L' where "find_property_root pa off name k alloc = Some (pa1, rt)"
    "rt = None \<Longrightarrow> pa' = pa1 \<and> r = None"
    "rt \<noteq> None \<Longrightarrow> find_prop_bt pa1 rt name k alloc = Some (pa', r)"
    "pa_inv L' pa'" "grows L pa L' pa'" "\<And>x. r = Some x \<Longrightarrow> (x, n) \<in> set_tree (L' P)"
    "\<not> alloc \<Longrightarrow> pa' = pa \<and> L' = L" "r = None \<Longrightarrow> n \<notin> names (L P)"
proof -
  obtain bt where bt: "pa_data pa off = Some (Bt bt)" "bt_children bt = root (L P)" using node_at_cell [OF inv off] .
  then have tbt: "to_prop_bt pa off = Some bt" by (simp add: to_prop_bt_def)
  show ?thesis
  proof (cases "L P = Leaf")
    case Leaf: True
    show ?thesis
    proof (cases "\<not> alloc \<or> new_prop_bt pa name k = None")
      case True
      then have "find_property_root pa off name k alloc = Some (pa, None)"
        using tbt bt(2) Leaf by (auto simp: find_property_root_def)
      then show ?thesis
        by (rule that [where L' = L and pa' = pa and r = None]) (use inv in \<open>simp_all add: grows_refl Leaf\<close>)
    next
      case False
      then obtain pa1 x where new: "new_prop_bt pa name k = Some (pa1, x)" by auto
      let ?pa = "set_bt pa1 off (bt_children_update (\<lambda>_. x))" and ?L = "L(P := insert_level x n (L P))"
      have rt: "find_property_root pa off name k alloc = Some (?pa, Some x)"
        using tbt bt(2) Leaf False new by (auto simp: find_property_root_def)
      have r: "relinked pa x (prop_bt_new name k) off (bt_children_update (\<lambda>_. x)) ?pa"
        using relinkedI [OF inv new bt(1)] by simp
      have inv': "pa_inv ?L ?pa" by (rule relinked_first [OF inv off n(3) n(1) Leaf r])
      have "find_prop_bt ?pa (Some x) name k alloc = Some (?pa, Some x)"
        using find_prop_bt_level [OF inv' n(2), of "?L P" P] n(1) Leaf by simp
      then show ?thesis
        by (intro that [OF rt, where L' = ?L and pa' = ?pa and r = "Some x"])
          (use inv' relinked_grows [OF inv r] False in simp_all)
    qed
  next
    case P: False
    have rt: "find_property_root pa off name k alloc = Some (pa, Some (root (L P)))"
      using tbt bt(2) pa_inv_ptr [OF inv root_in [OF P]] by (simp add: find_property_root_def)
    note f = find_prop_bt_level [OF inv n(2) subset_refl P, of alloc, unfolded n(1)]
    show ?thesis
    proof (cases "lookup_level (L P) n")
      case (Some x)
      then have "(x, n) \<in> set_tree (L P)" using lookup_level_iff [OF pa_inv_ordered [OF inv]] by blast
      then show ?thesis
        by (intro that [OF rt, where L' = L and pa' = pa and r = "Some x"]) (use f Some inv in \<open>simp_all add: grows_refl\<close>)
    next
      case None
      then have nn: "n \<notin> names (L P)" using lookup_level_None [OF pa_inv_ordered [OF inv]] by blast
      show ?thesis
      proof (cases "\<not> alloc \<or> new_prop_bt pa name k = None")
        case True
        then have "find_prop_bt pa (Some (root (L P))) name k alloc = Some (pa, None)" using f None by auto
        then show ?thesis
          by (intro that [OF rt, where L' = L and pa' = pa and r = None]) (use inv nn in \<open>simp_all add: grows_refl\<close>)
      next
        case False
        then obtain pa1 x where new: "new_prop_bt pa name k = Some (pa1, x)" by auto
        let ?s = "slot (L P) n"
        let ?pa = "set_bt pa1 (fst ?s) (link_update (snd ?s) x)" and ?L = "L(P := insert_level x n (L P))"
        obtain m where "(fst ?s, m) \<in> set_tree (L P)" using slot_in [OF P, of n] by force
        then obtain b where "pa_data pa (fst ?s) = Some (Bt b)" by (rule pa_inv_cell [OF inv])
        then have r: "relinked pa x (prop_bt_new name k) (fst ?s) (link_update (snd ?s) x) ?pa"
          using relinkedI [OF inv new] by (simp add: link_update_def)
        have inv': "pa_inv ?L ?pa" by (rule relinked_level [OF inv off n(3) n(1) nn P r])
        have "find_prop_bt pa (Some (root (L P))) name k alloc = Some (?pa, Some x)" using f None new False by simp
        then show ?thesis
          by (intro that [OF rt, where L' = ?L and pa' = ?pa and r = "Some x"])
            (use inv' relinked_grows [OF inv r] False in simp_all)
      qed
    qed
  qed
qed

lemma node_at_snoc [simp]: "node_at L (P @ [n]) x \<longleftrightarrow> (x, n) \<in> set_tree (L P)"
  by (simp add: node_at_def)

lemma node_at_path:
  assumes "pa_inv L pa" "node_at L (P @ n # ts) x"
  shows "n \<in> names (L P)"
  using assms(2)
proof (induction ts arbitrary: x rule: rev_induct)
  case Nil
  then show ?case by force
next
  case (snoc m ts)
  then have "(x, m) \<in> set_tree (L (P @ n # ts))" using node_at_snoc [of L "P @ n # ts" m x] by simp
  then have ne: "L (P @ n # ts) \<noteq> Leaf" by auto
  have "\<exists>y. node_at L (P @ n # ts) y"
  proof (cases ts rule: rev_cases)
    case Nil
    then show ?thesis using ne pa_inv_Leaf [OF assms(1), of n P] by force
  next
    case (snoc ts' k)
    then show ?thesis using ne pa_inv_Leaf [OF assms(1), of k "P @ n # ts'"] node_at_snoc [of L "P @ n # ts'" k] by force
  qed
  then show ?case using snoc.IH by blast
qed

lemma takeWhile_size: "length s - length (dropWhile Q s) = length (takeWhile Q s)"
  by (metis add_diff_cancel_right' length_append takeWhile_dropWhile_id)

lemma take_takeWhile: "take (length (takeWhile Q s)) s = takeWhile Q s"
  by (metis append_eq_conv_conj takeWhile_dropWhile_id)

text \<open>One token of a name and the rest of it.\<close>

definition first_token :: "string \<Rightarrow> string" where
  "first_token s = take (length (takeWhile (\<lambda>c. c \<noteq> CHR ''.'') s) mod 2 ^ 32) s"

definition from_dot :: "string \<Rightarrow> string" where
  "from_dot s = dropWhile (\<lambda>c. c \<noteq> CHR ''.'') s"

lemma tokens_unfold: "tokens s = first_token s # (if from_dot s = [] then [] else tokens (tl (from_dot s)))"
  unfolding first_token_def from_dot_def by (rule tokens.simps [unfolded Let_def])

lemma first_token_takeWhile: "first_token s = take (length (takeWhile (\<lambda>c. c \<noteq> CHR ''.'') s) mod 2 ^ 32) (takeWhile (\<lambda>c. c \<noteq> CHR ''.'') s)"
proof -
  let ?w = "takeWhile (\<lambda>c. c \<noteq> CHR ''.'') s"
  have "take (length ?w mod 2 ^ 32) s = take (length ?w mod 2 ^ 32) (?w @ dropWhile (\<lambda>c. c \<noteq> CHR ''.'') s)"
    by (simp only: takeWhile_dropWhile_id)
  also have "\<dots> = take (length ?w mod 2 ^ 32) ?w" by (simp only: take_append mod_less_eq_dividend) simp
  finally show ?thesis by (simp only: first_token_def)
qed

lemma first_token_dot: "CHR ''.'' \<notin> set (first_token s)"
  unfolding first_token_takeWhile by (blast dest: in_set_takeD set_takeWhileD)

lemma length_first_token: "length (first_token s) = length (takeWhile (\<lambda>c. c \<noteq> CHR ''.'') s) mod 2 ^ 32"
  unfolding first_token_takeWhile length_take by (rule min.absorb2) (rule mod_less_eq_dividend)

lemma first_token_take: "take (length (first_token s)) s = first_token s" "length (first_token s) \<le> length s"
proof -
  show "take (length (first_token s)) s = first_token s" unfolding length_first_token by (simp only: first_token_def)
  show "length (first_token s) \<le> length s" unfolding first_token_def length_take by (rule min.cobounded1)
qed

lemma first_token_short:
  assumes "length s < 2 ^ 32"
  shows "first_token s = takeWhile (\<lambda>c. c \<noteq> CHR ''.'') s"
proof -
  have "length (takeWhile (\<lambda>c. c \<noteq> CHR ''.'') s) < 2 ^ 32" using assms length_takeWhile_le [of "\<lambda>c. c \<noteq> CHR ''.''" s] by linarith
  then show ?thesis unfolding first_token_takeWhile by (simp only: mod_less take_all_iff order_refl)
qed

lemma from_dot_less: "from_dot s \<noteq> [] \<Longrightarrow> length (tl (from_dot s)) < length s"
  unfolding from_dot_def by (rule dropWhile_tl_less)

lemma find_node_unfold:
  "find_property_node pa off name alloc =
     (if first_token name = [] then Some (pa, None)
      else do {
        (pa, root) \<leftarrow> find_property_root pa off name (length (first_token name)) alloc;
        if root = None then Some (pa, None)
        else do {
          (pa, found) \<leftarrow> find_prop_bt pa root name (length (first_token name)) alloc;
          case found of
            None \<Rightarrow> Some (pa, None)
          | Some current \<Rightarrow>
              if from_dot name = [] then Some (pa, Some current)
              else find_property_node pa current (tl (from_dot name)) alloc } })"
  by (subst find_property_node.simps) (simp only: Let_def takeWhile_size length_first_token [symmetric] length_0_conv from_dot_def)

lemma find_node_step:
  assumes "first_token name \<noteq> []" "find_property_root pa off name (length (first_token name)) alloc = Some (pa1, rt)"
    and "rt = None \<Longrightarrow> pa2 = pa1 \<and> r = None"
    and "rt \<noteq> None \<Longrightarrow> find_prop_bt pa1 rt name (length (first_token name)) alloc = Some (pa2, r)"
  shows "find_property_node pa off name alloc =
    (case r of None \<Rightarrow> Some (pa2, None)
     | Some x \<Rightarrow> if from_dot name = [] then Some (pa2, Some x) else find_property_node pa2 x (tl (from_dot name)) alloc)"
  unfolding find_node_unfold [of pa off name] using assms by (cases rt) simp_all

definition found :: "bool \<Rightarrow> trie \<Rightarrow> prop_area \<Rightarrow> string list \<Rightarrow> trie \<Rightarrow> prop_area \<Rightarrow> nat option \<Rightarrow> bool" where
  "found alloc L pa P L' pa' r \<longleftrightarrow> pa_inv L' pa' \<and> grows L pa L' pa' \<and> (\<forall>x. r = Some x \<longrightarrow> node_at L' P x) \<and>
     (r = None \<longrightarrow> (\<forall>x. \<not> node_at L P x)) \<and> (\<not> alloc \<longrightarrow> pa' = pa \<and> L' = L)"

lemma found_None:
  assumes "pa_inv L' pa'" "grows L pa L' pa'" "\<not> alloc \<Longrightarrow> pa' = pa \<and> L' = L" "\<And>x. \<not> node_at L P x"
  shows "found alloc L pa P L' pa' None"
  using assms by (simp add: found_def)

lemma found_trans:
  assumes inv: "pa_inv L1 pa1" and "grows L pa L1 pa1" "found alloc L1 pa1 P L' pa' r" "\<not> alloc \<Longrightarrow> pa1 = pa \<and> L1 = L"
  shows "found alloc L pa P L' pa' r"
proof -
  have "\<exists>bt. pa_data pa1 (fst a) = Some (Bt bt)" if "a \<in> set_tree (L1 Q)" for a Q
    using pa_inv_cell [OF inv, of "fst a" "snd a" Q] that by auto
  then have "grows L pa L' pa'" using grows_trans [OF assms(2)] assms(3) by (simp add: found_def)
  moreover have "node_at L1 P x" if "node_at L P x" for x
    using that growsD(1) [OF assms(2)] by (auto simp: node_at_def)
  ultimately show ?thesis using assms(3,4) by (auto simp: found_def)
qed

lemma find_node:
  assumes "pa_inv L pa" "node_at L P off"
  shows "\<exists>pa' r L'. find_property_node pa off name alloc = Some (pa', r) \<and> found alloc L pa (P @ tokens name) L' pa' r"
  using assms
proof (induction name arbitrary: L pa P off rule: measure_induct_rule [where f = length])
  case (less name)
  note inv = less.prems(1)
  let ?n = "first_token name"
  show ?case
  proof (cases "?n = []")
    case True
    have "?n \<notin> names (L P)" using pa_inv_token [OF inv, of _ ?n P] True by (auto simp: token_def)
    then have "\<not> node_at L (P @ tokens name) x" for x
      using node_at_path [OF inv, of P ?n] unfolding tokens_unfold [of name] by blast
    then have "found alloc L pa (P @ tokens name) L pa None" using inv grows_refl by (intro found_None) simp_all
    then show ?thesis using find_node_unfold [of pa off name] True by auto
  next
    case False
    then have "token ?n" using first_token_dot by (simp add: token_def)
    with less.prems first_token_take [of name] obtain pa1 rt pa2 r L2 where
      f: "find_property_root pa off name (length ?n) alloc = Some (pa1, rt)" "rt = None \<Longrightarrow> pa2 = pa1 \<and> r = None"
        "rt \<noteq> None \<Longrightarrow> find_prop_bt pa1 rt name (length ?n) alloc = Some (pa2, r)"
      and inv2: "pa_inv L2 pa2" and g: "grows L pa L2 pa2" and x: "\<And>x. r = Some x \<Longrightarrow> (x, ?n) \<in> set_tree (L2 P)"
      and ro: "\<not> alloc \<Longrightarrow> pa2 = pa \<and> L2 = L" "r = None \<Longrightarrow> ?n \<notin> names (L P)"
      by (rule find_token [where alloc = alloc]) blast
    note u = find_node_step [OF False f]
    show ?thesis
    proof (cases r)
      case None
      have "\<not> node_at L (P @ tokens name) x" for x
        using node_at_path [OF inv] ro(2) [OF None] unfolding tokens_unfold [of name] by blast
      then have "found alloc L pa (P @ tokens name) L2 pa2 None" using inv2 g ro(1) by (intro found_None)
      then show ?thesis using u None by auto
    next
      case (Some x)
      have at: "node_at L2 (P @ [?n]) x" using x [OF Some] by simp
      show ?thesis
      proof (cases "from_dot name = []")
        case True
        have "found alloc L2 pa2 (P @ tokens name) L2 pa2 r"
          using inv2 at True tokens_unfold [of name] Some by (simp add: found_def grows_refl)
        from found_trans [OF inv2 g this ro(1)] show ?thesis using u Some True by auto
      next
        case sep: False
        from less.IH [OF from_dot_less [OF sep] inv2 at] obtain pa3 r3 L3 where
          3: "find_property_node pa2 x (tl (from_dot name)) alloc = Some (pa3, r3)" "found alloc L2 pa2 (P @ tokens name) L3 pa3 r3"
          using sep tokens_unfold [of name] by auto
        from found_trans [OF inv2 g 3(2) ro(1)] show ?thesis using u Some sep 3(1) by auto
      qed
    qed
  qed
qed

lemma pa_inv_same:
  assumes inv: "pa_inv L pa"
    and root: "pa_data pa' 0 = Some (Bt \<lparr>bt_name = [], bt_prop = 0, bt_left = 0, bt_right = 0, bt_children = root (L [])\<rparr>)"
    and node: "\<And>P x n lo ro. ((x, n), lo, ro) \<in> links (L P) \<Longrightarrow> node_ok L pa' P x n lo ro"
    and used: "\<And>x. pa_data pa' x \<noteq> None \<Longrightarrow> x < bytes_used pa'" "bytes_used pa' \<le> pa_data_size pa'"
  shows "pa_inv L pa'"
proof -
  have "0 < x \<and> token n" if "((x, n), lo, ro) \<in> links (L P)" for x n lo ro P
    using pa_inv_token [OF inv links_set [OF that]] .
  then show ?thesis unfolding pa_inv_def
    using root node used pa_inv_unique [OF inv] pa_inv_ordered [OF inv] pa_inv_Leaf [OF inv] by blast
qed

text \<open>New objects above the used part of the area do not matter to the trie.\<close>

definition extends :: "prop_area \<Rightarrow> prop_area \<Rightarrow> bool" where
  "extends pa pa' \<longleftrightarrow> (\<forall>y < bytes_used pa. pa_data pa' y = pa_data pa y) \<and>
     (\<forall>y. pa_data pa' y \<noteq> None \<longrightarrow> y < bytes_used pa') \<and> bytes_used pa' \<le> pa_data_size pa'"

lemma extends_data: "pa_inv L pa \<Longrightarrow> extends pa pa' \<Longrightarrow> pa_data pa y = Some z \<Longrightarrow> pa_data pa' y = Some z"
  using pa_inv_used [of L pa y z] by (simp add: extends_def)

lemma extends_inv:
  assumes inv: "pa_inv L pa" and e: "extends pa pa'"
  shows "pa_inv L pa'" "grows L pa L pa'"
proof -
  have k: "keeps pa pa'" using extends_data [OF inv e] by (simp add: keeps_def)
  have "node_ok L pa' P x n lo ro" if "((x, n), lo, ro) \<in> links (L P)" for P x n lo ro
    using pa_inv_node [OF inv that] extends_data [OF inv e] info_ok_keeps [OF _ k] unfolding node_ok_def by blast
  moreover have "pa_data pa' 0 = Some (Bt \<lparr>bt_name = [], bt_prop = 0, bt_left = 0, bt_right = 0, bt_children = root (L [])\<rparr>)"
    using extends_data [OF inv e pa_inv_root [OF inv]] .
  ultimately show "pa_inv L pa'" using e by (intro pa_inv_same [OF inv]) (simp_all add: extends_def)
  show "grows L pa L pa'" using extends_data [OF inv e] k by (auto simp: grows_def)
qed

text \<open>The object a successful \<open>add\<close> makes: the value is stored in it, or elsewhere when it is long.\<close>

definition holds_value :: "prop_area \<Rightarrow> nat \<Rightarrow> string \<Rightarrow> string \<Rightarrow> bool" where
  "holds_value pa off name v \<longleftrightarrow>
     (\<exists>i. to_prop_info pa off = Some i \<and> pi_name i = name \<and> serial_ok i \<and>
       (if length v < PROP_VALUE_MAX
        then pi_value i = Value v \<and> pi_serial i = push_bit 24 (of_nat (length v)) \<and> \<not> is_long i
        else is_long i \<and> long_value pa off = Some v))"

lemma is_long_new: "valuelen < PROP_VALUE_MAX \<Longrightarrow> \<not> is_long (prop_info_new name namelen v valuelen)"
  using and_exp_eq_0_iff_not_bit [of "push_bit 24 (of_nat valuelen) :: u32" 16]
  by (simp add: is_long_def prop_info_new_def bit_push_bit_iff)

lemma is_long_new_long: "is_long (prop_info_new_long name namelen off)"
proof -
  have "bit (push_bit 24 (of_nat (length kLongLegacyError)) OR push_bit 16 1 :: u32) 16"
    by (simp add: bit_or_iff bit_push_bit_iff)
  then have "bit ((push_bit 24 (of_nat (length kLongLegacyError)) OR push_bit 16 1) AND push_bit 16 1 :: u32) 16"
    by (simp add: bit_and_iff bit_push_bit_iff)
  then show ?thesis by (auto simp: is_long_def prop_info_new_long_def)
qed

lemma serial_ok_new: "length v < PROP_VALUE_MAX \<Longrightarrow> serial_ok (prop_info_new name namelen v (length v))"
  by (simp add: serial_ok_def prop_info_new_def push_bit_eq_mult unat_word_ariths unat_of_nat_small)

lemma serial_ok_new_long: "serial_ok (prop_info_new_long name namelen off)"
proof -
  have "unat (push_bit 24 (of_nat (length kLongLegacyError)) OR push_bit 16 1 :: u32) = 50 * 2 ^ 24 + 2 ^ 16"
    by (simp add: kLongLegacyError_def push_bit_eq_mult)
  moreover have "length kLongLegacyError = 50" by (simp add: kLongLegacyError_def)
  ultimately show ?thesis using is_long_new_long [of name namelen off] by (simp add: serial_ok_def prop_info_new_long_def)
qed

lemma new_prop_info_extends:
  assumes inv: "pa_inv L pa" and new: "new_prop_info pa name (length name) v (length v) = (pa', r)" and v: "length v + 1 < 2 ^ 32"
  shows "extends pa pa'" "r = Some p \<Longrightarrow> p = bytes_used pa \<and> holds_value pa' p name v"
proof -
  have dom: "pa_data pa y \<noteq> None \<Longrightarrow> y < bytes_used pa" for y using pa_inv_used [OF inv] by auto
  have size: "bytes_used pa \<le> pa_data_size pa" by (rule pa_inv_size [OF inv])
  have "extends pa pa' \<and> (r = Some p \<longrightarrow> p = bytes_used pa \<and> holds_value pa' p name v)"
  proof (cases "allocate_obj pa (96 + length name + 1)")
    case None
    then show ?thesis using new dom size by (simp add: new_prop_info_def extends_def)
  next
    case (Some a)
    then obtain pa1 x where a: "allocate_obj pa (96 + length name + 1) = Some (pa1, x)" by (cases a) auto
    note d = allocate_objD [OF this]
    show ?thesis
    proof (cases "length v < 92")
      case True
      then have e: "pa' = put_obj x (Info (prop_info_new name (length name) v (length v))) pa1" "r = Some x"
        using new a by (simp_all add: new_prop_info_def)
      then have "extends pa pa'" using d dom by (force simp: extends_def put_obj_def)
      moreover have "holds_value pa' x name v"
        unfolding holds_value_def using True is_long_new [OF True] serial_ok_new [OF True] e
        by (simp add: to_prop_info_def put_obj_def) (simp add: prop_info_new_def)
      ultimately show ?thesis using e d(1) by auto
    next
      case long: False
      show ?thesis
      proof (cases "allocate_obj pa1 (length v + 1)")
        case None
        then have "pa' = pa1" "r = None" using new a long v by (simp_all add: new_prop_info_def)
        then show ?thesis using d dom by (force simp: extends_def)
      next
        case (Some b)
        then obtain pa2 y where b: "allocate_obj pa1 (length v + 1) = Some (pa2, y)" by (cases b) auto
        note d2 = allocate_objD [OF this]
        have e: "pa' = put_obj x (Info (prop_info_new_long name (length name) (y - x))) (put_obj y (Chars v) pa2)" "r = Some x"
          using new a b long v by (simp_all add: new_prop_info_def)
        have xy: "x < y" using d d2 by simp
        have "extends pa pa'" using e d d2 dom xy by (force simp: extends_def put_obj_def)
        moreover have "holds_value pa' x name v"
          unfolding holds_value_def using long is_long_new_long serial_ok_new_long e xy
          by (simp add: to_prop_info_def put_obj_def long_value_def) (simp add: prop_info_new_long_def)
        ultimately show ?thesis using e d(1) by auto
      qed
    qed
  qed
  then show "extends pa pa'" "r = Some p \<Longrightarrow> p = bytes_used pa \<and> holds_value pa' p name v" by blast+
qed

section \<open>Properties of paths\<close>

lemma node_at_unique:
  assumes "pa_inv L pa" "node_at L P x" "node_at L P y"
  shows "x = y"
proof (cases P rule: rev_cases)
  case Nil
  then show ?thesis using assms(2,3) by (simp add: node_at_def)
next
  case (snoc Q n)
  then have "lookup_level (L Q) n = Some x" "lookup_level (L Q) n = Some y"
    using assms(2,3) lookup_level_iff [OF pa_inv_ordered [OF assms(1)]] by simp_all
  then show ?thesis by simp
qed

lemma prop_at_unique: "pa_inv L pa \<Longrightarrow> prop_at L pa P p \<Longrightarrow> prop_at L pa P q \<Longrightarrow> p = q"
  unfolding prop_at_def using node_at_unique by fastforce

lemma prop_at_Nil: "pa_inv L pa \<Longrightarrow> \<not> prop_at L pa [] p"
  using pa_inv_root by (auto simp: prop_at_def node_at_def)

lemma prop_at_info:
  assumes inv: "pa_inv L pa" and "prop_at L pa P p"
  shows "info_ok pa P p"
proof -
  obtain x bt where x: "node_at L P x" "pa_data pa x = Some (Bt bt)" "bt_prop bt = p" "p \<noteq> 0"
    using assms(2) by (auto simp: prop_at_def)
  then obtain Q n where P: "P = Q @ [n]" using prop_at_Nil [OF inv] assms(2) by (cases P rule: rev_cases) auto
  then have "(x, n) \<in> set_tree (L Q)" using x(1) by simp
  from pa_inv_cell [OF inv this] obtain p' where "bt_prop bt = p'" "p' \<noteq> 0 \<Longrightarrow> info_ok pa (Q @ [n]) p'"
    using x(2) by (metis option.inject prop_bt.select_convs(2) prop_obj.inject(1))
  then show ?thesis using x(3,4) P by blast
qed

lemma prop_at_grows:
  assumes inv: "pa_inv L pa" and inv': "pa_inv L' pa'" and g: "grows L pa L' pa'"
  shows "prop_at L' pa' P p \<longleftrightarrow> prop_at L pa P p"
proof (cases P rule: rev_cases)
  case Nil
  then show ?thesis using prop_at_Nil inv inv' by blast
next
  case (snoc Q n)
  show ?thesis
  proof
    assume "prop_at L' pa' P p"
    then obtain x bt' where x: "(x, n) \<in> set_tree (L' Q)" "pa_data pa' x = Some (Bt bt')" "bt_prop bt' = p" "p \<noteq> 0"
      by (auto simp: prop_at_def snoc)
    then have "(x, n) \<in> set_tree (L Q)" using growsD(3) [OF g x(1), of bt'] by auto
    moreover from pa_inv_cell [OF inv this] obtain bt where "pa_data pa x = Some (Bt bt)" by blast
    moreover from growsD(2) [OF g this] x have "bt_prop bt = p" by auto
    ultimately show "prop_at L pa P p" using x(4) by (auto simp: prop_at_def snoc)
  next
    assume "prop_at L pa P p"
    then obtain x bt where x: "(x, n) \<in> set_tree (L Q)" "pa_data pa x = Some (Bt bt)" "bt_prop bt = p" "p \<noteq> 0"
      by (auto simp: prop_at_def snoc)
    then show "prop_at L' pa' P p" using growsD(1,2) [OF g] unfolding prop_at_def snoc node_at_snoc by blast
  qed
qed

lemma node_ok_mono:
  assumes "node_ok L pa P y m lo ro" "pa_data pa' y = pa_data pa y" "keeps pa pa'"
  shows "node_ok L pa' P y m lo ro"
  using assms(1,2) info_ok_keeps [OF _ assms(3)] unfolding node_ok_def by auto

lemma set_prop:
  assumes inv: "pa_inv L pa" and x: "(x, n) \<in> set_tree (L Q)" and p: "info_ok pa (Q @ [n]) p" "p \<noteq> 0"
  shows "pa_inv L (set_bt pa x (bt_prop_update (\<lambda>_. p)))" (is "pa_inv L ?pa")
    and "prop_at L (set_bt pa x (bt_prop_update (\<lambda>_. p))) R q \<longleftrightarrow> (if R = Q @ [n] then q = p else prop_at L pa R q)"
    and "keeps pa (set_bt pa x (bt_prop_update (\<lambda>_. p)))"
proof -
  obtain lo' ro' p0 where c: "pa_data pa x = Some (Bt \<lparr>bt_name = n, bt_prop = p0, bt_left = lo', bt_right = ro', bt_children = root (L (Q @ [n]))\<rparr>)"
    by (rule pa_inv_cell [OF inv x])
  note d = set_bt_data(1) [OF c, of "bt_prop_update (\<lambda>_. p)"]
  have x0: "x \<noteq> 0" using pa_inv_token [OF inv x] by simp
  show keep: "keeps pa ?pa" using c unfolding d keeps_def by auto
  have "node_ok L ?pa P y m lo ro" if l: "((y, m), lo, ro) \<in> links (L P)" for P y m lo ro
  proof (cases "y = x")
    case True
    then have "P = Q" "m = n" using pa_inv_unique [OF inv _ x] pa_inv_name [OF inv _ x] links_set [OF l] by blast+
    moreover have "info_ok ?pa (Q @ [n]) p" using p(1) keep by (rule info_ok_keeps)
    moreover have "pa_data ?pa x = Some (Bt \<lparr>bt_name = n, bt_prop = p, bt_left = lo', bt_right = ro', bt_children = root (L (Q @ [n]))\<rparr>)"
      unfolding d by simp
    ultimately show ?thesis using pa_inv_node [OF inv l] c True by (auto simp: node_ok_def)
  next
    case False
    then have "pa_data ?pa y = pa_data pa y" unfolding d by simp
    then show ?thesis using keep by (rule node_ok_mono [OF pa_inv_node [OF inv l]])
  qed
  moreover have "pa_data ?pa 0 = Some (Bt \<lparr>bt_name = [], bt_prop = 0, bt_left = 0, bt_right = 0, bt_children = root (L [])\<rparr>)"
    unfolding d using x0 pa_inv_root [OF inv] by simp
  moreover have "y < bytes_used ?pa" if "pa_data ?pa y \<noteq> None" for y
    using that pa_inv_used [OF inv, of y] pa_inv_used [OF inv c] unfolding d set_bt_data(2) by (auto split: if_splits)
  ultimately show "pa_inv L ?pa" using pa_inv_size [OF inv] by (intro pa_inv_same [OF inv]) (simp_all add: set_bt_data(2,3))
  show "prop_at L ?pa R q \<longleftrightarrow> (if R = Q @ [n] then q = p else prop_at L pa R q)"
  proof (cases "R = Q @ [n]")
    case True
    have u: "node_at L R y \<longleftrightarrow> y = x" for y using x node_at_unique [OF inv, of R x y] True by auto
    show ?thesis using True p(2) unfolding prop_at_def d u by auto
  next
    case False
    have "y \<noteq> x" if "node_at L R y" for y
      using that False x0 pa_inv_unique [OF inv _ x] pa_inv_name [OF inv _ x] by (auto simp: node_at_def)
    then have "node_at L R y \<and> pa_data ?pa y = z \<longleftrightarrow> node_at L R y \<and> pa_data pa y = z" for y z unfolding d by auto
    then show ?thesis using False unfolding prop_at_def by (metis (no_types))
  qed
qed

lemma tokens_inject: "tokens s = tokens t \<Longrightarrow> length s < 2 ^ 32 \<Longrightarrow> length t < 2 ^ 32 \<Longrightarrow> s = t"
proof (induction s arbitrary: t rule: measure_induct_rule [where f = length])
  case (less s)
  have id: "u = first_token u @ from_dot u" if "length u < 2 ^ 32" for u
    using that by (simp only: first_token_short from_dot_def takeWhile_dropWhile_id)
  have dot: "from_dot u = CHR ''.'' # tl (from_dot u)" if "from_dot u \<noteq> []" for u
    using that hd_dropWhile [of "\<lambda>c. c \<noteq> CHR ''.''" u] unfolding from_dot_def by (cases "dropWhile (\<lambda>c. c \<noteq> CHR ''.'') u") auto
  have f: "first_token s = first_token t" using less.prems(1) tokens_unfold [of s] tokens_unfold [of t] by simp
  show ?case
  proof (cases "from_dot s = []")
    case True
    then have "from_dot t = []" using less.prems(1) tokens_unfold [of s] tokens_unfold [of t] by (auto split: if_splits)
    then show ?thesis using f True id [OF less.prems(2)] id [OF less.prems(3)] by simp
  next
    case False
    then have t: "from_dot t \<noteq> []" "tokens (tl (from_dot s)) = tokens (tl (from_dot t))"
      using less.prems(1) tokens_unfold [of s] tokens_unfold [of t] by (auto split: if_splits)
    have "length (tl (from_dot s)) < 2 ^ 32" "length (tl (from_dot t)) < 2 ^ 32"
      using from_dot_less [OF False] from_dot_less [OF t(1)] less.prems(2,3) by linarith+
    then have "tl (from_dot s) = tl (from_dot t)" using less.IH [OF from_dot_less [OF False] t(2)] by blast
    then show ?thesis using f dot [OF False] dot [OF t(1)] id [OF less.prems(2)] id [OF less.prems(3)] by metis
  qed
qed

section \<open>The area as a map\<close>

definition pa_wf :: "prop_area \<Rightarrow> bool" where
  "pa_wf pa \<longleftrightarrow> (\<exists>L. pa_inv L pa)"

text \<open>The value of the property with a name.\<close>

definition pa_lookup :: "prop_area \<Rightarrow> string \<Rightarrow> string option" where
  "pa_lookup pa name =
     (if length name < 2 ^ 32 then case pa_find pa name of Some (Some off) \<Rightarrow> info_value pa off | _ \<Rightarrow> None else None)"

lemma pa_wfI: "pa_inv L pa \<Longrightarrow> pa_wf pa"
  by (auto simp: pa_wf_def)

lemma prop_area_new_inv: "pa_inv (\<lambda>_. Leaf) prop_area_new"
  by (simp add: pa_inv_def prop_area_new_def prop_bt_new_def BIONIC_ALIGN_def)

lemma root_node_simp: "root_node pa = Some 0"
  by (simp add: root_node_def to_prop_obj_def)

lemma node_at_Nil [simp]: "node_at L [] 0"
  by (simp add: node_at_def)

lemma prop_at_ptr:
  assumes inv: "pa_inv L pa" and p: "prop_at L pa P p"
  shows "to_prop_obj pa p = Some p"
proof -
  obtain i where "pa_data pa p = Some (Info i)" using prop_at_info [OF assms] by (auto simp: info_ok_def)
  from pa_inv_used [OF inv this] pa_inv_size [OF inv] show ?thesis by (simp add: to_prop_obj_def)
qed

text \<open>The last part of \<open>find_property\<close>, at the node of the last token.\<close>

lemma find_property_at:
  assumes node: "find_property_node pa 0 name alloc = Some (pa1, r)" "found alloc L pa (tokens name) L1 pa1 r"
  shows "r = None \<Longrightarrow> find_property pa (root_node pa) name namelen v valuelen alloc = Some (pa1, None)"
    and "prop_at L1 pa1 (tokens name) q \<Longrightarrow> r \<noteq> None \<Longrightarrow>
      find_property pa (root_node pa) name namelen v valuelen alloc = Some (pa1, Some q)"
    and "r = Some x \<Longrightarrow> (\<And>q. \<not> prop_at L1 pa1 (tokens name) q) \<Longrightarrow>
      find_property pa (root_node pa) name namelen v valuelen alloc =
      (if \<not> alloc then Some (pa1, None)
       else case new_prop_info pa1 name namelen v valuelen of
           (pa2, None) \<Rightarrow> Some (pa2, None)
         | (pa2, Some y) \<Rightarrow> Some (set_bt pa2 x (bt_prop_update (\<lambda>_. y)), Some y))"
proof -
  show "r = None \<Longrightarrow> find_property pa (root_node pa) name namelen v valuelen alloc = Some (pa1, None)"
    using node(1) by (simp add: find_property_def root_node_simp)
  have inv1: "pa_inv L1 pa1" using node(2) by (simp add: found_def)
  have cell: "\<exists>bt. to_prop_bt pa1 x = Some bt \<and> (\<forall>q. prop_at L1 pa1 (tokens name) q \<longleftrightarrow> q = bt_prop bt \<and> q \<noteq> 0)" if "r = Some x" for x
  proof -
    have at: "node_at L1 (tokens name) x" using node(2) that by (simp add: found_def)
    obtain bt where bt: "pa_data pa1 x = Some (Bt bt)" using node_at_cell [OF inv1 at] by blast
    have u: "node_at L1 (tokens name) y \<longleftrightarrow> y = x" for y using at node_at_unique [OF inv1 at, of y] by blast
    show ?thesis unfolding prop_at_def u using bt by (simp add: to_prop_bt_def) blast
  qed
  show "find_property pa (root_node pa) name namelen v valuelen alloc = Some (pa1, Some q)"
    if q: "prop_at L1 pa1 (tokens name) q" and "r \<noteq> None"
  proof -
    obtain x where x: "r = Some x" using \<open>r \<noteq> None\<close> by auto
    with cell q obtain bt where "to_prop_bt pa1 x = Some bt" "q = bt_prop bt" "q \<noteq> 0" by blast
    then show ?thesis using node(1) x prop_at_ptr [OF inv1 q] by (simp add: find_property_def root_node_simp)
  qed
  show "find_property pa (root_node pa) name namelen v valuelen alloc =
      (if \<not> alloc then Some (pa1, None)
       else case new_prop_info pa1 name namelen v valuelen of
           (pa2, None) \<Rightarrow> Some (pa2, None)
         | (pa2, Some y) \<Rightarrow> Some (set_bt pa2 x (bt_prop_update (\<lambda>_. y)), Some y))"
    if x: "r = Some x" and "\<And>q. \<not> prop_at L1 pa1 (tokens name) q"
  proof -
    from cell [OF x] that(2) obtain bt where "to_prop_bt pa1 x = Some bt" "bt_prop bt = 0" by blast
    then show ?thesis using node(1) x by (simp add: find_property_def root_node_simp)
  qed
qed

lemma pa_find_inv:
  assumes inv: "pa_inv L pa"
  shows "prop_at L pa (tokens name) p \<Longrightarrow> pa_find pa name = Some (Some p)"
    and "(\<And>p. \<not> prop_at L pa (tokens name) p) \<Longrightarrow> pa_find pa name = Some None"
proof -
  obtain pa1 x L1 where n1: "find_property_node pa 0 name False = Some (pa1, x)" "found False L pa (tokens name) L1 pa1 x"
    using find_node [OF inv node_at_Nil, of name False] by auto
  then have n: "find_property_node pa 0 name False = Some (pa, x)" "found False L pa (tokens name) L pa x"
    by (auto simp: found_def)
  have x: "x \<noteq> None" if "prop_at L pa (tokens name) p" for p using n(2) that by (auto simp: found_def prop_at_def)
  show "prop_at L pa (tokens name) p \<Longrightarrow> pa_find pa name = Some (Some p)"
    using find_property_at(2) [OF n _ x] by (simp add: pa_find_def)
  show "(\<And>p. \<not> prop_at L pa (tokens name) p) \<Longrightarrow> pa_find pa name = Some None"
    using find_property_at(1,3) [OF n] by (cases x) (simp_all add: pa_find_def)
qed

lemma pa_lookup_inv:
  assumes inv: "pa_inv L pa"
  shows "prop_at L pa (tokens name) p \<Longrightarrow> length name < 2 ^ 32 \<Longrightarrow> pa_lookup pa name = info_value pa p"
    and "(\<And>p. \<not> prop_at L pa (tokens name) p) \<Longrightarrow> pa_lookup pa name = None"
  by (simp_all add: pa_lookup_def pa_find_inv [OF inv])

lemma pa_lookup_long: "\<not> length name < 2 ^ 32 \<Longrightarrow> pa_lookup pa name = None"
  by (simp only: pa_lookup_def if_False)

lemma pa_lookup_Some_iff:
  assumes inv: "pa_inv L pa" and short: "length name < 2 ^ 32"
  shows "pa_lookup pa name \<noteq> None \<longleftrightarrow> (\<exists>p. prop_at L pa (tokens name) p)"
proof (cases "\<exists>p. prop_at L pa (tokens name) p")
  case True
  then obtain p where p: "prop_at L pa (tokens name) p" by blast
  from prop_at_info [OF inv p] pa_lookup_inv(1) [OF inv p short] show ?thesis using True by (auto simp: info_ok_def)
next
  case False
  then show ?thesis using pa_lookup_inv(2) [OF inv] by auto
qed

text \<open>When the properties of the paths stay, so do the values.\<close>

lemma pa_lookup_keeps:
  assumes inv: "pa_inv L pa" and inv': "pa_inv L' pa'" and k: "keeps pa pa'"
    and same: "\<And>p. prop_at L' pa' (tokens name) p \<longleftrightarrow> prop_at L pa (tokens name) p"
  shows "pa_lookup pa' name = pa_lookup pa name"
proof (cases "(\<exists>p. prop_at L pa (tokens name) p) \<and> length name < 2 ^ 32")
  case True
  then obtain p where p: "prop_at L pa (tokens name) p" and short: "length name < 2 ^ 32" by blast
  from prop_at_info [OF inv p] obtain v where "info_value pa p = Some v" by (auto simp: info_ok_def)
  moreover from this have "info_value pa' p = Some v" by (rule info_value_keeps [OF k])
  ultimately show ?thesis using pa_lookup_inv(1) [OF inv p short] pa_lookup_inv(1) [OF inv' _ short, of p] p same by simp
next
  case False
  then show ?thesis using pa_lookup_inv(2) [OF inv, of name] pa_lookup_inv(2) [OF inv', of name] pa_lookup_long [of name] same by metis
qed

lemma pa_lookup_grows:
  assumes "pa_inv L pa" "pa_inv L' pa'" "grows L pa L' pa'"
  shows "pa_lookup pa' = pa_lookup pa"
  using pa_lookup_keeps [OF assms(1,2) growsD(4) [OF assms(3)]] prop_at_grows [OF assms] by blast

lemma holds_value_info: "holds_value pa p name v \<Longrightarrow> length name < 2 ^ 32 \<Longrightarrow> info_ok pa (tokens name) p \<and> info_value pa p = Some v"
  unfolding holds_value_def info_ok_def info_value_def
  by (auto simp: to_prop_info_def long_value_def split: option.splits prop_obj.splits prop_value.splits if_splits)

text \<open>The outcomes of \<open>add\<close>: the property exists, it cannot be added, or it is new.\<close>

lemma pa_add_cases:
  assumes inv: "pa_inv L pa" and v: "length v + 1 < 2 ^ 32" and short: "length name < 2 ^ 32"
  obtains (exists) pa' L' where "pa_add True pa name (length name) v (length v) = Some (pa', True)" "pa_inv L' pa'" "grows L pa L' pa'"
      "pa_lookup pa name \<noteq> None"
  | (refused) pa' L' where "pa_add True pa name (length name) v (length v) = Some (pa', False)" "pa_inv L' pa'" "grows L pa L' pa'"
      "pa_lookup pa name = None"
  | (added) pa' L' where "pa_add True pa name (length name) v (length v) = Some (pa', True)" "pa_inv L' pa'"
      "pa_lookup pa name = None" "pa_lookup pa' = (pa_lookup pa)(name \<mapsto> v)"
proof -
  obtain pa1 r L1 where n: "find_property_node pa 0 name True = Some (pa1, r)" "found True L pa (tokens name) L1 pa1 r"
    using find_node [OF inv node_at_Nil, of name True] by auto
  have inv1: "pa_inv L1 pa1" and g: "grows L pa L1 pa1" using n(2) by (simp_all add: found_def)
  note at = find_property_at [OF n, where namelen = "length name" and v = v and valuelen = "length v"]
  show ?thesis
  proof (cases "\<exists>q. prop_at L pa (tokens name) q")
    case True
    then obtain q where q: "prop_at L1 pa1 (tokens name) q" using prop_at_grows [OF inv inv1 g] by blast
    have "r \<noteq> None" using True n(2) by (auto simp: found_def prop_at_def)
    with at(2) [OF q] have "pa_add True pa name (length name) v (length v) = Some (pa1, True)" by (simp add: pa_add_def)
    then show ?thesis using inv1 g True pa_lookup_Some_iff [OF inv short] exists by blast
  next
    case False
    then have none: "pa_lookup pa name = None" "\<not> prop_at L1 pa1 (tokens name) q" for q
      using pa_lookup_Some_iff [OF inv short] prop_at_grows [OF inv inv1 g] by blast+
    show ?thesis
    proof (cases r)
      case None
      with at(1) have "pa_add True pa name (length name) v (length v) = Some (pa1, False)" by (simp add: pa_add_def)
      then show ?thesis using inv1 g none(1) by (rule refused)
    next
      case (Some x)
      obtain pa2 y where new: "new_prop_info pa1 name (length name) v (length v) = (pa2, y)" by (cases "new_prop_info pa1 name (length name) v (length v)")
      note e = new_prop_info_extends [OF inv1 new v]
      note inv2 = extends_inv(1) [OF inv1 e(1)]
      have g2: "grows L pa L1 pa2"
        using grows_trans [OF g extends_inv(2) [OF inv1 e(1)]] pa_inv_cell [OF inv1] by (metis prod.collapse)
      note at = at(3) [OF Some none(2)]
      show ?thesis
      proof (cases y)
        case None
        with at new have "pa_add True pa name (length name) v (length v) = Some (pa2, False)" by (simp add: pa_add_def)
        then show ?thesis using inv2 g2 none(1) by (rule refused)
      next
        case y: (Some p)
        let ?pa = "set_bt pa2 x (bt_prop_update (\<lambda>_. p))"
        have add: "pa_add True pa name (length name) v (length v) = Some (?pa, True)" using at new y by (simp add: pa_add_def)
        obtain Q m where P: "tokens name = Q @ [m]" by (metis append_butlast_last_id tokens_not_Nil(1))
        have x: "(x, m) \<in> set_tree (L1 Q)" using n(2) Some P by (simp add: found_def)
        have "holds_value pa2 p name v" "p \<noteq> 0" using e(2) [OF y] pa_inv_used [OF inv1 pa_inv_root [OF inv1]] by auto
        then have iv: "info_ok pa2 (Q @ [m]) p" "info_value pa2 p = Some v" using holds_value_info [OF _ short] P by metis+
        note sp = set_prop [OF inv2 x iv(1) \<open>p \<noteq> 0\<close>]
        have "pa_lookup ?pa name = Some v"
          using pa_lookup_inv(1) [OF sp(1) _ short] sp(2) P info_value_keeps [OF sp(3) iv(2)] by simp
        moreover have "pa_lookup ?pa other = pa_lookup pa other" if "other \<noteq> name" for other
        proof (cases "length other < 2 ^ 32")
          case True
          then have "tokens other \<noteq> Q @ [m]" using tokens_inject [OF _ _ short, of other] that P by auto
          then have "pa_lookup ?pa other = pa_lookup pa2 other" using sp(2) by (intro pa_lookup_keeps [OF inv2 sp(1,3)]) simp
          then show ?thesis using pa_lookup_grows [OF inv inv2 g2] by simp
        next
          case False
          then show ?thesis using pa_lookup_long [of other] by metis
        qed
        ultimately have "pa_lookup ?pa = (pa_lookup pa)(name \<mapsto> v)" by auto
        then show ?thesis using add sp(1) none(1) added by blast
      qed
    qed
  qed
qed

text \<open>Adding, seen through the map.\<close>

lemma prop_area_add_ok:
  assumes "pa_wf pa" "length v + 1 < 2 ^ 32" "length name < 2 ^ 32"
  shows "\<exists>pa' ok. pa_add True pa name (length name) v (length v) = Some (pa', ok) \<and> pa_wf pa' \<and>
    pa_lookup pa' = (if ok \<and> pa_lookup pa name = None then (pa_lookup pa)(name \<mapsto> v) else pa_lookup pa) \<and>
    (pa_lookup pa name \<noteq> None \<longrightarrow> ok)"
proof -
  obtain L where inv: "pa_inv L pa" using assms(1) by (auto simp: pa_wf_def)
  from inv assms(2,3) show ?thesis
  proof (cases rule: pa_add_cases)
    case (exists pa' L')
    have "pa_wf pa'" using exists(2) by (rule pa_wfI)
    then show ?thesis using exists(1,4) pa_lookup_grows [OF inv exists(2,3)]
      by (intro exI [of _ pa'] exI [of _ True]) (simp del: not_None_eq)
  next
    case (refused pa' L')
    have "pa_wf pa'" using refused(2) by (rule pa_wfI)
    then show ?thesis using refused(1,4) pa_lookup_grows [OF inv refused(2,3)] by (intro exI [of _ pa'] exI [of _ False]) simp
  next
    case (added pa' L')
    have "pa_wf pa'" using added(2) by (rule pa_wfI)
    then show ?thesis using added(1,3,4) by (intro exI [of _ pa'] exI [of _ True]) simp
  qed
qed

text \<open>C7. Adding properties. On every well-formed area, which a fresh one is, \<open>add\<close> returns and keeps the
  area well-formed. Seen through \<open>find\<close>, the area is a map from names to values: a successful \<open>add\<close>
  of a new name adds exactly that entry, long values included, an existing property keeps its
  value, and a refused \<open>add\<close> changes no entry. Names are shorter than \<open>2 ^ 32\<close>, since the length of a part
  of a name is kept in a \<open>uint32_t\<close>.\<close>

theorem prop_area_add_refines:
  assumes "pa_wf pa" "length v + 1 < 2 ^ 32" "length name < 2 ^ 32"
  shows "\<exists>pa' ok. pa_add True pa name (length name) v (length v) = Some (pa', ok) \<and> pa_wf pa' \<and>
    pa_lookup pa' = (if ok \<and> pa_lookup pa name = None then (pa_lookup pa)(name \<mapsto> v) else pa_lookup pa) \<and>
    (pa_lookup pa name \<noteq> None \<longrightarrow> ok)"
  using assms by (rule prop_area_add_ok)

lemma prop_area_new_wf: "pa_wf prop_area_new"
  using prop_area_new_inv by (auto simp: pa_wf_def)

theorem prop_area_add_refines_witness:
  "\<exists>pa' ok. pa_add True prop_area_new ''ro.secure'' (length ''ro.secure'') ''1'' (length ''1'') = Some (pa', ok) \<and> pa_wf pa'"
  using prop_area_add_refines [OF prop_area_new_wf, of "''1''" "''ro.secure''"] by auto

section \<open>What is written\<close>

text \<open>A run that changes anything of an area takes memory from it; none changes the size of the areas.\<close>

definition takes_memory :: "prop_area \<Rightarrow> prop_area \<Rightarrow> bool" where
  "takes_memory pa pa' \<longleftrightarrow> pa_data_size pa' = pa_data_size pa \<and> (pa' = pa \<or> bytes_used pa < bytes_used pa')"

lemma takes_memory_refl [simp]: "takes_memory pa pa"
  by (simp add: takes_memory_def)

lemma takes_memory_trans: "takes_memory pa pa1 \<Longrightarrow> takes_memory pa1 pa2 \<Longrightarrow> takes_memory pa pa2"
  by (auto simp: takes_memory_def)

lemma allocate_obj_takes: "allocate_obj pa sz = Some (pa', x) \<Longrightarrow> pa_data_size pa' = pa_data_size pa \<and> bytes_used pa + sz \<le> bytes_used pa'"
  using BIONIC_ALIGN_ge [of sz] by (auto simp: allocate_obj_def Let_def split: if_splits)

lemma new_prop_bt_takes: "new_prop_bt pa name k = Some (pa', x) \<Longrightarrow> takes_memory pa (set_bt pa' y f)"
  by (auto simp: new_prop_bt_def takes_memory_def set_bt_data put_obj_def dest!: allocate_obj_takes split: option.splits)

lemma new_prop_info_takes:
  assumes "new_prop_info pa name k v l = (pa', r)"
  shows "takes_memory pa pa'" "r = Some x \<Longrightarrow> takes_memory pa (set_bt pa' y f)"
proof -
  have "pa_data_size pa' = pa_data_size pa \<and> (pa' = pa \<and> r = None \<or> bytes_used pa < bytes_used pa')"
    using assms by (auto simp: new_prop_info_def put_obj_def dest!: allocate_obj_takes split: option.splits if_splits)
  then show "takes_memory pa pa'" "r = Some x \<Longrightarrow> takes_memory pa (set_bt pa' y f)"
    by (auto simp: takes_memory_def set_bt_data)
qed

lemma find_prop_bt_takes: "find_prop_bt pa bt name k alloc = Some r \<Longrightarrow> takes_memory pa (fst r)"
proof (rule find_prop_bt.raw_induct [where P = "\<lambda>pa bt name k alloc r. takes_memory pa (fst r)"])
  fix find pa bt name k alloc and r :: "prop_area \<times> nat option"
  assume IH: "\<And>pa bt name k alloc r. find pa bt name k alloc = Some r \<Longrightarrow> takes_memory pa (fst r)"
    and body: "(case bt of None \<Rightarrow> Some (pa, None)
      | Some off \<Rightarrow> do {
          current \<leftarrow> to_prop_bt pa off;
          let ret = cmp_prop_name name k (bt_name current) (length (bt_name current));
          if ret = 0 then Some (pa, Some off)
          else if ret < 0 then
            if bt_left current \<noteq> 0 then find pa (to_prop_obj pa (bt_left current)) name k alloc
            else if \<not> alloc then Some (pa, None)
            else case new_prop_bt pa name k of None \<Rightarrow> Some (pa, None)
              | Some (pa, new_offset) \<Rightarrow> Some (set_bt pa off (bt_left_update (\<lambda>_. new_offset)), Some new_offset)
          else
            if bt_right current \<noteq> 0 then find pa (to_prop_obj pa (bt_right current)) name k alloc
            else if \<not> alloc then Some (pa, None)
            else case new_prop_bt pa name k of None \<Rightarrow> Some (pa, None)
              | Some (pa, new_offset) \<Rightarrow> Some (set_bt pa off (bt_right_update (\<lambda>_. new_offset)), Some new_offset) }) = Some r"
  show "takes_memory pa (fst r)"
    using body by (auto simp: Let_def bind_eq_Some_conv dest: IH new_prop_bt_takes split: option.splits if_splits)
qed

lemma find_property_root_takes: "find_property_root pa off name k alloc = Some (pa', r) \<Longrightarrow> takes_memory pa pa'"
  by (auto simp: find_property_root_def bind_eq_Some_conv dest: new_prop_bt_takes split: if_splits option.splits)

lemma find_property_node_takes: "find_property_node pa off name alloc = Some (pa', r) \<Longrightarrow> takes_memory pa pa'"
proof (induction name arbitrary: pa off rule: measure_induct_rule [where f = length])
  case (less name)
  show ?case
  proof (cases "first_token name = []")
    case True
    then show ?thesis using less.prems unfolding find_node_unfold [of pa off] by simp
  next
    case False
    then obtain pa1 rt where a: "find_property_root pa off name (length (first_token name)) alloc = Some (pa1, rt)"
      using less.prems unfolding find_node_unfold [of pa off] by (auto simp: bind_eq_Some_conv)
    obtain pa2 q where b: "rt = None \<Longrightarrow> pa2 = pa1 \<and> q = None"
      "rt \<noteq> None \<Longrightarrow> find_prop_bt pa1 rt name (length (first_token name)) alloc = Some (pa2, q)"
      using less.prems False a unfolding find_node_unfold [of pa off] by (cases rt) (auto simp: bind_eq_Some_conv)
    have "takes_memory pa1 pa2" using b find_prop_bt_takes [of pa1 rt] by (cases rt) fastforce+
    then have t: "takes_memory pa pa2" by (rule takes_memory_trans [OF find_property_root_takes [OF a]])
    note step = find_node_step [OF False a b]
    show ?thesis
    proof (cases "q = None \<or> from_dot name = []")
      case True
      then show ?thesis using less.prems step t by (auto split: option.splits)
    next
      case nd: False
      then obtain x where "find_property_node pa2 x (tl (from_dot name)) alloc = Some (pa', r)" using less.prems step by auto
      from less.IH [OF from_dot_less this] nd have "takes_memory pa2 pa'" by simp
      then show ?thesis by (rule takes_memory_trans [OF t])
    qed
  qed
qed

text \<open>So \<open>add\<close> on an area that is mapped for reading only changes nothing when it does not fault.\<close>

lemma pa_add_takes:
  assumes "pa_add rw pa name namelen v valuelen = Some (pa', ok)"
  shows "pa_data_size pa' = pa_data_size pa" "\<not> rw \<Longrightarrow> pa' = pa"
proof -
  obtain r where f: "find_property pa (root_node pa) name namelen v valuelen True = Some (pa', r)" "\<not> rw \<Longrightarrow> bytes_used pa' = bytes_used pa"
    using assms by (auto simp: pa_add_def bind_eq_Some_conv split: if_splits)
  obtain pa1 q where n: "find_property_node pa 0 name True = Some (pa1, q)"
    using f(1) by (auto simp: find_property_def root_node_simp bind_eq_Some_conv)
  have "takes_memory pa1 pa'" using f(1) n
    by (auto simp: find_property_def root_node_simp bind_eq_Some_conv dest: new_prop_info_takes split: option.splits if_splits prod.splits)
  then have "takes_memory pa pa'" by (rule takes_memory_trans [OF find_property_node_takes [OF n]])
  then show "pa_data_size pa' = pa_data_size pa" "\<not> rw \<Longrightarrow> pa' = pa" using f(2) by (auto simp: takes_memory_def)
qed

section \<open>Visiting every property\<close>

lemma prop_at_path_unique:
  assumes "pa_inv L pa" "prop_at L pa P p" "prop_at L pa Q p"
  shows "P = Q"
  using prop_at_info [OF assms(1,2)] prop_at_info [OF assms(1,3)] by (auto simp: info_ok_def)

text \<open>The objects of the properties whose path goes through a level.\<close>

definition level_props :: "trie \<Rightarrow> prop_area \<Rightarrow> string list \<Rightarrow> level \<Rightarrow> nat set" where
  "level_props L pa P t = {p. \<exists>Q. (\<exists>m \<in> names t. prefix (P @ [m]) Q) \<and> prop_at L pa Q p}"

lemma level_props_Leaf [simp]: "level_props L pa P Leaf = {}"
  by (simp add: level_props_def)

lemma level_props_Node:
  assumes inv: "pa_inv L pa"
  shows "level_props L pa P (Node l (x, n) r) =
    level_props L pa P l \<union> {p. prop_at L pa (P @ [n]) p} \<union> level_props L pa (P @ [n]) (L (P @ [n])) \<union> level_props L pa P r"
proof -
  have "(\<exists>Q. prefix (P @ [n]) Q \<and> prop_at L pa Q p) \<longleftrightarrow>
      prop_at L pa (P @ [n]) p \<or> (\<exists>Q. (\<exists>m \<in> names (L (P @ [n])). prefix (P @ [n] @ [m]) Q) \<and> prop_at L pa Q p)" for p
  proof
    assume "\<exists>Q. prefix (P @ [n]) Q \<and> prop_at L pa Q p"
    then obtain R where R: "prop_at L pa (P @ [n] @ R) p" by (auto simp: prefix_def)
    show "prop_at L pa (P @ [n]) p \<or> (\<exists>Q. (\<exists>m \<in> names (L (P @ [n])). prefix (P @ [n] @ [m]) Q) \<and> prop_at L pa Q p)"
    proof (cases R)
      case (Cons m R')
      then have "m \<in> names (L (P @ [n]))" using R node_at_path [OF inv, of "P @ [n]" m R'] by (auto simp: prop_at_def)
      moreover have "prefix (P @ [n] @ [m]) (P @ [n] @ R)" using Cons by (simp add: prefix_def)
      ultimately show ?thesis using R by blast
    qed (use R in simp)
  next
    assume "prop_at L pa (P @ [n]) p \<or> (\<exists>Q. (\<exists>m \<in> names (L (P @ [n])). prefix (P @ [n] @ [m]) Q) \<and> prop_at L pa Q p)"
    then show "\<exists>Q. prefix (P @ [n]) Q \<and> prop_at L pa Q p" by (auto simp: prefix_def)
  qed
  then have e: "{p. \<exists>Q. prefix (P @ [n]) Q \<and> prop_at L pa Q p} =
      {p. prop_at L pa (P @ [n]) p} \<union> level_props L pa (P @ [n]) (L (P @ [n]))"
    unfolding level_props_def by (simp add: Collect_disj_eq)
  have "level_props L pa P (Node l (x, n) r) =
      level_props L pa P l \<union> {p. \<exists>Q. prefix (P @ [n]) Q \<and> prop_at L pa Q p} \<union> level_props L pa P r"
    unfolding level_props_def by auto
  then show ?thesis unfolding e by blast
qed

lemma level_props_disjoint:
  assumes "pa_inv L pa" "p \<in> level_props L pa P t" "p \<in> level_props L pa P u"
  shows "names t \<inter> names u \<noteq> {}"
proof -
  obtain Q m k where "m \<in> names t" "prefix (P @ [m]) Q" "k \<in> names u" "prefix (P @ [k]) Q"
    using assms prop_at_path_unique [OF assms(1)] unfolding level_props_def by blast
  moreover from this have "m = k" by (auto simp: prefix_def)
  ultimately show ?thesis by blast
qed

text \<open>A call of \<open>foreach_property\<close>, if there is something to visit, and the list of what it visits.\<close>

definition visits :: "prop_area \<Rightarrow> (nat \<Rightarrow> prop_info \<Rightarrow> 's \<Rightarrow> 's) \<Rightarrow> nat \<Rightarrow> (nat \<times> prop_info) list \<Rightarrow> bool" where
  "visits pa propfn off ps \<longleftrightarrow>
     (\<forall>s. (if off \<noteq> 0 then foreach_property pa (to_prop_obj pa off) propfn s else Some (s, True)) =
        Some (fold (\<lambda>(p, i). propfn p i) ps s, True))"

definition lists_props :: "prop_area \<Rightarrow> nat set \<Rightarrow> (nat \<times> prop_info) list \<Rightarrow> bool" where
  "lists_props pa S ps \<longleftrightarrow> distinct (map fst ps) \<and> set ps = {(p, i). p \<in> S \<and> pa_data pa p = Some (Info i)}"

lemma lists_props_append:
  assumes "lists_props pa S ps" "lists_props pa T qs" "S \<inter> T = {}"
  shows "lists_props pa (S \<union> T) (ps @ qs)"
proof -
  have "fst ` set ps \<subseteq> S" "fst ` set qs \<subseteq> T" using assms(1,2) by (auto simp: lists_props_def)
  then show ?thesis using assms by (auto simp: lists_props_def)
qed

lemma foreach_node:
  assumes c: "to_prop_bt pa x = Some \<lparr>bt_name = n, bt_prop = p, bt_left = lo, bt_right = ro, bt_children = ch\<rparr>"
    and v: "visits pa propfn lo psl" "visits pa propfn ch psc" "visits pa propfn ro psr"
    and p: "p = 0 \<and> psp = [] \<or> p \<noteq> 0 \<and> to_prop_obj pa p = Some p \<and> to_prop_info pa p = Some i \<and> psp = [(p, i)]"
  shows "foreach_property pa (Some x) propfn s = Some (fold (\<lambda>(p, i). propfn p i) (psl @ psp @ psc @ psr) s, True)"
proof -
  have call: "0 < off \<Longrightarrow> foreach_property pa (to_prop_obj pa off) propfn s = Some (fold (\<lambda>(p, i). propfn p i) ps s, True)"
    "off = 0 \<Longrightarrow> fold (\<lambda>(p, i). propfn p i) ps s = s" if "visits pa propfn off ps" for off ps s
    using that unfolding visits_def by (metis less_irrefl) (use that in \<open>simp add: visits_def\<close>)
  from p show ?thesis
    by (subst foreach_property.simps) (elim disjE conjE; simp add: c call [OF v(1)] call [OF v(2)] call [OF v(3)])
qed

lemma level_sub:
  assumes inv: "pa_inv L pa" and "u \<noteq> Leaf" "links u \<subseteq> links (L Q)"
  shows "0 < root u" "root u < bytes_used pa" "to_prop_obj pa (root u) = Some (root u)"
proof -
  have "set_tree u \<subseteq> set_tree (L Q)" using assms(3) fst_links [of u] fst_links [of "L Q"] by (metis image_mono)
  then have "root u \<in> fst ` set_tree (L Q)" using root_in [OF assms(2)] by blast
  from pa_inv_ptr [OF inv this] show "0 < root u" "root u < bytes_used pa" "to_prop_obj pa (root u) = Some (root u)" by simp_all
qed

text \<open>The four parts of the properties of a level are disjoint.\<close>

lemma lists_props_parts:
  assumes inv: "pa_inv L pa" and o: "level_ordered (Node l (x, n) r)"
    and "lists_props pa (level_props L pa P l) psl" "lists_props pa {p. prop_at L pa (P @ [n]) p} psp"
      "lists_props pa (level_props L pa (P @ [n]) (L (P @ [n]))) psc" "lists_props pa (level_props L pa P r) psr"
  shows "lists_props pa (level_props L pa P (Node l (x, n) r)) (psl @ psp @ psc @ psr)"
proof -
  let ?n = "Node Leaf (x, n) Leaf"
  have mid: "level_props L pa P ?n = {p. prop_at L pa (P @ [n]) p} \<union> level_props L pa (P @ [n]) (L (P @ [n]))"
    using level_props_Node [OF inv, of P Leaf x n Leaf] by simp
  have l: "name_cmp m n < 0" if "m \<in> names l" for m using o that by auto
  have r: "name_cmp n m < 0" if "m \<in> names r" for m using o that by auto
  have n: "\<not> name_cmp n n < 0" by simp
  have names: "names l \<inter> names ?n = {}" "names ?n \<inter> names r = {}" using l r n by fastforce+
  have "\<not> (m \<in> names l \<and> m \<in> names r)" for m using l [of m] r [of m] name_cmp_trans [of m n m] by auto
  then have names3: "names l \<inter> names r = {}" by blast
  note dis = level_props_disjoint [OF inv, of _ P]
  have "{p. prop_at L pa (P @ [n]) p} \<inter> level_props L pa (P @ [n]) (L (P @ [n])) = {}"
    using prop_at_path_unique [OF inv, of "P @ [n]"] unfolding level_props_def by (fastforce simp: prefix_def)
  from lists_props_append [OF assms(4,5) this] have m: "lists_props pa (level_props L pa P ?n) (psp @ psc)" unfolding mid .
  have "level_props L pa P ?n \<inter> level_props L pa P r = {}" using dis [of _ ?n r] names(2) by blast
  from lists_props_append [OF m assms(6) this]
  have mr: "lists_props pa (level_props L pa P ?n \<union> level_props L pa P r) ((psp @ psc) @ psr)" .
  have "level_props L pa P l \<inter> (level_props L pa P ?n \<union> level_props L pa P r) = {}"
    using dis [of _ l ?n] dis [of _ l r] names(1) names3 by blast
  from lists_props_append [OF assms(3) mr this] show ?thesis
    unfolding level_props_Node [OF inv] mid by (simp add: Un_assoc)
qed

lemma foreach_level:
  assumes inv: "pa_inv L pa" and "links t \<subseteq> links (L P)" "level_ordered t"
  shows "\<exists>ps. visits pa propfn (root t) ps \<and> lists_props pa (level_props L pa P t) ps"
  using assms(2,3)
proof (induction "bytes_used pa - root t" arbitrary: t P rule: less_induct)
  case less
  show ?case
  proof (cases t)
    case Leaf
    then show ?thesis by (intro exI [of _ "[]"]) (simp add: visits_def lists_props_def)
  next
    case (Node l a r)
    obtain x n where a: "a = (x, n)" by (cases a)
    have link: "((x, n), root l, root r) \<in> links (L P)" using less.prems(1) Node a by simp
    have x: "0 < x" "x < bytes_used pa" "to_prop_obj pa x = Some x" using level_sub [OF inv _ less.prems(1)] Node a by auto
    from pa_inv_node [OF inv link] obtain p where
      c: "to_prop_bt pa x = Some \<lparr>bt_name = n, bt_prop = p, bt_left = root l, bt_right = root r, bt_children = root (L (P @ [n]))\<rparr>"
      and up: "\<forall>y \<in> {root l, root r, root (L (P @ [n]))}. y = 0 \<or> x < y"
      and cell: "pa_data pa x = Some (Bt \<lparr>bt_name = n, bt_prop = p, bt_left = root l, bt_right = root r, bt_children = root (L (P @ [n]))\<rparr>)"
      unfolding node_ok_def by (auto simp: to_prop_bt_def)
    have IH: "\<exists>ps. visits pa propfn (root u) ps \<and> lists_props pa (level_props L pa Q u) ps"
      if u: "links u \<subseteq> links (L Q)" "level_ordered u" "root u = 0 \<or> x < root u" for u Q
    proof (cases "u = Leaf")
      case True
      then show ?thesis by (intro exI [of _ "[]"]) (simp add: visits_def lists_props_def)
    next
      case False
      from level_sub [OF inv False u(1)] u(3) have "bytes_used pa - root u < bytes_used pa - root t" using Node a by simp
      from less.hyps [OF this u(1,2)] show ?thesis .
    qed
    have sub: "links l \<subseteq> links (L P)" "links r \<subseteq> links (L P)" "level_ordered l" "level_ordered r"
      using less.prems Node by auto
    obtain psl where l: "visits pa propfn (root l) psl" "lists_props pa (level_props L pa P l) psl" using IH [OF sub(1,3)] up by auto
    obtain psr where r: "visits pa propfn (root r) psr" "lists_props pa (level_props L pa P r) psr" using IH [OF sub(2,4)] up by auto
    obtain psc where ch: "visits pa propfn (root (L (P @ [n]))) psc" "lists_props pa (level_props L pa (P @ [n]) (L (P @ [n]))) psc"
      using IH [OF subset_refl pa_inv_ordered [OF inv]] up by blast
    have "node_at L (P @ [n]) x" using links_set [OF link] by simp
    then have "node_at L (P @ [n]) y \<longleftrightarrow> y = x" for y using node_at_unique [OF inv, of "P @ [n]" x] by blast
    then have pat: "{q. prop_at L pa (P @ [n]) q} = (if p = 0 then {} else {p})"
      using cell unfolding prop_at_def by auto
    obtain psp where sp: "lists_props pa {q. prop_at L pa (P @ [n]) q} psp"
      and pp: "\<exists>i. p = 0 \<and> psp = [] \<or> p \<noteq> 0 \<and> to_prop_obj pa p = Some p \<and> to_prop_info pa p = Some i \<and> psp = [(p, i)]"
    proof (cases "p = 0")
      case True
      then show ?thesis using that [of "[]"] unfolding pat by (simp add: lists_props_def)
    next
      case False
      then have "prop_at L pa (P @ [n]) p" using pat by auto
      moreover from prop_at_info [OF inv this] obtain i where "pa_data pa p = Some (Info i)" by (auto simp: info_ok_def)
      moreover from this have "lists_props pa {p} [(p, i)]" by (auto simp: lists_props_def)
      ultimately show ?thesis using that [of "[(p, i)]"] False prop_at_ptr [OF inv, of "P @ [n]" p] unfolding pat
        by (auto simp: to_prop_info_def)
    qed
    then obtain i where pp: "p = 0 \<and> psp = [] \<or> p \<noteq> 0 \<and> to_prop_obj pa p = Some p \<and> to_prop_info pa p = Some i \<and> psp = [(p, i)]" by blast
    have "visits pa propfn (root t) (psl @ psp @ psc @ psr)"
      unfolding visits_def using foreach_node [OF c l(1) ch(1) r(1) pp] x Node a by simp
    moreover have "lists_props pa (level_props L pa P t) (psl @ psp @ psc @ psr)"
      using lists_props_parts [OF inv _ l(2) sp ch(2) r(2)] less.prems(2) Node a by simp
    ultimately show ?thesis by blast
  qed
qed

lemma pa_find_iff:
  assumes inv: "pa_inv L pa"
  shows "pa_find pa name = Some (Some p) \<longleftrightarrow> prop_at L pa (tokens name) p"
  using pa_find_inv [OF inv, of name] prop_at_unique [OF inv, of "tokens name"] by (metis option.inject option.simps(3))

lemma prop_at_name:
  assumes inv: "pa_inv L pa" and "prop_at L pa P p"
  obtains i where "to_prop_info pa p = Some i" "tokens (pi_name i) = P" "length (pi_name i) < 2 ^ 32"
  using prop_at_info [OF assms] by (auto simp: info_ok_def to_prop_info_def)

text \<open>What \<open>find\<close> finds.\<close>

lemma pa_lookup_find:
  assumes "pa_wf pa"
  shows "pa_lookup pa name = None \<Longrightarrow> length name < 2 ^ 32 \<Longrightarrow> pa_find pa name = Some None"
    and "pa_lookup pa name = Some v \<Longrightarrow> \<exists>off i. pa_find pa name = Some (Some off) \<and> to_prop_info pa off = Some i \<and>
      pi_name i = name \<and> serial_ok i \<and> info_value pa off = Some v \<and> (length v < PROP_VALUE_MAX \<longrightarrow> pi_value i = Value v)"
proof -
  obtain L where inv: "pa_inv L pa" using assms by (auto simp: pa_wf_def)
  show "pa_find pa name = Some None" if "pa_lookup pa name = None" "length name < 2 ^ 32"
    using that pa_lookup_Some_iff [OF inv, of name] pa_find_inv(2) [OF inv, of name] by auto
  show "\<exists>off i. pa_find pa name = Some (Some off) \<and> to_prop_info pa off = Some i \<and>
      pi_name i = name \<and> serial_ok i \<and> info_value pa off = Some v \<and> (length v < PROP_VALUE_MAX \<longrightarrow> pi_value i = Value v)"
    if v: "pa_lookup pa name = Some v"
  proof -
    have short: "length name < 2 ^ 32" using pa_lookup_long [of name pa] v by fastforce
    then obtain p where p: "prop_at L pa (tokens name) p" using pa_lookup_Some_iff [OF inv, of name] v by auto
    obtain i u where "pa_data pa p = Some (Info i)" "tokens (pi_name i) = tokens name" "length (pi_name i) < 2 ^ 32" "serial_ok i" "info_value pa p = Some u"
      "length u < PROP_VALUE_MAX \<longrightarrow> pi_value i = Value u" using prop_at_info [OF inv p] by (auto simp: info_ok_def)
    moreover from this have "u = v" using pa_lookup_inv(1) [OF inv p short] v by simp
    ultimately show ?thesis using pa_find_inv(1) [OF inv p] tokens_inject [of "pi_name i" name] short
      by (intro exI [of _ p] exI [of _ i]) (simp add: to_prop_info_def)
  qed
qed

text \<open>Replacing the value inside an object.\<close>

lemma pa_update_value:
  assumes inv: "pa_inv L pa" and p: "prop_at L pa (tokens name) p" and i: "pa_data pa p = Some (Info i)"
    and j: "pi_name j = pi_name i" "serial_ok j" "pi_value j = Value v" and short: "length name < 2 ^ 32"
  shows "pa_inv L (put_obj p (Info j) pa)" "pa_lookup (put_obj p (Info j) pa) = (pa_lookup pa)(name \<mapsto> v)"
proof -
  let ?pa = "put_obj p (Info j) pa"
  have v: "info_value ?pa q = (if q = p then Some v else info_value pa q)" for q
    using j(3) i by (auto simp: info_value_def to_prop_info_def put_obj_def long_value_def split: option.splits prop_obj.splits prop_value.splits)
  have ok: "info_ok ?pa P q" if "info_ok pa P q" for P q
  proof (cases "q = p")
    case True
    then show ?thesis using that i j v unfolding info_ok_def by (auto simp: put_obj_def)
  next
    case False
    then show ?thesis using that v unfolding info_ok_def by (simp add: put_obj_def)
  qed
  have bt: "pa_data ?pa x = Some (Bt bt) \<longleftrightarrow> pa_data pa x = Some (Bt bt)" for x bt using i by (auto simp: put_obj_def)
  show inv': "pa_inv L ?pa"
  proof (rule pa_inv_same [OF inv])
    show "node_ok L ?pa P x n lo ro" if "((x, n), lo, ro) \<in> links (L P)" for P x n lo ro
      using pa_inv_node [OF inv that] ok unfolding node_ok_def bt by blast
    show "x < bytes_used ?pa" if "pa_data ?pa x \<noteq> None" for x
      using that pa_inv_used [OF inv] i by (auto simp: put_obj_def split: if_splits)
    show "bytes_used ?pa \<le> pa_data_size ?pa" using pa_inv_size [OF inv] by (simp add: put_obj_def)
  qed (simp only: bt pa_inv_root [OF inv])
  have same: "prop_at L ?pa P q \<longleftrightarrow> prop_at L pa P q" for P q unfolding prop_at_def bt ..
  have "pa_lookup ?pa other = pa_lookup pa other" if "other \<noteq> name" for other
  proof (cases "(\<exists>q. prop_at L pa (tokens other) q) \<and> length other < 2 ^ 32")
    case True
    then obtain q where q: "prop_at L pa (tokens other) q" and o: "length other < 2 ^ 32" by blast
    have "q \<noteq> p" using prop_at_path_unique [OF inv q, of "tokens name"] p tokens_inject [OF _ o short] that by blast
    then show ?thesis using pa_lookup_inv(1) [OF inv q o] pa_lookup_inv(1) [OF inv' _ o, of q] q same v by simp
  next
    case False
    then show ?thesis using pa_lookup_inv(2) [OF inv, of other] pa_lookup_inv(2) [OF inv', of other] pa_lookup_long [of other] same by metis
  qed
  moreover have "pa_lookup ?pa name = Some v" using pa_lookup_inv(1) [OF inv' _ short, of p] p same v by simp
  ultimately show "pa_lookup ?pa = (pa_lookup pa)(name \<mapsto> v)" by auto
qed

text \<open>C21. Finding a property. On a well-formed area \<open>find\<close> always returns, although it follows links
  in shared memory; what it finds for a name shorter than \<open>2 ^ 32\<close> is an object with exactly that name. (A
  part of a name is measured with a \<open>uint32_t\<close>, so a longer one could be taken for another.)\<close>

theorem prop_area_find_returns:
  assumes "pa_wf pa"
  shows "\<exists>r. pa_find pa name = Some r \<and>
    (length name < 2 ^ 32 \<longrightarrow> (\<forall>off. r = Some off \<longrightarrow> (\<exists>pi. to_prop_info pa off = Some pi \<and> pi_name pi = name)))"
proof -
  obtain L where inv: "pa_inv L pa" using assms by (auto simp: pa_wf_def)
  show ?thesis
  proof (cases "\<exists>p. prop_at L pa (tokens name) p")
    case True
    then obtain p where p: "prop_at L pa (tokens name) p" ..
    obtain i where "to_prop_info pa p = Some i" "tokens (pi_name i) = tokens name" "length (pi_name i) < 2 ^ 32"
      by (rule prop_at_name [OF inv p])
    then show ?thesis using pa_find_inv(1) [OF inv p] tokens_inject [of "pi_name i" name]
      by (intro exI [of _ "Some p"]) simp
  next
    case False
    then show ?thesis using pa_find_inv(2) [OF inv] by auto
  qed
qed

theorem prop_area_find_returns_witness:
  "\<exists>r. pa_find prop_area_new ''ro.secure'' = Some r \<and>
    (\<forall>off. r = Some off \<longrightarrow> (\<exists>pi. to_prop_info prop_area_new off = Some pi \<and> pi_name pi = ''ro.secure''))"
  using prop_area_find_returns [OF prop_area_new_wf, of "''ro.secure''"] by auto

text \<open>C22. Visiting the properties. \<open>foreach\<close> returns, calls the function once for every property that
  \<open>find\<close> can find, for no other object, and reports success.\<close>

theorem prop_area_foreach_visits:
  assumes "pa_wf pa"
  shows "\<exists>ps. pa_foreach pa propfn cookie = Some (fold (\<lambda>(off, pi). propfn off pi) ps cookie, True) \<and>
    distinct (map (\<lambda>(off, pi). pi_name pi) ps) \<and>
    set ps = {(off, pi). to_prop_info pa off = Some pi \<and> pa_find pa (pi_name pi) = Some (Some off)}"
proof -
  obtain L where inv: "pa_inv L pa" using assms by (auto simp: pa_wf_def)
  obtain ps where v: "visits pa propfn (root (L [])) ps" and ps: "lists_props pa (level_props L pa [] (L [])) ps"
    using foreach_level [OF inv subset_refl pa_inv_ordered [OF inv]] by blast
  have info: "pa_data pa p = Some (Info i) \<longleftrightarrow> to_prop_info pa p = Some i" for p i
    by (auto simp: to_prop_info_def split: option.splits prop_obj.splits)
  have c: "to_prop_bt pa 0 = Some \<lparr>bt_name = [], bt_prop = 0, bt_left = 0, bt_right = 0, bt_children = root (L [])\<rparr>"
    using pa_inv_root [OF inv] by (simp add: to_prop_bt_def)
  have "visits pa propfn 0 []" by (simp add: visits_def)
  from foreach_node [OF c this v this, of "[]" undefined cookie]
  have "pa_foreach pa propfn cookie = Some (fold (\<lambda>(off, pi). propfn off pi) ps cookie, True)"
    by (simp add: pa_foreach_def root_node_simp)
  moreover have "p \<in> level_props L pa [] (L []) \<longleftrightarrow> pa_find pa (pi_name i) = Some (Some p)" if "to_prop_info pa p = Some i" for p i
  proof
    assume "p \<in> level_props L pa [] (L [])"
    then obtain Q where Q: "prop_at L pa Q p" by (auto simp: level_props_def)
    obtain j where "to_prop_info pa p = Some j" "tokens (pi_name j) = Q" by (rule prop_at_name [OF inv Q])
    then show "pa_find pa (pi_name i) = Some (Some p)" using that pa_find_inv(1) [OF inv] Q by simp
  next
    assume "pa_find pa (pi_name i) = Some (Some p)"
    then have p: "prop_at L pa (tokens (pi_name i)) p" using pa_find_iff [OF inv] by blast
    obtain m ts where ts: "tokens (pi_name i) = m # ts" using tokens_not_Nil [of "pi_name i"] by (cases "tokens (pi_name i)") auto
    then have "m \<in> names (L [])" using p node_at_path [OF inv, of "[]" m ts] by (auto simp: prop_at_def)
    then show "p \<in> level_props L pa [] (L [])" using p ts unfolding level_props_def by (force simp: prefix_def)
  qed
  then have set: "set ps = {(off, pi). to_prop_info pa off = Some pi \<and> pa_find pa (pi_name pi) = Some (Some off)}"
    using ps unfolding lists_props_def info by auto
  moreover have "distinct (map (\<lambda>(off, pi). pi_name pi) ps)"
  proof -
    have "distinct ps" using ps by (auto simp: lists_props_def distinct_map)
    moreover have "inj_on (\<lambda>(off, pi). pi_name pi) (set ps)" unfolding set by (auto simp: inj_on_def)
    ultimately show ?thesis by (simp add: distinct_map)
  qed
  ultimately show ?thesis by blast
qed

theorem prop_area_foreach_visits_witness:
  "\<exists>ps :: (nat \<times> prop_info) list. pa_foreach prop_area_new (\<lambda>off pi n. n + 1) (0 :: nat) = Some (fold (\<lambda>(off, pi) n. n + 1) ps 0, True)"
  using prop_area_foreach_visits [OF prop_area_new_wf, of "\<lambda>off pi n. n + 1" "0 :: nat"]
  by blast

end
