(* ===== verification/Strtol.thy ===== *)
theory Strtol
  imports Bionic_Prelude
begin

text \<open>
  Parsing integers (\<open>strtol.cpp\<close>). A string is the list of its characters in front of the
  terminator, each as the \<open>int\<close> that reading it gives, whatever the signedness of \<open>char\<close>; a pointer
  into the string is the rest of the list. The functions return the value, the distance of
  \<open>endptr\<close> from \<open>nptr\<close>, and what they store in \<open>errno\<close>. Signed arithmetic that leaves the range of the type is undefined and gives \<open>None\<close>;
  unsigned arithmetic is done in 64-bit words.
\<close>

section \<open>Characters\<close>

type_synonym cstring = "int list"

definition isalpha :: "int \<Rightarrow> bool" where
  "isalpha ch \<longleftrightarrow> (0x41 \<le> ch \<and> ch \<le> 0x5a) \<or> (0x61 \<le> ch \<and> ch \<le> 0x7a)"

definition isdigit :: "int \<Rightarrow> bool" where
  "isdigit ch \<longleftrightarrow> 0x30 \<le> ch \<and> ch \<le> 0x39"

definition isspace :: "int \<Rightarrow> bool" where
  "isspace ch \<longleftrightarrow> ch = 0x20 \<or> (0x09 \<le> ch \<and> ch \<le> 0x0d)"

definition isupper :: "int \<Rightarrow> bool" where
  "isupper ch \<longleftrightarrow> 0x41 \<le> ch \<and> ch \<le> 0x5a"

definition isxdigit :: "int \<Rightarrow> bool" where
  "isxdigit ch \<longleftrightarrow> (0x30 \<le> ch \<and> ch \<le> 0x39) \<or> (0x61 \<le> ch \<and> ch \<le> 0x66) \<or> (0x41 \<le> ch \<and> ch \<le> 0x46)"

text \<open>The character a pointer points to: the terminator at the end.\<close>

definition deref :: "cstring \<Rightarrow> int" where
  "deref s = (case s of [] \<Rightarrow> 0 | c # _ \<Rightarrow> c)"

section \<open>The functions\<close>

record 'a parsed =
  p_value :: 'a
  p_end :: nat
  p_errno :: "int option"

text \<open>
  The head of both templates: white space, sign, prefix and base. The result is the sign, the base
  and the place of the first digit.
\<close>

fun skip_space :: "cstring \<Rightarrow> cstring" where
  "skip_space [] = []"
| "skip_space (c # s) = (if isspace c then skip_space s else c # s)"

definition strto_head :: "cstring \<Rightarrow> int \<Rightarrow> bool \<times> int \<times> cstring" where
  "strto_head nptr base =
     (let s = skip_space nptr;
          (neg, s) = (if deref s = 0x2d then (True, tl s) else if deref s = 0x2b then (False, tl s) else (False, s));
          (base, s) = (if (base = 0 \<or> base = 16) \<and> deref s = 0x30 \<and> (deref (tl s) = 0x78 \<or> deref (tl s) = 0x58) \<and>
                          isxdigit (deref (tl (tl s)))
                       then (16, tl (tl s)) else (base, s));
          base = (if base = 0 then if deref s = 0x30 then 8 else 10 else base)
      in (neg, base, s))"

text \<open>The value of a character as a digit of the loops, which stop at any other one.\<close>

definition digit_of :: "int \<Rightarrow> int option" where
  "digit_of c =
     (if isdigit c then Some (c - 0x30)
      else if isalpha c then Some (c - (if isupper c then 0x41 - 10 else 0x61 - 10))
      else None)"

text \<open>\<open>any\<close> is one when digits were consumed and minus one after an overflow. The C operators \<open>/\<close> and
  \<open>%\<close> truncate; the minimum is negative.\<close>

fun StrToI_loop ::
  "int \<Rightarrow> int \<Rightarrow> int \<Rightarrow> int \<Rightarrow> int \<Rightarrow> cstring \<Rightarrow> int \<Rightarrow> int \<Rightarrow> int option \<Rightarrow> (cstring \<times> int \<times> int \<times> int option) option" where
  "StrToI_loop tmin tmax base cutoff cutlim [] any acc err = Some ([], any, acc, err)"
| "StrToI_loop tmin tmax base cutoff cutlim (c # s) any acc err =
     (case digit_of c of
        None \<Rightarrow> Some (c # s, any, acc, err)
      | Some d \<Rightarrow>
          if d \<ge> base then Some (c # s, any, acc, err)
          else if any < 0 then StrToI_loop tmin tmax base cutoff cutlim s any acc err
          else if acc < cutoff \<or> (acc = cutoff \<and> d > cutlim)
          then StrToI_loop tmin tmax base cutoff cutlim s (- 1) tmin (Some ERANGE)
          else if acc * base \<in> {tmin..tmax} \<and> acc * base - d \<in> {tmin..tmax}
          then StrToI_loop tmin tmax base cutoff cutlim s 1 (acc * base - d) err
          else None)"

definition StrToI :: "int \<Rightarrow> int \<Rightarrow> cstring \<Rightarrow> int \<Rightarrow> int parsed option" where
  "StrToI tmin tmax nptr base =
     (if base < 0 \<or> base = 1 \<or> base > 36 then Some \<lparr>p_value = 0, p_end = 0, p_errno = Some EINVAL\<rparr>
      else
        let (neg, base, s) = strto_head nptr base;
            cutoff = - ((- tmin) div base);
            cutlim = (- tmin) mod base
        in case StrToI_loop tmin tmax base cutoff cutlim s 0 0 None of
            None \<Rightarrow> None
          | Some (s, any, acc, err) \<Rightarrow>
              let end = (if any \<noteq> 0 then length nptr - length s else 0) in
              if neg then Some \<lparr>p_value = acc, p_end = end, p_errno = err\<rparr>
              else if acc = tmin then Some \<lparr>p_value = tmax, p_end = end, p_errno = Some ERANGE\<rparr>
              else if - acc \<in> {tmin..tmax} then Some \<lparr>p_value = - acc, p_end = end, p_errno = err\<rparr>
              else None)"

fun StrToU_loop :: "u64 \<Rightarrow> int \<Rightarrow> u64 \<Rightarrow> int \<Rightarrow> cstring \<Rightarrow> int \<Rightarrow> u64 \<Rightarrow> int option \<Rightarrow> cstring \<times> int \<times> u64 \<times> int option" where
  "StrToU_loop tmax base cutoff cutlim [] any acc err = ([], any, acc, err)"
| "StrToU_loop tmax base cutoff cutlim (c # s) any acc err =
     (case digit_of c of
        None \<Rightarrow> (c # s, any, acc, err)
      | Some d \<Rightarrow>
          if d \<ge> base then (c # s, any, acc, err)
          else if any < 0 then StrToU_loop tmax base cutoff cutlim s any acc err
          else if acc > cutoff \<or> (acc = cutoff \<and> d > cutlim)
          then StrToU_loop tmax base cutoff cutlim s (- 1) tmax (Some ERANGE)
          else StrToU_loop tmax base cutoff cutlim s 1 (acc * of_int base + of_int d) err)"

definition StrToU :: "u64 \<Rightarrow> cstring \<Rightarrow> int \<Rightarrow> u64 parsed" where
  "StrToU tmax nptr base =
     (if base < 0 \<or> base = 1 \<or> base > 36 then \<lparr>p_value = 0, p_end = 0, p_errno = Some EINVAL\<rparr>
      else
        let (neg, base, s) = strto_head nptr base;
            cutoff = tmax div of_int base;
            cutlim = uint (tmax mod of_int base);
            (s, any, acc, err) = StrToU_loop tmax base cutoff cutlim s 0 0 None;
            acc = (if neg \<and> any > 0 then - acc else acc)
        in \<lparr>p_value = acc, p_end = (if any \<noteq> 0 then length nptr - length s else 0), p_errno = err\<rparr>)"

abbreviation (input) LONG_MIN :: int where "LONG_MIN \<equiv> - (2 ^ 63)"
abbreviation (input) LONG_MAX :: int where "LONG_MAX \<equiv> 2 ^ 63 - 1"
abbreviation (input) ULONG_MAX :: u64 where "ULONG_MAX \<equiv> - 1"

definition strtoimax :: "cstring \<Rightarrow> int \<Rightarrow> int parsed option" where
  "strtoimax s base = StrToI LONG_MIN LONG_MAX s base"

definition strtol :: "cstring \<Rightarrow> int \<Rightarrow> int parsed option" where
  "strtol s base = StrToI LONG_MIN LONG_MAX s base"

definition strtoll :: "cstring \<Rightarrow> int \<Rightarrow> int parsed option" where
  "strtoll s base = StrToI LONG_MIN LONG_MAX s base"

definition strtoul :: "cstring \<Rightarrow> int \<Rightarrow> u64 parsed" where
  "strtoul s base = StrToU ULONG_MAX s base"

definition strtoull :: "cstring \<Rightarrow> int \<Rightarrow> u64 parsed" where
  "strtoull s base = StrToU ULONG_MAX s base"

definition strtoumax :: "cstring \<Rightarrow> int \<Rightarrow> u64 parsed" where
  "strtoumax s base = StrToU ULONG_MAX s base"

definition atoi :: "cstring \<Rightarrow> int option" where
  "atoi s = map_option (\<lambda>r. sint (of_int (p_value r) :: 32 word)) (strtol s 10)"

definition atol :: "cstring \<Rightarrow> int option" where
  "atol s = map_option p_value (strtol s 10)"

definition atoll :: "cstring \<Rightarrow> int option" where
  "atoll s = map_option p_value (strtoll s 10)"

section \<open>The specification\<close>

text \<open>
  The subject of a conversion, as the C standard describes it: white space, an optional sign, an
  optional prefix of a hexadecimal number, and the longest run of digits of the base, which must not be
  empty. A digit is a letter of an alphabet, its value its place there; the digits denote a number
  by their positions.
\<close>

definition white_space :: "int set" where
  "white_space = {0x20, 0x09, 0x0a, 0x0b, 0x0c, 0x0d}"

definition digit_value :: "int \<Rightarrow> int option" where
  "digit_value c =
     map_of (zip (map of_char ''0123456789abcdefghijklmnopqrstuvwxyz'' @ map of_char ''ABCDEFGHIJKLMNOPQRSTUVWXYZ'')
       ([0..35] @ [10..35])) c"

definition digit_below :: "int \<Rightarrow> int \<Rightarrow> bool" where
  "digit_below base c \<longleftrightarrow> (\<exists>d. digit_value c = Some d \<and> d < base)"

definition denoted :: "int \<Rightarrow> cstring \<Rightarrow> int" where
  "denoted base ds = (\<Sum>i<length ds. the (digit_value (ds ! i)) * base ^ (length ds - Suc i))"

definition hex_prefixed :: "cstring \<Rightarrow> bool" where
  "hex_prefixed s \<longleftrightarrow> (\<exists>x c r. s = of_char (CHR ''0'') # x # c # r \<and> x \<in> {of_char (CHR ''x''), of_char (CHR ''X'')} \<and> digit_below 16 c)"

definition subject :: "cstring \<Rightarrow> int \<Rightarrow> bool \<Rightarrow> int \<Rightarrow> cstring \<Rightarrow> cstring \<Rightarrow> bool" where
  "subject nptr base neg b ds rest \<longleftrightarrow>
     (\<exists>ws sign pfx. nptr = ws @ sign @ pfx @ ds @ rest \<and> set ws \<subseteq> white_space \<and>
        sign \<in> (if neg then {map of_char ''-''} else {[], map of_char ''+''}) \<and>
        ds \<noteq> [] \<and> (\<forall>c \<in> set ds. digit_below b c) \<and> (rest \<noteq> [] \<longrightarrow> \<not> digit_below b (hd rest)) \<and>
        (if pfx = [] then
           \<not> (base \<in> {0, 16} \<and> hex_prefixed (ds @ rest)) \<and>
           b = (if base \<noteq> 0 then base else if hd ds = of_char (CHR ''0'') then 8 else 10)
         else base \<in> {0, 16} \<and> pfx \<in> {map of_char ''0x'', map of_char ''0X''} \<and> b = 16))"

section \<open>The result in terms of the head\<close>

text \<open>
  A step on the way: the result of the loops, given what the head finds. The digits are
  those of the code; that they are the subject is shown at the end.
\<close>

definition digits :: "int \<Rightarrow> cstring \<Rightarrow> cstring" where
  "digits base s = takeWhile (\<lambda>c. case digit_of c of None \<Rightarrow> False | Some d \<Rightarrow> d < base) s"

definition number :: "int \<Rightarrow> cstring \<Rightarrow> int" where
  "number base ds = foldl (\<lambda>n c. n * base + the (digit_of c)) 0 ds"

definition consumed :: "cstring \<Rightarrow> int \<Rightarrow> cstring \<Rightarrow> nat" where
  "consumed nptr base s = (if digits base s = [] then 0 else length nptr - length s + length (digits base s))"

definition StrToI_result :: "int \<Rightarrow> int \<Rightarrow> cstring \<Rightarrow> int \<Rightarrow> int parsed" where
  "StrToI_result tmin tmax nptr base =
     (case strto_head nptr base of (neg, base, s) \<Rightarrow>
        let n = (if neg then - number base (digits base s) else number base (digits base s))
        in \<lparr>p_value = max tmin (min tmax n), p_end = consumed nptr base s,
            p_errno = (if n < tmin \<or> tmax < n then Some ERANGE else None)\<rparr>)"

definition StrToU_result :: "cstring \<Rightarrow> int \<Rightarrow> u64 parsed" where
  "StrToU_result nptr base =
     (case strto_head nptr base of (neg, base, s) \<Rightarrow>
        let n = number base (digits base s)
        in \<lparr>p_value = (if 2 ^ 64 \<le> n then - 1 else if neg then - of_int n else of_int n),
            p_end = consumed nptr base s, p_errno = (if 2 ^ 64 \<le> n then Some ERANGE else None)\<rparr>)"

lemma number_Nil [simp]: "number base [] = 0"
  by (simp add: number_def)

lemma foldl_shift:
  "foldl (\<lambda>n c. n * base + f c) m ds = m * base ^ length ds + foldl (\<lambda>n c. n * base + f c) (0 :: int) ds"
proof (induction ds arbitrary: m)
  case (Cons c ds)
  show ?case using Cons.IH [of "m * base + f c"] Cons.IH [of "f c"] by (simp add: algebra_simps)
qed simp

lemma digit_of_nonneg: "digit_of c = Some d \<Longrightarrow> 0 \<le> d"
  by (auto simp: digit_of_def isdigit_def isalpha_def isupper_def split: if_splits)

lemma digits_Cons:
  "digits base (c # s) = (case digit_of c of None \<Rightarrow> [] | Some d \<Rightarrow> if d < base then c # digits base s else [])"
  by (simp add: digits_def split: option.splits)

lemma digits_Nil [simp]: "digits base [] = []"
  by (simp add: digits_def)

text \<open>The value of the digits of a string that follow a number.\<close>

abbreviation extend :: "int \<Rightarrow> int \<Rightarrow> cstring \<Rightarrow> int" where
  "extend base m s \<equiv> foldl (\<lambda>n c. n * base + the (digit_of c)) m (digits base s)"

lemma extend_mono:
  assumes "0 \<le> m" "1 \<le> base"
  shows "m \<le> extend base m s"
  using assms(1)
proof (induction s arbitrary: m)
  case (Cons c s)
  show ?case
  proof (cases "digit_of c")
    case (Some d)
    have "0 \<le> d" using Some by (rule digit_of_nonneg)
    then have "m \<le> m * base + d" using Cons.prems assms(2) mult_left_mono [of 1 base m] by simp
    moreover have "m * base + d \<le> extend base (m * base + d) s" using Cons.prems assms(2) \<open>0 \<le> d\<close> by (intro Cons.IH) simp
    ultimately show ?thesis using Some by (simp add: digits_Cons)
  qed (simp add: digits_Cons)
qed simp

section \<open>The loops\<close>

text \<open>The test of the loops is the test for leaving the range.\<close>

lemma cutoff_test:
  fixes m d base Lim :: int
  assumes "0 < base" "0 \<le> d" "d < base"
  shows "Lim div base < m \<or> (m = Lim div base \<and> Lim mod base < d) \<longleftrightarrow> Lim < m * base + d"
proof -
  define q r where "q = Lim div base" and "r = Lim mod base"
  have L: "Lim = q * base + r" "0 \<le> r" "r < base" using assms(1) by (simp_all add: q_def r_def)
  have "q < m \<or> (m = q \<and> r < d) \<longleftrightarrow> Lim < m * base + d"
  proof (cases m q rule: linorder_cases)
    case less
    then have "(m + 1) * base \<le> q * base" using assms(1) by (intro mult_right_mono) simp_all
    then show ?thesis using less assms L unfolding distrib_right by linarith
  next
    case greater
    then have "(q + 1) * base \<le> m * base" using assms(1) by (intro mult_right_mono) simp_all
    then show ?thesis using greater assms L unfolding distrib_right by linarith
  qed (use L in auto)
  then show ?thesis unfolding q_def r_def .
qed

lemma StrToI_loop_overflow:
  assumes "any < 0"
  shows "StrToI_loop tmin tmax base cutoff cutlim s any acc err = Some (drop (length (digits base s)) s, any, acc, err)"
  using assms by (induction s) (auto simp: digits_Cons split: option.splits)

lemma StrToI_loop_spec:
  assumes base: "2 \<le> base" and tmax: "0 \<le> tmax" and "0 \<le> m" "m \<le> - tmin" "any \<ge> 0"
  shows "StrToI_loop tmin tmax base (- ((- tmin) div base)) ((- tmin) mod base) s any (- m) err =
    Some (if extend base m s \<le> - tmin
     then (drop (length (digits base s)) s, if digits base s = [] then any else 1, - extend base m s, err)
     else (drop (length (digits base s)) s, - 1, tmin, Some ERANGE))"
  using assms(3-5)
proof (induction s arbitrary: m any)
  case (Cons c s)
  let ?loop = "StrToI_loop tmin tmax base (- ((- tmin) div base)) ((- tmin) mod base)"
  show ?case
  proof (cases "digit_of c")
    case (Some d)
    have d: "0 \<le> d" using Some by (rule digit_of_nonneg)
    show ?thesis
    proof (cases "d < base")
      case True
      have cut: "- m < - ((- tmin) div base) \<or> (- m = - ((- tmin) div base) \<and> (- tmin) mod base < d) \<longleftrightarrow> - tmin < m * base + d"
        using cutoff_test [of base d "- tmin" m] base d True by auto
      show ?thesis
      proof (cases "- tmin < m * base + d")
        case over: True
        have "m * base + d \<le> extend base (m * base + d) s" using base Cons.prems d by (intro extend_mono) simp_all
        then show ?thesis using over Some True Cons.prems cut by (simp add: digits_Cons StrToI_loop_overflow)
      next
        case False
        have "0 \<le> m * base" using Cons.prems base by simp
        with False d tmax have fits: "- m * base \<in> {tmin..tmax} \<and> - m * base - d \<in> {tmin..tmax}" by simp
        have "\<not> (- m < - ((- tmin) div base) \<or> - m = - ((- tmin) div base) \<and> (- tmin) mod base < d)" using cut False by blast
        with fits have "?loop (c # s) any (- m) err = ?loop s 1 (- m * base - d) err"
          using Some True Cons.prems(3) by (simp only: StrToI_loop.simps option.case if_False if_True) simp
        moreover have "- m * base - d = - (m * base + d)" by simp
        ultimately have "?loop (c # s) any (- m) err = ?loop s 1 (- (m * base + d)) err" by simp
        also note Cons.IH [of "m * base + d" 1]
        finally show ?thesis using Some True Cons.prems False d base by (simp add: digits_Cons)
      qed
    qed (use Some Cons.prems in \<open>simp add: digits_Cons\<close>)
  qed (use Cons.prems in \<open>simp add: digits_Cons\<close>)
qed simp

text \<open>What the head of the conversion gives the loop.\<close>

lemma skip_space_length: "length (skip_space s) \<le> length s"
  by (induction s) auto

lemma strto_head_ok:
  assumes "strto_head nptr base = (neg, base', s)" "base = 0 \<or> 2 \<le> base"
  shows "2 \<le> base'" "length s \<le> length nptr"
proof -
  have t: "length (tl x) \<le> length x" for x :: cstring by simp
  have l: "length (tl (skip_space nptr)) \<le> length nptr" "length (tl (tl (skip_space nptr))) \<le> length nptr"
    "length (tl (tl (tl (skip_space nptr)))) \<le> length nptr" "length (skip_space nptr) \<le> length nptr"
    using skip_space_length [of nptr] by simp_all
  show "2 \<le> base'" using assms by (auto simp: strto_head_def Let_def split: if_splits)
  show "length s \<le> length nptr" using assms(1) l by (auto simp: strto_head_def Let_def simp del: length_tl split: if_splits)
qed

lemma digits_length: "length (digits base s) \<le> length s"
  by (simp add: digits_def length_takeWhile_le)

lemma consumed_eq:
  "length s \<le> length nptr \<Longrightarrow> digits base s \<noteq> [] \<Longrightarrow>
   length nptr - length (drop (length (digits base s)) s) = consumed nptr base s"
  using digits_length [of base s] by (simp add: consumed_def)

lemma number_nonneg: "2 \<le> base \<Longrightarrow> 0 \<le> number base (digits base s)"
  using extend_mono [of 0 base s] by (simp add: number_def)

lemma StrToI_eq_result:
  assumes "tmin < 0" "tmax = - tmin - 1" "base = 0 \<or> 2 \<le> base" "base \<le> 36"
  shows "StrToI tmin tmax nptr base = Some (StrToI_result tmin tmax nptr base)"
proof -
  obtain neg b s where h: "strto_head nptr base = (neg, b, s)" by (cases "strto_head nptr base") auto
  note b = strto_head_ok [OF h assms(3)]
  let ?N = "number b (digits b s)"
  have N: "0 \<le> ?N" using number_nonneg b(1) .
  have loop: "StrToI_loop tmin tmax b (- ((- tmin) div b)) ((- tmin) mod b) s 0 0 None =
    Some (if ?N \<le> - tmin then (drop (length (digits b s)) s, if digits b s = [] then 0 else 1, - ?N, None)
     else (drop (length (digits b s)) s, - 1, tmin, Some ERANGE))"
    using StrToI_loop_spec [of b tmax 0 tmin 0 s None] b(1) assms(1,2) by (simp add: number_def)
  have "digits b s \<noteq> []" if "\<not> ?N \<le> - tmin" using that assms(1) by auto
  moreover have ok: "\<not> (base < 0 \<or> base = 1 \<or> base > 36)" using assms(3,4) by auto
  ultimately show ?thesis
    using N assms(1,2) consumed_eq [OF b(2), of b]
    unfolding StrToI_def StrToI_result_def h prod.case loop option.case Let_def
    by (auto simp: consumed_def)
qed

text \<open>The same for unsigned words.\<close>

lemma uint_of_int_u64: "0 \<le> m \<Longrightarrow> m < 2 ^ 64 \<Longrightarrow> uint (of_int m :: u64) = m"
  by (simp add: uint_word_of_int)

lemma StrToU_loop_overflow:
  assumes "any < 0"
  shows "StrToU_loop tmax base cutoff cutlim s any acc err = (drop (length (digits base s)) s, any, acc, err)"
  using assms by (induction s) (auto simp: digits_Cons split: option.splits)

lemma StrToU_cut:
  assumes "2 \<le> base" "base \<le> 36" "0 \<le> m" "m < 2 ^ 64" "0 \<le> d" "d < base"
  shows "(of_int m > (- 1 :: u64) div of_int base \<or> (of_int m = (- 1 :: u64) div of_int base \<and> d > uint ((- 1 :: u64) mod of_int base)))
    \<longleftrightarrow> 2 ^ 64 - 1 < m * base + d"
proof -
  have b: "uint (of_int base :: u64) = base" using assms(1,2) by (intro uint_of_int_u64) simp_all
  have m: "uint (of_int m :: u64) = m" using assms(3,4) by (rule uint_of_int_u64)
  have "uint (- 1 :: u64) = 2 ^ 64 - 1" by (simp add: unsigned_minus_1_eq_mask mask_eq_exp_minus_1)
  then have "uint ((- 1 :: u64) div of_int base) = (2 ^ 64 - 1) div base" "uint ((- 1 :: u64) mod of_int base) = (2 ^ 64 - 1) mod base"
    by (simp_all add: uint_div_distrib uint_mod_distrib b)
  then show ?thesis unfolding word_less_def word_uint_eq_iff m
    using cutoff_test [of base d "2 ^ 64 - 1" m] assms by auto
qed

lemma StrToU_loop_spec:
  assumes base: "2 \<le> base" "base \<le> 36" and "0 \<le> m" "m < 2 ^ 64" "any \<ge> 0"
  shows "StrToU_loop (- 1) base ((- 1) div of_int base) (uint ((- 1 :: u64) mod of_int base)) s any (of_int m) err =
    (if extend base m s < 2 ^ 64
     then (drop (length (digits base s)) s, if digits base s = [] then any else 1, of_int (extend base m s), err)
     else (drop (length (digits base s)) s, - 1, - 1, Some ERANGE))"
  using assms(3-5)
proof (induction s arbitrary: m any)
  case (Cons c s)
  show ?case
  proof (cases "digit_of c")
    case (Some d)
    have d: "0 \<le> d" using Some by (rule digit_of_nonneg)
    show ?thesis
    proof (cases "d < base")
      case True
      note cut = StrToU_cut [OF base Cons.prems(1,2) d True]
      show ?thesis
      proof (cases "2 ^ 64 - 1 < m * base + d")
        case over: True
        have "m * base + d \<le> extend base (m * base + d) s" using base Cons.prems d by (intro extend_mono) simp_all
        then show ?thesis using over Some True Cons.prems cut by (simp add: digits_Cons StrToU_loop_overflow)
      next
        case False
        then have "StrToU_loop (- 1) base ((- 1) div of_int base) (uint ((- 1 :: u64) mod of_int base)) (c # s) any (of_int m) err =
            StrToU_loop (- 1) base ((- 1) div of_int base) (uint ((- 1 :: u64) mod of_int base)) s 1 (of_int (m * base + d)) err"
          using Some True Cons.prems(3) cut by (simp only: StrToU_loop.simps option.case if_False) simp
        also note Cons.IH [of "m * base + d" 1]
        finally show ?thesis using Some True Cons.prems False d base by (simp add: digits_Cons)
      qed
    qed (use Some Cons.prems in \<open>simp add: digits_Cons\<close>)
  qed (use Cons.prems in \<open>simp add: digits_Cons\<close>)
qed simp

lemma strto_head_base:
  assumes "strto_head nptr base = (neg, base', s)" "base \<le> 36"
  shows "base' \<le> 36"
  using assms by (auto simp: strto_head_def Let_def split: if_splits)

lemma StrToU_eq_result:
  assumes ok: "\<not> (base < 0 \<or> base = 1 \<or> base > 36)"
  shows "StrToU (- 1) s base = StrToU_result s base"
proof -
  obtain neg b r where h: "strto_head s base = (neg, b, r)" by (cases "strto_head s base") auto
  have base: "base = 0 \<or> 2 \<le> base" "base \<le> 36" using ok by auto
  note b = strto_head_ok [OF h base(1)] strto_head_base [OF h base(2)]
  let ?N = "number b (digits b r)"
  have loop: "StrToU_loop (- 1) b ((- 1) div of_int b) (uint ((- 1 :: u64) mod of_int b)) r 0 0 None =
    (if ?N < 2 ^ 64 then (drop (length (digits b r)) r, if digits b r = [] then 0 else 1, of_int ?N, None)
     else (drop (length (digits b r)) r, - 1, - 1, Some ERANGE))"
    using StrToU_loop_spec [of b 0 0 r None] b(1,3) by (simp add: number_def)
  have "digits b r \<noteq> []" if "\<not> ?N < 2 ^ 64" using that by auto
  then show ?thesis using ok consumed_eq [OF b(2), of b]
    unfolding StrToU_def StrToU_result_def h prod.case loop Let_def by (auto simp: consumed_def)
qed

section \<open>The head finds the subject\<close>

lemma digit_of_None: "\<not> (0 \<le> c \<and> c \<le> 127) \<Longrightarrow> digit_of c = None"
  by (auto simp: digit_of_def isdigit_def isalpha_def)

lemma digit_value_eq: "digit_value c = digit_of c"
proof (cases "0 \<le> c \<and> c \<le> 127")
  case True
  have "list_all (\<lambda>c. digit_value c = digit_of c) [0..127]" by code_simp
  with True show ?thesis by (simp add: list_all_iff)
next
  case False
  have "\<forall>x \<in> set (map of_char ''0123456789abcdefghijklmnopqrstuvwxyz'' @ map of_char ''ABCDEFGHIJKLMNOPQRSTUVWXYZ'' :: int list). 0 \<le> x \<and> x \<le> 127"
    by (simp add: of_char_def)
  then have "digit_value c = None" using False unfolding digit_value_def map_of_eq_None_iff by (auto dest!: set_zip_leftD)
  with False show ?thesis by (simp add: digit_of_None)
qed

lemma digit_below_eq: "digit_below b c \<longleftrightarrow> (case digit_of c of None \<Rightarrow> False | Some d \<Rightarrow> d < b)"
  by (simp add: digit_below_def digit_value_eq split: option.split)

lemma digits_eq: "digits b s = takeWhile (digit_below b) s"
  unfolding digits_def digit_below_eq [abs_def] ..

lemma white_space_eq: "c \<in> white_space \<longleftrightarrow> isspace c"
  by (auto simp: white_space_def isspace_def)

lemma isxdigit_eq: "isxdigit c \<longleftrightarrow> digit_below 16 c"
  by (auto simp: isxdigit_def digit_below_eq digit_of_def isdigit_def isalpha_def isupper_def)

lemma digit_below_char: "digit_below b c \<Longrightarrow> \<not> isspace c \<and> c \<noteq> 0x2d \<and> c \<noteq> 0x2b \<and> c \<noteq> 0"
  by (auto simp: digit_below_eq digit_of_def isspace_def isdigit_def isalpha_def split: if_splits)

lemma hex_prefixed_eq:
  "hex_prefixed s \<longleftrightarrow> deref s = 0x30 \<and> (deref (tl s) = 0x78 \<or> deref (tl s) = 0x58) \<and> isxdigit (deref (tl (tl s)))"
proof -
  have "deref t \<noteq> 0 \<Longrightarrow> t = deref t # tl t" for t by (cases t) (simp_all add: deref_def)
  moreover have "isxdigit c \<Longrightarrow> c \<noteq> 0" for c by (auto simp: isxdigit_def)
  ultimately have "deref s = 0x30 \<Longrightarrow> deref (tl s) \<in> {0x78, 0x58} \<Longrightarrow> isxdigit (deref (tl (tl s))) \<Longrightarrow>
      s = 0x30 # deref (tl s) # deref (tl (tl s)) # tl (tl (tl s))"
    by (metis insertE singletonD zero_neq_numeral)
  then show ?thesis by (auto simp: hex_prefixed_def isxdigit_eq of_char_def deref_def)
qed

lemma skip_space_append: "set ws \<subseteq> white_space \<Longrightarrow> skip_space (ws @ s) = skip_space s"
  by (induction ws) (simp_all add: white_space_eq)

lemma skip_space_stop: "s = [] \<or> \<not> isspace (hd s) \<Longrightarrow> skip_space s = s"
  by (cases s) simp_all

lemma skip_space_split: "\<exists>ws. nptr = ws @ skip_space nptr \<and> set ws \<subseteq> white_space"
proof (induction nptr)
  case (Cons c s)
  then obtain ws where "s = ws @ skip_space s" "set ws \<subseteq> white_space" by blast
  then have "isspace c \<Longrightarrow> c # s = (c # ws) @ skip_space (c # s) \<and> set (c # ws) \<subseteq> white_space" by (simp add: white_space_eq)
  moreover have "\<not> isspace c \<Longrightarrow> c # s = [] @ skip_space (c # s) \<and> set [] \<subseteq> white_space" by simp
  ultimately show ?case by blast
qed simp

lemma chars [simp]: "(of_char (CHR ''-'') :: int) = 0x2d" "(of_char (CHR ''+'') :: int) = 0x2b" "(of_char (CHR ''0'') :: int) = 0x30"
  "(of_char (CHR ''x'') :: int) = 0x78" "(of_char (CHR ''X'') :: int) = 0x58"
  by (simp_all add: of_char_def)

text \<open>The parts of the head: the sign, then the prefix and the base.\<close>

definition head_sign :: "cstring \<Rightarrow> bool \<times> cstring" where
  "head_sign s = (if deref s = 0x2d then (True, tl s) else if deref s = 0x2b then (False, tl s) else (False, s))"

definition head_base :: "int \<Rightarrow> cstring \<Rightarrow> int \<times> cstring" where
  "head_base base s =
     (let (base, s) = (if (base = 0 \<or> base = 16) \<and> hex_prefixed s then (16, tl (tl s)) else (base, s))
      in (if base = 0 then if deref s = 0x30 then 8 else 10 else base, s))"

lemma strto_head_parts:
  "strto_head nptr base = (case head_sign (skip_space nptr) of (neg, s) \<Rightarrow> case head_base base s of (b, s) \<Rightarrow> (neg, b, s))"
  by (simp add: strto_head_def head_sign_def head_base_def hex_prefixed_eq Let_def)

lemma head_base_subject:
  assumes "ds \<noteq> []" "\<forall>c \<in> set ds. digit_below b c" "rest \<noteq> [] \<longrightarrow> \<not> digit_below b (hd rest)"
    "if pfx = [] then \<not> (base \<in> {0, 16} \<and> hex_prefixed (ds @ rest)) \<and> b = (if base \<noteq> 0 then base else if hd ds = 0x30 then 8 else 10)
     else base \<in> {0, 16} \<and> pfx \<in> {[0x30, 0x78], [0x30, 0x58]} \<and> b = 16"
  shows "head_base base (pfx @ ds @ rest) = (b, ds @ rest)"
proof (cases "pfx = []")
  case True
  moreover have "deref (ds @ rest) = hd ds" using assms(1) by (cases ds) (simp_all add: deref_def)
  ultimately show ?thesis using assms(4) by (auto simp: head_base_def)
next
  case False
  obtain c ds' where ds: "ds = c # ds'" using assms(1) by (cases ds) auto
  then have "hex_prefixed (pfx @ ds @ rest)" using False assms(2,4) by (auto simp: hex_prefixed_def)
  then show ?thesis using False assms(4) by (auto simp: head_base_def)
qed

lemma subject_head:
  assumes "subject nptr base neg b ds rest"
  shows "strto_head nptr base = (neg, b, ds @ rest)" "digits b (ds @ rest) = ds"
proof -
  obtain ws sign pfx where n: "nptr = ws @ sign @ pfx @ ds @ rest" "set ws \<subseteq> white_space"
    and sign: "sign \<in> (if neg then {[0x2d]} else {[], [0x2b]})"
    and ds: "ds \<noteq> []" "\<forall>c \<in> set ds. digit_below b c" "rest \<noteq> [] \<longrightarrow> \<not> digit_below b (hd rest)"
    and pfx: "if pfx = [] then \<not> (base \<in> {0, 16} \<and> hex_prefixed (ds @ rest)) \<and> b = (if base \<noteq> 0 then base else if hd ds = 0x30 then 8 else 10)
     else base \<in> {0, 16} \<and> pfx \<in> {[0x30, 0x78], [0x30, 0x58]} \<and> b = 16"
    using assms unfolding subject_def by (simp only: list.map chars) blast
  let ?s = "pfx @ ds @ rest"
  have hd: "?s \<noteq> []" "\<not> isspace (hd ?s)" "hd ?s \<noteq> 0x2d" "hd ?s \<noteq> 0x2b"
    using ds(1,2) pfx digit_below_char [of b "hd ds"] by (cases "pfx = []"; auto simp: isspace_def)+
  then have "skip_space nptr = sign @ ?s"
    unfolding n(1) skip_space_append [OF n(2)] using sign by (intro skip_space_stop) (auto simp: isspace_def split: if_splits)
  moreover have "deref ?s = hd ?s" using hd(1) by (cases ?s) (simp_all add: deref_def)
  then have "head_sign (sign @ ?s) = (neg, ?s)" using sign hd by (auto simp: head_sign_def deref_def split: if_splits)
  ultimately show "strto_head nptr base = (neg, b, ds @ rest)" using head_base_subject [OF ds pfx] by (simp add: strto_head_parts)
  show "digits b (ds @ rest) = ds" unfolding digits_eq using ds(2,3) by (simp add: takeWhile_append2) (cases rest; simp)
qed

lemma head_sign_split: "head_sign t = (neg, s) \<Longrightarrow> \<exists>sign. t = sign @ s \<and> sign \<in> (if neg then {[0x2d]} else {[], [0x2b]})"
  by (cases t) (auto simp: head_sign_def deref_def split: if_splits)

lemma head_subject:
  assumes "strto_head nptr base = (neg, b, s)" "digits b s \<noteq> []"
  shows "subject nptr base neg b (digits b s) (drop (length (digits b s)) s)"
proof -
  let ?ds = "digits b s" and ?rest = "drop (length (digits b s)) s"
  obtain ws where ws: "nptr = ws @ skip_space nptr" "set ws \<subseteq> white_space" using skip_space_split by blast
  obtain s1 where s1: "head_sign (skip_space nptr) = (neg, s1)" "head_base base s1 = (b, s)"
    using assms(1) by (auto simp: strto_head_parts split: prod.splits)
  obtain sign where sign: "skip_space nptr = sign @ s1" "sign \<in> (if neg then {[0x2d]} else {[], [0x2b]})"
    using head_sign_split [OF s1(1)] by blast
  have split: "?ds @ ?rest = s" unfolding digits_eq dropWhile_eq_drop [symmetric] by simp
  have rest: "?rest \<noteq> [] \<longrightarrow> \<not> digit_below b (hd ?rest)"
    unfolding digits_eq dropWhile_eq_drop [symmetric] using hd_dropWhile [of "digit_below b" s] by blast
  have "\<exists>pfx. s1 = pfx @ s \<and> (if pfx = [] then \<not> (base \<in> {0, 16} \<and> hex_prefixed s) \<and>
        b = (if base \<noteq> 0 then base else if hd ?ds = 0x30 then 8 else 10)
      else base \<in> {0, 16} \<and> pfx \<in> {[0x30, 0x78], [0x30, 0x58]} \<and> b = 16)"
  proof (cases "(base = 0 \<or> base = 16) \<and> hex_prefixed s1")
    case True
    then obtain x c r where "s1 = [0x30, x] @ c # r" "x \<in> {0x78, 0x58}" by (auto simp: hex_prefixed_def)
    then show ?thesis using True s1(2) by (intro exI [of _ "[0x30, x]"]) (auto simp: head_base_def)
  next
    case False
    have "hd ?ds = deref s" using assms(2) by (cases s) (auto simp: digits_Cons deref_def split: option.splits if_splits)
    then show ?thesis using False s1(2) by (intro exI [of _ "[]"]) (auto simp: head_base_def split: if_splits)
  qed
  moreover have e: "hex_prefixed (?ds @ ?rest) = hex_prefixed s" by (rule arg_cong [OF split])
  ultimately obtain pfx where pfx: "s1 = pfx @ s" "if pfx = [] then \<not> (base \<in> {0, 16} \<and> hex_prefixed (?ds @ ?rest)) \<and>
        b = (if base \<noteq> 0 then base else if hd ?ds = 0x30 then 8 else 10)
      else base \<in> {0, 16} \<and> pfx \<in> {[0x30, 0x78], [0x30, 0x58]} \<and> b = 16"
    unfolding e by blast
  have "nptr = ws @ sign @ pfx @ ?ds @ ?rest" using ws(1) unfolding sign(1) pfx(1) by (simp only: append_assoc split)
  moreover have "\<forall>c \<in> set ?ds. digit_below b c" unfolding digits_eq by (auto dest: set_takeWhileD)
  ultimately show ?thesis unfolding subject_def list.map chars
    by (intro exI [of _ ws] exI [of _ sign] exI [of _ pfx] conjI ws(2) sign(2) rest pfx(2) assms(2))
qed

lemma number_denoted:
  assumes "\<forall>c \<in> set ds. digit_below b c"
  shows "number b ds = denoted b ds"
proof -
  have "foldl (\<lambda>n c. n * b + f c) 0 ds = (\<Sum>i<length ds. f (ds ! i) * b ^ (length ds - Suc i))" for f :: "int \<Rightarrow> int"
  proof (induction ds rule: rev_induct)
    case (snoc c ds)
    have "(\<Sum>i<length ds. f ((ds @ [c]) ! i) * b ^ (length ds - i)) = (\<Sum>i<length ds. f (ds ! i) * b ^ (length ds - Suc i)) * b"
      unfolding sum_distrib_right
    proof (rule sum.cong)
      fix i assume "i \<in> {..<length ds}"
      then have "length ds - i = Suc (length ds - Suc i)" "(ds @ [c]) ! i = ds ! i" by (simp_all add: nth_append)
      then show "f ((ds @ [c]) ! i) * b ^ (length ds - i) = f (ds ! i) * b ^ (length ds - Suc i) * b" by simp
    qed simp
    then show ?case using snoc by simp
  qed simp
  then show ?thesis by (simp add: number_def denoted_def digit_value_eq)
qed

text \<open>The result of a conversion, given the subject or its absence.\<close>

lemma result_subject:
  assumes "subject nptr base neg b ds rest"
  shows "StrToI_result tmin tmax nptr base =
    (let n = (if neg then - denoted b ds else denoted b ds)
     in \<lparr>p_value = max tmin (min tmax n), p_end = length nptr - length rest, p_errno = (if n < tmin \<or> tmax < n then Some ERANGE else None)\<rparr>)"
    "StrToU_result nptr base =
    (let n = denoted b ds
     in \<lparr>p_value = (if 2 ^ 64 \<le> n then - 1 else if neg then - of_int n else of_int n), p_end = length nptr - length rest,
         p_errno = (if 2 ^ 64 \<le> n then Some ERANGE else None)\<rparr>)"
proof -
  note h = subject_head [OF assms]
  have ds: "\<forall>c \<in> set ds. digit_below b c" "ds \<noteq> []" "length ds + length rest \<le> length nptr" using assms by (auto simp: subject_def)
  have "consumed nptr b (ds @ rest) = length nptr - length rest" using h(2) ds(2,3) by (simp add: consumed_def)
  then show "StrToI_result tmin tmax nptr base =
    (let n = (if neg then - denoted b ds else denoted b ds)
     in \<lparr>p_value = max tmin (min tmax n), p_end = length nptr - length rest, p_errno = (if n < tmin \<or> tmax < n then Some ERANGE else None)\<rparr>)"
    "StrToU_result nptr base =
    (let n = denoted b ds
     in \<lparr>p_value = (if 2 ^ 64 \<le> n then - 1 else if neg then - of_int n else of_int n), p_end = length nptr - length rest,
         p_errno = (if 2 ^ 64 \<le> n then Some ERANGE else None)\<rparr>)"
    unfolding StrToI_result_def StrToU_result_def h prod.case number_denoted [OF ds(1)] by simp_all
qed

lemma result_no_subject:
  assumes "\<nexists>neg b ds rest. subject nptr base neg b ds rest" "tmin \<le> 0" "0 \<le> tmax"
  shows "StrToI_result tmin tmax nptr base = \<lparr>p_value = 0, p_end = 0, p_errno = None\<rparr>"
    "StrToU_result nptr base = \<lparr>p_value = 0, p_end = 0, p_errno = None\<rparr>"
proof -
  obtain neg b s where h: "strto_head nptr base = (neg, b, s)" by (cases "strto_head nptr base") auto
  then have "digits b s = []" using head_subject [OF h] assms(1) by blast
  then show "StrToI_result tmin tmax nptr base = \<lparr>p_value = 0, p_end = 0, p_errno = None\<rparr>"
    "StrToU_result nptr base = \<lparr>p_value = 0, p_end = 0, p_errno = None\<rparr>"
    using assms(2,3) by (simp_all add: StrToI_result_def StrToU_result_def h consumed_def)
qed

section \<open>Properties\<close>

text \<open>C14. Parsing signed integers. \<open>strtol\<close>, and with it \<open>strtoll\<close> and \<open>strtoimax\<close>, never overflows while
  it accumulates the digits. If the string has a subject for the base, the result is the number its digits denote, with
  its sign, brought into the range of the type, with \<open>ERANGE\<close> exactly when it lay outside, and the place
  where the subject ends. If it has none, the result is zero and the place is the start of the string. A bad base
  gives zero and \<open>EINVAL\<close>.\<close>

theorem strtol_correct:
  "(base < 0 \<or> base = 1 \<or> base > 36 \<longrightarrow> strtol s base = Some \<lparr>p_value = 0, p_end = 0, p_errno = Some EINVAL\<rparr>) \<and>
   (\<not> (base < 0 \<or> base = 1 \<or> base > 36) \<longrightarrow>
      (\<forall>neg b ds rest. subject s base neg b ds rest \<longrightarrow>
         strtol s base = Some (let n = (if neg then - denoted b ds else denoted b ds)
           in \<lparr>p_value = max LONG_MIN (min LONG_MAX n), p_end = length s - length rest,
               p_errno = (if n < LONG_MIN \<or> LONG_MAX < n then Some ERANGE else None)\<rparr>)) \<and>
      ((\<nexists>neg b ds rest. subject s base neg b ds rest) \<longrightarrow>
         strtol s base = Some \<lparr>p_value = 0, p_end = 0, p_errno = None\<rparr>)) \<and>
   strtoll s base = strtol s base \<and> strtoimax s base = strtol s base"
proof (intro conjI impI allI)
  show "strtol s base = Some \<lparr>p_value = 0, p_end = 0, p_errno = Some EINVAL\<rparr>" if "base < 0 \<or> base = 1 \<or> base > 36"
    unfolding strtol_def StrToI_def using that by simp
  have r: "strtol s base = Some (StrToI_result LONG_MIN LONG_MAX s base)" if "\<not> (base < 0 \<or> base = 1 \<or> base > 36)"
    unfolding strtol_def using that by (intro StrToI_eq_result) auto
  show "strtol s base = Some (let n = (if neg then - denoted b ds else denoted b ds)
        in \<lparr>p_value = max LONG_MIN (min LONG_MAX n), p_end = length s - length rest,
            p_errno = (if n < LONG_MIN \<or> LONG_MAX < n then Some ERANGE else None)\<rparr>)"
    if "\<not> (base < 0 \<or> base = 1 \<or> base > 36)" "subject s base neg b ds rest" for neg b ds rest
    unfolding r [OF that(1)] result_subject(1) [OF that(2)] ..
  show "strtol s base = Some \<lparr>p_value = 0, p_end = 0, p_errno = None\<rparr>"
    if "\<not> (base < 0 \<or> base = 1 \<or> base > 36)" "\<nexists>neg b ds rest. subject s base neg b ds rest"
    unfolding r [OF that(1)] by (subst result_no_subject(1) [OF that(2)]) simp_all
qed (simp_all add: strtol_def strtoll_def strtoimax_def)

lemma subject_example:
  "subject (map of_char '' -0x1Fg'') 0 True 16 (map of_char ''1F'') (map of_char ''g'')"
  unfolding subject_def
proof (intro exI conjI)
  show "map of_char '' -0x1Fg'' = map of_char '' '' @ map of_char ''-'' @ map of_char ''0x'' @ map of_char ''1F'' @ map of_char ''g''"
    by simp
  show "\<forall>c \<in> set (map of_char ''1F''). digit_below 16 c" "map of_char ''g'' \<noteq> [] \<longrightarrow> \<not> digit_below 16 (hd (map of_char ''g''))"
    by (simp_all add: digit_below_eq digit_of_def isdigit_def isalpha_def isupper_def of_char_def)
qed (simp_all add: white_space_def of_char_def)

lemma denoted_example: "denoted 16 (map of_char ''1F'') = 31"
  by (simp add: number_denoted [symmetric] digit_below_eq number_def digit_of_def isdigit_def isalpha_def isupper_def of_char_def)

theorem strtol_correct_witness:
  "strtol (map of_char '' -0x1Fg'') 0 = Some \<lparr>p_value = - 31, p_end = 6, p_errno = None\<rparr>"
  using strtol_correct [of 0 "map of_char '' -0x1Fg''", THEN conjunct2, THEN conjunct1] subject_example denoted_example by simp

text \<open>C25. Parsing unsigned integers. \<open>strtoul\<close>, and with it \<open>strtoull\<close> and \<open>strtoumax\<close>, gives the number that the digits
  of the subject denote when it fits into 64 bits, negated modulo \<open>2 ^ 64\<close> after a minus sign, and otherwise
  the largest value with \<open>ERANGE\<close>, whatever the sign; no multiplication wraps around unnoticed. Without a
  subject the result is zero and the place is the start of the string; a bad base gives zero and \<open>EINVAL\<close>.\<close>

theorem strtoul_correct:
  "(base < 0 \<or> base = 1 \<or> base > 36 \<longrightarrow> strtoul s base = \<lparr>p_value = 0, p_end = 0, p_errno = Some EINVAL\<rparr>) \<and>
   (\<not> (base < 0 \<or> base = 1 \<or> base > 36) \<longrightarrow>
      (\<forall>neg b ds rest. subject s base neg b ds rest \<longrightarrow>
         strtoul s base = (let n = denoted b ds
           in \<lparr>p_value = (if 2 ^ 64 \<le> n then - 1 else if neg then - of_int n else of_int n),
               p_end = length s - length rest, p_errno = (if 2 ^ 64 \<le> n then Some ERANGE else None)\<rparr>)) \<and>
      ((\<nexists>neg b ds rest. subject s base neg b ds rest) \<longrightarrow>
         strtoul s base = \<lparr>p_value = 0, p_end = 0, p_errno = None\<rparr>)) \<and>
   strtoull s base = strtoul s base \<and> strtoumax s base = strtoul s base"
proof (intro conjI impI allI)
  show "strtoul s base = \<lparr>p_value = 0, p_end = 0, p_errno = Some EINVAL\<rparr>" if "base < 0 \<or> base = 1 \<or> base > 36"
    unfolding strtoul_def StrToU_def using that by simp
  show "strtoul s base = (let n = denoted b ds
      in \<lparr>p_value = (if 2 ^ 64 \<le> n then - 1 else if neg then - of_int n else of_int n),
          p_end = length s - length rest, p_errno = (if 2 ^ 64 \<le> n then Some ERANGE else None)\<rparr>)"
    if "\<not> (base < 0 \<or> base = 1 \<or> base > 36)" "subject s base neg b ds rest" for neg b ds rest
    unfolding strtoul_def StrToU_eq_result [OF that(1)] result_subject(2) [OF that(2)] ..
  show "strtoul s base = \<lparr>p_value = 0, p_end = 0, p_errno = None\<rparr>"
    if "\<not> (base < 0 \<or> base = 1 \<or> base > 36)" "\<nexists>neg b ds rest. subject s base neg b ds rest"
    unfolding strtoul_def StrToU_eq_result [OF that(1)] by (rule result_no_subject(2) [OF that(2), of 0 0]) simp_all
qed (simp_all add: strtoul_def strtoull_def strtoumax_def)

theorem strtoul_correct_witness:
  "strtoul (map of_char '' -0x1Fg'') 0 = \<lparr>p_value = - 31, p_end = 6, p_errno = None\<rparr>"
  using strtoul_correct [of 0 "map of_char '' -0x1Fg''", THEN conjunct2, THEN conjunct1] subject_example denoted_example by simp

text \<open>The short forms. \<open>atol\<close> and \<open>atoll\<close> give the value of \<open>strtol\<close> in base ten; \<open>atoi\<close> gives it too when
  it fits into an \<open>int\<close>, and otherwise its low 32 bits.\<close>

lemma atoi_truncates:
  "\<exists>v. strtol s 10 = Some v \<and> LONG_MIN \<le> p_value v \<and> p_value v \<le> LONG_MAX \<and> atol s = Some (p_value v) \<and>
     atoll s = Some (p_value v) \<and>
     (\<exists>n. atoi s = Some n \<and> n mod 2 ^ 32 = p_value v mod 2 ^ 32 \<and>
       (- (2 ^ 31) \<le> p_value v \<and> p_value v < 2 ^ 31 \<longrightarrow> n = p_value v))"
proof -
  have v: "strtol s 10 = Some (StrToI_result LONG_MIN LONG_MAX s 10)" unfolding strtol_def by (rule StrToI_eq_result) simp_all
  let ?n = "p_value (StrToI_result LONG_MIN LONG_MAX s 10)"
  have r: "LONG_MIN \<le> ?n" "?n \<le> LONG_MAX"
    by (simp_all add: StrToI_result_def Let_def split: prod.splits)
  let ?i = "(?n + 2 ^ 31) mod 2 ^ 32 - 2 ^ 31"
  have i: "atoi s = Some ?i" unfolding atoi_def v by (subst option.map) (subst int_word_sint, simp)
  moreover have "?i mod 2 ^ 32 = ?n mod 2 ^ 32" by (simp only: mod_diff_left_eq) simp
  moreover have "?i = ?n" if "- (2 ^ 31) \<le> ?n" "?n < 2 ^ 31" using that by (subst mod_pos_pos_trivial) simp_all
  moreover have "atol s = Some ?n" "atoll s = Some ?n" using v by (simp_all add: atol_def atoll_def strtoll_def strtol_def)
  ultimately show ?thesis using v r by blast
qed

end
