(* ===== verification/Property_Seqlock.thy ===== *)
theory Property_Seqlock
  imports Bionic_Futex
begin

text \<open>
  Reading, updating and waiting for one system property (\<open>ReadMutablePropertyValue\<close>, \<open>Update\<close> and \<open>Wait\<close>
  of \<open>system_properties.cpp\<close>), as steps of concurrent threads. One thread, the property service,
  updates; any others read and wait. Copies go byte by byte. \<open>committed\<close> and \<open>stores\<close> of the shared
  state and \<open>seen\<close> and \<open>span\<close> of a thread observe the run; the code has none of them: the value of the
  last finished update, the number of stores to the serial, and what these were when a read
  ended. Memory is sequentially consistent, as the fences of the code are meant to make it.
\<close>

section \<open>The shared state\<close>

abbreviation (input) PROP_VALUE_MAX :: nat where "PROP_VALUE_MAX \<equiv> 92"
abbreviation (input) NUL :: char where "NUL \<equiv> CHR 0x00"

definition SERIAL_DIRTY :: "u32 \<Rightarrow> bool" where
  "SERIAL_DIRTY serial \<longleftrightarrow> serial AND 1 \<noteq> 0"

definition SERIAL_VALUE_LEN :: "u32 \<Rightarrow> nat" where
  "SERIAL_VALUE_LEN serial = unat (drop_bit 24 serial)"

text \<open>The two words that threads wait for: the serial of the property and that of the area.\<close>

datatype sp_word = PropSerial | AreaSerial

record 'k sp_state =
  sp_serial :: u32
  sp_value :: string
  sp_backup :: string
  sp_area_serial :: u32
  sp_futex :: 'k
  sp_area_futex :: 'k
  committed :: string
  stores :: nat

definition word_of :: "sp_word \<Rightarrow> 'k sp_state \<Rightarrow> u32" where
  "word_of w g = (case w of PropSerial \<Rightarrow> sp_serial g | AreaSerial \<Rightarrow> sp_area_serial g)"

definition futex_of :: "sp_word \<Rightarrow> 'k sp_state \<Rightarrow> 'k" where
  "futex_of w g = (case w of PropSerial \<Rightarrow> sp_futex g | AreaSerial \<Rightarrow> sp_area_futex g)"

definition set_futex :: "sp_word \<Rightarrow> 'k \<Rightarrow> 'k sp_state \<Rightarrow> 'k sp_state" where
  "set_futex w k g = (case w of PropSerial \<Rightarrow> g\<lparr>sp_futex := k\<rparr> | AreaSerial \<Rightarrow> g\<lparr>sp_area_futex := k\<rparr>)"

text \<open>Storing to the serial, counted.\<close>

definition store_serial :: "u32 \<Rightarrow> 'k sp_state \<Rightarrow> 'k sp_state" where
  "store_serial s g = g\<lparr>sp_serial := s, stores := stores g + 1\<rparr>"

section \<open>Threads\<close>

datatype sp_pc =
    SpIdle
  | UpLoad string
  | UpBackup string u32 nat
  | UpDirty string u32
  | UpCopy string u32 nat
  | UpClean string u32
  | UpWake
  | UpArea
  | UpAreaWake
  | RdLoad
  | RdCopy u32 nat string nat
  | RdCheck u32 nat string
  | WtWait sp_word u32
  | WtSleep sp_word u32
  | WtCheck sp_word u32

record sp_thread =
  sp_pc :: sp_pc
  sp_ret :: int
  rd_serial :: u32
  rd_buf :: string
  seen :: "string option"
  span :: nat
  wt_new :: u32

definition sp_goto :: "sp_thread \<Rightarrow> sp_pc \<Rightarrow> sp_thread" where
  "sp_goto l pc = l\<lparr>sp_pc := pc\<rparr>"

definition sp_return :: "sp_thread \<Rightarrow> int \<Rightarrow> sp_thread" where
  "sp_return l r = l\<lparr>sp_pc := SpIdle, sp_ret := r\<rparr>"

type_synonym 'k sp_outcomes = "('k sp_state \<times> sp_thread) list"

text \<open>\<open>Update\<close>. The final serial has the new length on top of the counter.\<close>

definition clean_serial :: "nat \<Rightarrow> u32 \<Rightarrow> u32" where
  "clean_serial len serial = push_bit 24 (of_nat len) OR ((serial + 1) AND 0xffffff)"

definition Update_step :: "'k futex_ops \<Rightarrow> 'k sp_state \<Rightarrow> sp_thread \<Rightarrow> 'k sp_outcomes" where
  "Update_step fx g l =
     (case sp_pc l of
        UpLoad v \<Rightarrow>
          if length v \<ge> PROP_VALUE_MAX then [(g, sp_return l (- 1))]
          else [(g, sp_goto l (UpBackup v (sp_serial g) 0))]
      | UpBackup v serial i \<Rightarrow>
          if i < SERIAL_VALUE_LEN serial + 1
          then [(g\<lparr>sp_backup := (sp_backup g)[i := sp_value g ! i]\<rparr>, sp_goto l (UpBackup v serial (i + 1)))]
          else [(g, sp_goto l (UpDirty v (serial OR 1)))]
      | UpDirty v serial \<Rightarrow> [(store_serial serial g, sp_goto l (UpCopy v serial 0))]
      | UpCopy v serial i \<Rightarrow>
          if i < length v + 1
          then [(g\<lparr>sp_value := (sp_value g)[i := (v @ [NUL]) ! i]\<rparr>, sp_goto l (UpCopy v serial (i + 1)))]
          else [(g, sp_goto l (UpClean v serial))]
      | UpClean v serial \<Rightarrow>
          [((store_serial (clean_serial (length v) serial) g)\<lparr>committed := v\<rparr>, sp_goto l UpWake)]
      | UpWake \<Rightarrow>
          map (\<lambda>(k, r). (g\<lparr>sp_futex := k\<rparr>, sp_goto l UpArea)) (fx_wake fx INT_MAX_nat (sp_futex g))
      | UpArea \<Rightarrow> [(g\<lparr>sp_area_serial := sp_area_serial g + 1\<rparr>, sp_goto l UpAreaWake)]
      | UpAreaWake \<Rightarrow>
          map (\<lambda>(k, r). (g\<lparr>sp_area_futex := k\<rparr>, sp_return l 0)) (fx_wake fx INT_MAX_nat (sp_area_futex g))
      | _ \<Rightarrow> [])"

text \<open>\<open>ReadMutablePropertyValue\<close>. A dirty serial sends the copy to the backup area.\<close>

definition Read_step :: "'k sp_state \<Rightarrow> sp_thread \<Rightarrow> 'k sp_outcomes" where
  "Read_step g l =
     (case sp_pc l of
        RdLoad \<Rightarrow> [(g, sp_goto l (RdCopy (sp_serial g) 0 [] (stores g)))]
      | RdCopy serial i buf n \<Rightarrow>
          if i < SERIAL_VALUE_LEN serial + 1
          then [(g, sp_goto l (RdCopy serial (i + 1)
                   (buf @ [if SERIAL_DIRTY serial then sp_backup g ! i else sp_value g ! i]) n))]
          else [(g, sp_goto l (RdCheck serial n buf))]
      | RdCheck serial n buf \<Rightarrow>
          if serial = sp_serial g
          then [(g, (sp_return l 0)\<lparr>rd_serial := serial, rd_buf := buf, seen := Some (committed g), span := stores g - n\<rparr>)]
          else [(g, sp_goto l (RdCopy (sp_serial g) 0 [] (stores g)))]
      | _ \<Rightarrow> [])"

text \<open>\<open>Wait\<close>, on the serial of the property or, with a null \<open>pi\<close> and in \<open>WaitAny\<close>, of the area.\<close>

definition Wait_step :: "'k futex_ops \<Rightarrow> tid \<Rightarrow> 'k sp_state \<Rightarrow> sp_thread \<Rightarrow> 'k sp_outcomes" where
  "Wait_step fx t g l =
     (let result = (\<lambda>w old_serial r. if r = - ETIMEDOUT then sp_return l 0 else sp_goto l (WtCheck w old_serial)) in
      case sp_pc l of
        WtWait w old_serial \<Rightarrow>
          map (\<lambda>(k, r). (set_futex w k g,
                 case r of None \<Rightarrow> sp_goto l (WtSleep w old_serial) | Some r \<Rightarrow> result w old_serial r))
            (fx_wait fx t (word_of w g) old_serial (futex_of w g))
      | WtSleep w old_serial \<Rightarrow>
          map (\<lambda>(k, r). (set_futex w k g, result w old_serial r)) (fx_leave fx t (futex_of w g))
      | WtCheck w old_serial \<Rightarrow>
          [(g, if word_of w g = old_serial then sp_goto l (WtWait w old_serial)
               else (sp_return l 1)\<lparr>wt_new := word_of w g\<rparr>)]
      | _ \<Rightarrow> [])"

text \<open>
  What the threads may call: the service \<open>w\<close> updates to one of \<open>vals\<close>, or updates another property of
  the area, which leaves one of \<open>others\<close> in the backup area; the other threads read, or wait for
  one of \<open>olds\<close> to change.
\<close>

definition sp_step ::
  "'k futex_ops \<Rightarrow> tid \<Rightarrow> string list \<Rightarrow> string list \<Rightarrow> (sp_word \<times> u32) list \<Rightarrow> ('k sp_state, sp_thread) thread_step" where
  "sp_step fx w vals others olds t g l =
     (if t = w then
        if sp_pc l = SpIdle
        then map (\<lambda>v. (g, sp_goto l (UpLoad v))) vals @ map (\<lambda>b. (g\<lparr>sp_backup := b\<rparr>, l)) others
        else Update_step fx g l
      else if sp_pc l = SpIdle
        then (g, sp_goto l RdLoad) # map (\<lambda>(wd, old). (g, sp_goto l (WtWait wd old))) olds
      else Read_step g l @ Wait_step fx t g l)"

section \<open>The serial\<close>

lemma SERIAL_DIRTY_odd: "SERIAL_DIRTY s \<longleftrightarrow> odd (unat s)"
proof -
  have "s AND 1 = 0 \<longleftrightarrow> unat (s AND mask 1) = 0" by (simp add: word_unat_eq_iff)
  also have "\<dots> \<longleftrightarrow> even (unat s)" unfolding unat_and_mask by (simp add: even_iff_mod_2_eq_zero)
  finally show ?thesis by (auto simp: SERIAL_DIRTY_def)
qed

lemma SERIAL_VALUE_LEN_div: "SERIAL_VALUE_LEN s = unat s div 16777216"
  unfolding SERIAL_VALUE_LEN_def unat_drop_bit by simp

lemma serial_or_1:
  fixes s :: u32
  assumes "even (unat s)"
  shows "unat (s OR 1) = unat s + 1"
proof -
  have "s AND 1 = 0" using assms SERIAL_DIRTY_odd [of s] by (simp add: SERIAL_DIRTY_def)
  then have "s OR 1 = s + 1" by (rule or_eq_add_word)
  moreover have "unat s + 1 < 4294967296"
  proof -
    have "unat s \<noteq> 4294967295" using assms by auto
    then show ?thesis using unat_less_exp(3) [of s] by linarith
  qed
  ultimately show ?thesis by (simp add: unat_word_ariths)
qed

lemma clean_serial_unat:
  assumes "n < 92"
  shows "unat (clean_serial n s) = n * 16777216 + (unat s + 1) mod 16777216"
proof -
  let ?c = "(s + 1) AND mask 24 :: u32"
  have c: "unat ?c = (unat s + 1) mod 16777216"
    unfolding unat_and_mask by (simp add: unat_word_ariths mod_mod_cancel)
  have "unat ?c < 2 ^ 24" unfolding c by simp
  from or_push_bit_eq_add [OF this, of "of_nat n"] have "clean_serial n s = ?c + push_bit 24 (of_nat n)"
    by (simp add: clean_serial_def or.commute mask_eq_exp_minus_1)
  moreover have "unat (push_bit 24 (of_nat n) :: u32) = n * 16777216"
    using assms by (simp add: push_bit_eq_mult unat_word_ariths unat_of_nat_small)
  ultimately show ?thesis using c assms by (simp add: unat_word_ariths)
qed

section \<open>The invariant\<close>

text \<open>The first bytes of a buffer are a string with its terminator.\<close>

definition holds :: "string \<Rightarrow> string \<Rightarrow> bool" where
  "holds mem v \<longleftrightarrow> take (length v + 1) mem = v @ [NUL]"

text \<open>The phases of an update: what the service knows at each of its places.\<close>

definition up_dirty :: "sp_pc \<Rightarrow> bool" where
  "up_dirty pc \<longleftrightarrow> (case pc of UpCopy _ _ _ \<Rightarrow> True | UpClean _ _ \<Rightarrow> True | _ \<Rightarrow> False)"

definition up_inv :: "'k sp_state \<Rightarrow> sp_pc \<Rightarrow> bool" where
  "up_inv g pc \<longleftrightarrow>
     (case pc of
        UpBackup v serial i \<Rightarrow> length v < 92 \<and> serial = sp_serial g \<and> i \<le> length (committed g) + 1 \<and>
          take i (sp_backup g) = take i (committed g @ [NUL])
      | UpDirty v serial \<Rightarrow> length v < 92 \<and> serial = sp_serial g OR 1 \<and> holds (sp_backup g) (committed g)
      | UpCopy v serial i \<Rightarrow> length v < 92 \<and> serial = sp_serial g \<and> holds (sp_backup g) (committed g) \<and>
          i \<le> length v + 1 \<and> take i (sp_value g) = take i (v @ [NUL])
      | UpClean v serial \<Rightarrow> length v < 92 \<and> serial = sp_serial g \<and> holds (sp_backup g) (committed g) \<and> holds (sp_value g) v
      | _ \<Rightarrow> True)"

definition sp_inv :: "'k sp_state \<Rightarrow> sp_pc \<Rightarrow> bool" where
  "sp_inv g pc \<longleftrightarrow>
     length (sp_value g) = 92 \<and> length (sp_backup g) = 92 \<and> length (committed g) < 92 \<and>
     unat (sp_serial g) = length (committed g) * 16777216 + stores g mod 16777216 \<and>
     (odd (stores g) \<longleftrightarrow> up_dirty pc) \<and> (\<not> up_dirty pc \<longrightarrow> holds (sp_value g) (committed g)) \<and> up_inv g pc"

text \<open>
  A reader: as long as nobody has stored to the serial since it was read, the bytes copied are
  those of the value that counts.
\<close>

definition rd_inv :: "'k sp_state \<Rightarrow> sp_thread \<Rightarrow> bool" where
  "rd_inv g l \<longleftrightarrow>
     (case sp_pc l of
        RdCopy serial i buf n \<Rightarrow> n \<le> stores g \<and> unat serial mod 16777216 = n mod 16777216 \<and> i \<le> SERIAL_VALUE_LEN serial + 1 \<and>
          (stores g = n \<longrightarrow> serial = sp_serial g \<and> buf = take i (committed g @ [NUL]))
      | RdCheck serial n buf \<Rightarrow> n \<le> stores g \<and> unat serial mod 16777216 = n mod 16777216 \<and>
          (stores g = n \<longrightarrow> serial = sp_serial g \<and> buf = committed g @ [NUL])
      | _ \<Rightarrow> True) \<and>
     (\<forall>v. seen l = Some v \<and> span l < 16777216 \<longrightarrow> rd_buf l = v @ [NUL] \<and> SERIAL_VALUE_LEN (rd_serial l) = length v)"

lemma serial_parts:
  assumes "sp_inv g pc"
  shows "SERIAL_VALUE_LEN (sp_serial g) = length (committed g)" "SERIAL_DIRTY (sp_serial g) \<longleftrightarrow> up_dirty pc"
    "unat (sp_serial g) mod 16777216 = stores g mod 16777216"
proof -
  have u: "unat (sp_serial g) = length (committed g) * 16777216 + stores g mod 16777216"
    and o: "odd (stores g) \<longleftrightarrow> up_dirty pc" using assms by (simp_all add: sp_inv_def)
  show "SERIAL_VALUE_LEN (sp_serial g) = length (committed g)" unfolding SERIAL_VALUE_LEN_div u by simp
  show "SERIAL_DIRTY (sp_serial g) \<longleftrightarrow> up_dirty pc"
  proof -
    have "odd (stores g mod 16777216) \<longleftrightarrow> odd (stores g)" by (simp add: odd_iff_mod_2_eq_one mod_mod_cancel)
    then show ?thesis unfolding SERIAL_DIRTY_odd u o [symmetric] by simp
  qed
  show "unat (sp_serial g) mod 16777216 = stores g mod 16777216" unfolding u by simp
qed

lemma take_update: "i < length xs \<Longrightarrow> take (Suc i) (xs[i := x]) = take i xs @ [x]"
  by (simp add: take_Suc_conv_app_nth)

lemma copy_byte:
  assumes "take i mem = take i xs" "i < length xs" "i < length mem"
  shows "take (Suc i) (mem[i := xs ! i]) = take (Suc i) xs"
  using assms take_update [of i mem "xs ! i"] by (simp add: take_Suc_conv_app_nth)

lemma even_mod_Suc:
  assumes "even n"
  shows "Suc n mod 16777216 = Suc (n mod 16777216)"
proof -
  have "even (n mod 16777216)" using assms by (simp add: even_iff_mod_2_eq_zero mod_mod_cancel)
  then have "Suc (n mod 16777216) \<noteq> 16777216" by (metis even_Suc even_numeral)
  then show ?thesis by (simp add: mod_Suc)
qed

lemma holds_nth: "holds mem v \<Longrightarrow> i < length v + 1 \<Longrightarrow> mem ! i = (v @ [NUL]) ! i"
  unfolding holds_def by (metis nth_take)

text \<open>What a reader copies is the committed value, clean or dirty.\<close>

lemma rd_source:
  assumes inv: "sp_inv g pc" and "i < length (committed g) + 1"
  shows "(if SERIAL_DIRTY (sp_serial g) then sp_backup g ! i else sp_value g ! i) = (committed g @ [NUL]) ! i"
proof (cases "up_dirty pc")
  case True
  then have "holds (sp_backup g) (committed g)" using inv by (auto simp: sp_inv_def up_inv_def up_dirty_def split: sp_pc.splits)
  then show ?thesis using True serial_parts(2) [OF inv] holds_nth assms(2) by simp
next
  case False
  then show ?thesis using inv serial_parts(2) [OF inv] holds_nth assms(2) by (simp add: sp_inv_def)
qed

text \<open>The service keeps its invariant, and the readers' knowledge.\<close>

lemma rd_inv_stores: "rd_inv g l \<Longrightarrow> stores g < stores g' \<Longrightarrow> rd_inv g' l"
  by (auto simp: rd_inv_def split: sp_pc.splits)

lemma rd_inv_same: "rd_inv g l \<Longrightarrow> stores g' = stores g \<Longrightarrow> sp_serial g' = sp_serial g \<Longrightarrow> committed g' = committed g \<Longrightarrow> rd_inv g' l"
  by (simp add: rd_inv_def split: sp_pc.splits)

lemma Update_step_inv:
  assumes inv: "sp_inv g (sp_pc l)" and st: "(g', l') \<in> set (Update_step fx g l)"
  shows "sp_inv g' (sp_pc l') \<and> (stores g < stores g' \<or> stores g' = stores g \<and> sp_serial g' = sp_serial g \<and> committed g' = committed g)"
proof (cases "sp_pc l")
  case (UpLoad v)
  then show ?thesis using st inv
    by (auto simp: Update_step_def sp_goto_def sp_return_def sp_inv_def up_inv_def up_dirty_def split: if_splits)
next
  case (UpBackup v serial i)
  have len: "SERIAL_VALUE_LEN serial = length (committed g)"
    using inv serial_parts(1) [OF inv] UpBackup by (simp add: sp_inv_def up_inv_def)
  have old: "holds (sp_value g) (committed g)" "length (sp_backup g) = 92" "length (committed g) < 92"
    "i \<le> length (committed g) + 1" "take i (sp_backup g) = take i (committed g @ [NUL])"
    using inv UpBackup by (simp_all add: sp_inv_def up_inv_def up_dirty_def)
  show ?thesis
  proof (cases "i < length (committed g) + 1")
    case True
    have "take (Suc i) ((sp_backup g)[i := sp_value g ! i]) = take (Suc i) (committed g @ [NUL])"
      using copy_byte [OF old(5)] old(2,3) True holds_nth [OF old(1) True] by simp
    then show ?thesis using st inv UpBackup True len
      by (auto simp: Update_step_def sp_goto_def sp_inv_def up_inv_def up_dirty_def)
  next
    case False
    then have "holds (sp_backup g) (committed g)" using old by (simp add: holds_def)
    then show ?thesis using st inv UpBackup False len
      by (auto simp: Update_step_def sp_goto_def sp_inv_def up_inv_def up_dirty_def)
  qed
next
  case (UpDirty v serial)
  have "even (stores g)" "serial = sp_serial g OR 1" using inv UpDirty by (simp_all add: sp_inv_def up_inv_def up_dirty_def)
  moreover have "\<not> SERIAL_DIRTY (sp_serial g)" using serial_parts(2) [OF inv] UpDirty by (simp add: up_dirty_def)
  ultimately have "unat serial = length (committed g) * 16777216 + (stores g + 1) mod 16777216"
    using inv serial_or_1 [of "sp_serial g"] even_mod_Suc [of "stores g"] by (simp add: SERIAL_DIRTY_odd sp_inv_def)
  then show ?thesis using st inv UpDirty
    by (auto simp: Update_step_def sp_goto_def sp_inv_def up_inv_def up_dirty_def store_serial_def)
next
  case (UpCopy v serial i)
  have old: "length (sp_value g) = 92" "length v < 92" "i \<le> length v + 1" "take i (sp_value g) = take i (v @ [NUL])"
    using inv UpCopy by (simp_all add: sp_inv_def up_inv_def)
  show ?thesis
  proof (cases "i < length v + 1")
    case True
    have "take (Suc i) ((sp_value g)[i := (v @ [NUL]) ! i]) = take (Suc i) (v @ [NUL])"
      using copy_byte [OF old(4)] old(1,2) True by simp
    then show ?thesis using st inv UpCopy True
      by (auto simp: Update_step_def sp_goto_def sp_inv_def up_inv_def up_dirty_def)
  next
    case False
    then have "holds (sp_value g) v" using old by (simp add: holds_def)
    then show ?thesis using st inv UpCopy False
      by (auto simp: Update_step_def sp_goto_def sp_inv_def up_inv_def up_dirty_def)
  qed
next
  case (UpClean v serial)
  have "length v < 92" "serial = sp_serial g" "odd (stores g)" using inv UpClean by (simp_all add: sp_inv_def up_inv_def up_dirty_def)
  moreover have "(unat (sp_serial g) + 1) mod 16777216 = (stores g + 1) mod 16777216"
    using serial_parts(3) [OF inv] by (metis mod_add_left_eq)
  ultimately have "unat (clean_serial (length v) serial) = length v * 16777216 + (stores g + 1) mod 16777216"
    using clean_serial_unat [of "length v" serial] by simp
  then show ?thesis using st inv UpClean
    by (auto simp: Update_step_def sp_goto_def sp_inv_def up_inv_def up_dirty_def store_serial_def)
qed (use st inv in \<open>auto simp: Update_step_def sp_goto_def sp_return_def sp_inv_def up_inv_def up_dirty_def\<close>)

lemma Read_step_inv:
  assumes inv: "sp_inv g pc" and rd: "rd_inv g l" and st: "(g', l') \<in> set (Read_step g l)"
  shows "g' = g \<and> rd_inv g l'"
proof (cases "sp_pc l")
  case RdLoad
  then show ?thesis using st rd serial_parts [OF inv] by (auto simp: Read_step_def sp_goto_def rd_inv_def)
next
  case (RdCopy serial i buf n)
  have r: "n \<le> stores g" "unat serial mod 16777216 = n mod 16777216" "i \<le> SERIAL_VALUE_LEN serial + 1"
    "stores g = n \<longrightarrow> serial = sp_serial g \<and> buf = take i (committed g @ [NUL])"
    using rd RdCopy by (simp_all add: rd_inv_def)
  show ?thesis
  proof (cases "i < SERIAL_VALUE_LEN serial + 1")
    case True
    have "buf @ [if SERIAL_DIRTY serial then sp_backup g ! i else sp_value g ! i] = take (Suc i) (committed g @ [NUL])"
      if "stores g = n"
      using that r(4) rd_source [OF inv, of i] True serial_parts(1) [OF inv]
        take_Suc_conv_app_nth [of i "committed g @ [NUL]"] by simp
    then show ?thesis using st rd RdCopy True r by (auto simp: Read_step_def sp_goto_def rd_inv_def)
  next
    case False
    then have "buf = committed g @ [NUL]" if "stores g = n" using that r serial_parts(1) [OF inv] by simp
    then show ?thesis using st rd RdCopy False r by (auto simp: Read_step_def sp_goto_def rd_inv_def)
  qed
next
  case (RdCheck serial n buf)
  have r: "n \<le> stores g" "unat serial mod 16777216 = n mod 16777216"
    "stores g = n \<longrightarrow> serial = sp_serial g \<and> buf = committed g @ [NUL]"
    using rd RdCheck by (simp_all add: rd_inv_def)
  show ?thesis
  proof (cases "serial = sp_serial g")
    case True
    have "stores g = n" if "stores g - n < 16777216"
    proof -
      have "n mod 16777216 = stores g mod 16777216" using r(2) serial_parts(3) [OF inv] True by simp
      then have "(stores g - n) mod 16777216 = 0" using r(1) by (metis mod_eq_dvd_iff_nat mod_0_imp_dvd dvd_imp_mod_0)
      then show ?thesis using that r(1) by simp
    qed
    then show ?thesis using st rd RdCheck True r(3) serial_parts(1) [OF inv]
      by (auto simp: Read_step_def sp_return_def rd_inv_def)
  next
    case False
    then show ?thesis using st rd RdCheck serial_parts [OF inv] by (auto simp: Read_step_def sp_goto_def rd_inv_def)
  qed
qed (use st in \<open>simp_all add: Read_step_def\<close>)

lemma Wait_step_quiet:
  assumes "(g', l') \<in> set (Wait_step fx t g l)"
  shows "sp_serial g' = sp_serial g \<and> sp_value g' = sp_value g \<and> sp_backup g' = sp_backup g \<and> committed g' = committed g \<and>
    stores g' = stores g \<and> (rd_inv g l \<longrightarrow> rd_inv g' l')"
proof (cases "sp_pc l")
  case (WtWait wd e)
  then show ?thesis using assms
    by (cases wd) (auto simp: Wait_step_def sp_goto_def sp_return_def set_futex_def rd_inv_def split: option.splits if_splits)
next
  case (WtSleep wd e)
  then show ?thesis using assms
    by (cases wd) (auto simp: Wait_step_def sp_goto_def sp_return_def set_futex_def rd_inv_def split: if_splits)
next
  case (WtCheck wd e)
  then show ?thesis using assms by (auto simp: Wait_step_def sp_goto_def sp_return_def rd_inv_def)
qed (use assms in \<open>simp_all add: Wait_step_def\<close>)

definition seq_inv :: "tid \<Rightarrow> 'k sp_state \<Rightarrow> (tid \<Rightarrow> sp_thread) \<Rightarrow> bool" where
  "seq_inv w g ls \<longleftrightarrow> sp_inv g (sp_pc (ls w)) \<and> (\<forall>t. t \<noteq> w \<longrightarrow> rd_inv g (ls t))"

lemma seq_inv_step:
  assumes o: "\<forall>b \<in> set others. length b = 92" and inv: "seq_inv w g ls"
    and st: "(g', l') \<in> set (sp_step fx w vals others olds t g (ls t))"
  shows "seq_inv w g' (ls(t := l'))"
proof (cases "t = w")
  case True
  note i = inv [unfolded seq_inv_def]
  have "sp_inv g' (sp_pc l') \<and> (stores g < stores g' \<or> stores g' = stores g \<and> sp_serial g' = sp_serial g \<and> committed g' = committed g)"
  proof (cases "sp_pc (ls w) = SpIdle")
    case idle: True
    then show ?thesis using st True i o
      by (auto simp: sp_step_def sp_goto_def sp_inv_def up_inv_def up_dirty_def)
  next
    case False
    then show ?thesis using st True i Update_step_inv [of g "ls w" g' l' fx] by (simp add: sp_step_def)
  qed
  then show ?thesis using True i rd_inv_stores [of g _ g'] rd_inv_same [of g _ g'] by (auto simp: seq_inv_def)
next
  case False
  have i: "sp_inv g (sp_pc (ls w))" "rd_inv g (ls t)" "\<And>u. u \<noteq> w \<Longrightarrow> rd_inv g (ls u)" using inv False by (simp_all add: seq_inv_def)
  consider "g' = g" "rd_inv g l'" | "(g', l') \<in> set (Wait_step fx t g (ls t))"
    using st False Read_step_inv [OF i(1,2)] i(2) by (auto simp: sp_step_def sp_goto_def rd_inv_def split: if_splits)
  then show ?thesis
  proof cases
    case 1
    then show ?thesis using i False by (simp add: seq_inv_def)
  next
    case 2
    from Wait_step_quiet [OF this] have same: "stores g' = stores g" "sp_serial g' = sp_serial g" "committed g' = committed g"
      "sp_value g' = sp_value g" "sp_backup g' = sp_backup g" "rd_inv g' l'" using i(2) by auto
    then have "sp_inv g' (sp_pc (ls w))" using i(1) by (simp add: sp_inv_def up_inv_def split: sp_pc.splits)
    then show ?thesis using same i(3) rd_inv_same [of g _ g'] False by (auto simp: seq_inv_def)
  qed
qed

interpretation seqlock: par_invariant "sp_step fx w vals others olds"
  "\<lambda>g ls. (\<forall>b \<in> set others. length b = 92) \<and> seq_inv w g ls" for fx w vals others olds
  by unfold_locales (use seq_inv_step in blast)

text \<open>Only values that were passed to \<open>Update\<close> are ever committed.\<close>

definition up_value :: "sp_pc \<Rightarrow> string option" where
  "up_value pc = (case pc of UpLoad v \<Rightarrow> Some v | UpBackup v _ _ \<Rightarrow> Some v | UpDirty v _ \<Rightarrow> Some v
     | UpCopy v _ _ \<Rightarrow> Some v | UpClean v _ \<Rightarrow> Some v | _ \<Rightarrow> None)"

definition known :: "string set \<Rightarrow> tid \<Rightarrow> string set \<Rightarrow> 'k sp_state \<Rightarrow> (tid \<Rightarrow> sp_thread) \<Rightarrow> bool" where
  "known V w S g ls \<longleftrightarrow> committed g \<in> S \<and> (\<forall>v. up_value (sp_pc (ls w)) = Some v \<longrightarrow> v \<in> V) \<and> (\<forall>t v. seen (ls t) = Some v \<longrightarrow> v \<in> S)"

lemma known_step:
  assumes k: "known (set vals) w (insert v0 (set vals)) g ls"
    and st: "(g', l') \<in> set (sp_step fx w vals others olds t g (ls t))"
  shows "known (set vals) w (insert v0 (set vals)) g' (ls(t := l'))"
proof (cases "t = w")
  case True
  have up: "(\<forall>v. up_value (sp_pc l') = Some v \<longrightarrow> v \<in> set vals) \<and> committed g' \<in> insert v0 (set vals) \<and> seen l' = seen (ls w)"
  proof (cases "sp_pc (ls w) = SpIdle")
    case idle: True
    then show ?thesis using st k True by (auto simp: sp_step_def sp_goto_def known_def up_value_def)
  next
    case False
    then have "(g', l') \<in> set (Update_step fx g (ls w))" using st True by (simp add: sp_step_def)
    then show ?thesis using k unfolding Update_step_def
      by (cases "sp_pc (ls w)") (auto simp: known_def sp_goto_def sp_return_def up_value_def store_serial_def split: if_splits)
  qed
  then show ?thesis using k True by (auto simp: known_def)
next
  case False
  have c: "committed g' = committed g \<and> (seen l' = seen (ls t) \<or> seen l' = Some (committed g))"
  proof (cases "(g', l') \<in> set (Wait_step fx t g (ls t))")
    case True
    then show ?thesis using Wait_step_quiet [OF True]
      by (cases "sp_pc (ls t)") (auto simp: Wait_step_def sp_goto_def sp_return_def split: option.splits if_splits)
  next
    case nw: False
    show ?thesis
    proof (cases "sp_pc (ls t) = SpIdle")
      case True
      then show ?thesis using st False by (auto simp: sp_step_def sp_goto_def)
    next
      case ni: False
      then have "(g', l') \<in> set (Read_step g (ls t))" using st False nw by (simp add: sp_step_def)
      then show ?thesis by (cases "sp_pc (ls t)") (auto simp: Read_step_def sp_goto_def sp_return_def split: if_splits)
    qed
  qed
  have "v \<in> insert v0 (set vals)" if "seen l' = Some v" for v
    using c k that unfolding known_def by (metis option.inject)
  then show ?thesis using k False c unfolding known_def by (simp del: insert_iff)
qed

interpretation seqlock_values: par_invariant "sp_step fx w vals others olds" "known (set vals) w (insert v0 (set vals))"
  for fx w vals others olds v0
  by unfold_locales (rule known_step)

section \<open>Properties\<close>

text \<open>A property as \<open>prop_info\<close> leaves it, in an area with some serial.\<close>

definition sp_new :: "string \<Rightarrow> u32 \<Rightarrow> 'k \<Rightarrow> 'k sp_state" where
  "sp_new v a k = \<lparr>sp_serial = push_bit 24 (of_nat (length v)), sp_value = v @ replicate (92 - length v) NUL,
     sp_backup = replicate 92 NUL, sp_area_serial = a, sp_futex = k, sp_area_futex = k, committed = v, stores = 0\<rparr>"

definition sp_start :: sp_thread where
  "sp_start = \<lparr>sp_pc = SpIdle, sp_ret = 0, rd_serial = 0, rd_buf = [], seen = None, span = 0, wt_new = 0\<rparr>"

lemma sp_new_inv:
  assumes "length v < 92"
  shows "sp_inv (sp_new v a k) SpIdle"
proof -
  have "unat (push_bit 24 (of_nat (length v)) :: u32) = length v * 16777216"
    using assms by (simp add: push_bit_eq_mult unat_word_ariths unat_of_nat_small)
  moreover have "take (length v + 1) (v @ replicate (92 - length v) NUL) = v @ [NUL]"
    using assms by (cases "92 - length v") simp_all
  ultimately show ?thesis using assms by (simp add: sp_inv_def sp_new_def up_inv_def up_dirty_def holds_def)
qed

text \<open>C5. Reading is atomic. However a read interleaves with the updates of the property, with updates of
  other properties that reuse the backup area, and with other readers, the bytes it returns
  are a complete value with its terminator, namely the one of the last finished update at the
  moment the read ends, and the serial returned has its length. The 24 bits of the counter
  limit this to reads during which the serial is stored less than \<open>2 ^ 24\<close> times.\<close>

theorem property_read_atomic:
  assumes "length v0 < PROP_VALUE_MAX" "\<forall>b \<in> set others. length b = PROP_VALUE_MAX"
    and "par_reach (sp_step fx w vals others olds) (sp_new v0 a k, \<lambda>_. sp_start) (g, ls)"
    and "t \<noteq> w" "seen (ls t) = Some v" "span (ls t) < 2 ^ 24"
  shows "v \<in> insert v0 (set vals) \<and> rd_buf (ls t) = v @ [NUL] \<and> SERIAL_VALUE_LEN (rd_serial (ls t)) = length v"
proof -
  have "seq_inv w (sp_new v0 a k) (\<lambda>_. sp_start)"
    using sp_new_inv [OF assms(1)] by (simp add: seq_inv_def rd_inv_def sp_start_def)
  then have "seq_inv w g ls" using seqlock.par_reach_inv [OF assms(3)] assms(2) by simp
  then have "rd_inv g (ls t)" using assms(4) by (simp add: seq_inv_def)
  moreover have "known (set vals) w (insert v0 (set vals)) (sp_new v0 a k) (\<lambda>_. sp_start)"
    by (simp add: known_def sp_new_def sp_start_def up_value_def)
  then have "known (set vals) w (insert v0 (set vals)) g ls" using seqlock_values.par_reach_inv [OF assms(3)] by simp
  ultimately show ?thesis using assms(5,6) by (auto simp: rd_inv_def known_def)
qed

text \<open>The service takes one update to the point where the property is dirty and half copied; a reader that
  started before it still gets the old value.\<close>

lemmas sp_run_simps = sp_step_def Update_step_def Read_step_def Wait_step_def sp_goto_def sp_return_def sp_new_def sp_start_def
  store_serial_def SERIAL_VALUE_LEN_div SERIAL_DIRTY_odd Let_def fun_upd_twist

theorem property_read_atomic_witness:
  "\<exists>g ls. par_reach (sp_step futex_queue 7 [''A''] [] []) (sp_new [] 0 [], \<lambda>_. sp_start) (g, ls) \<and>
     sp_pc (ls 7) = UpCopy ''A'' 1 0 \<and> seen (ls 3) = Some [] \<and> rd_buf (ls 3) = [] @ [NUL] \<and>
     SERIAL_VALUE_LEN (rd_serial (ls 3)) = 0"
proof -
  let ?g = "(sp_new [] 0 ([] :: tid list))\<lparr>sp_serial := 1, stores := 1\<rparr>"
  let ?ls = "(\<lambda>_ :: tid. sp_start)(3 := sp_start\<lparr>rd_serial := 1, rd_buf := [NUL], seen := Some [], span := 0\<rparr>,
      7 := sp_start\<lparr>sp_pc := UpCopy ''A'' 1 0\<rparr>)"
  have same: "(replicate 92 NUL)[0 := NUL] = replicate 92 NUL" using list_update_id [of "replicate 92 NUL" 0] by simp
  have "par_run (sp_step futex_queue 7 [''A''] [] []) (sp_new [] 0 [], \<lambda>_. sp_start)
      [(7, 0), (7, 0), (7, 0), (7, 0), (7, 0), (3, 0), (3, 0), (3, 0), (3, 0), (3, 0)] = Some (?g, ?ls)"
    by (simp add: sp_run_simps same)
  note reach = par_run_reach [OF this]
  from property_read_atomic [OF _ _ reach, where t = 3 and v = "[]"] have
    "rd_buf (?ls 3) = [] @ [NUL] \<and> SERIAL_VALUE_LEN (rd_serial (?ls 3)) = 0" by simp
  with reach show ?thesis by (intro exI [of _ ?g] exI [of _ ?ls]) simp
qed

section \<open>Waiting\<close>

text \<open>The service is going to wake everybody who waits for this word.\<close>

definition will_wake :: "sp_word \<Rightarrow> sp_pc \<Rightarrow> bool" where
  "will_wake wd pc \<longleftrightarrow>
     (case wd of PropSerial \<Rightarrow> up_dirty pc \<or> pc = UpWake | AreaSerial \<Rightarrow> pc = UpAreaWake)"

lemma futex_of_set [simp]:
  "futex_of wd (set_futex wd k g) = k"
  "x \<noteq> wd \<Longrightarrow> futex_of wd (set_futex x k g) = futex_of wd g"
  "word_of wd (set_futex x k g) = word_of wd g"
  by (cases x; cases wd; simp add: futex_of_def set_futex_def word_of_def)+

definition sleep_inv :: "'k futex_ops \<Rightarrow> tid \<Rightarrow> 'k sp_state \<Rightarrow> (tid \<Rightarrow> sp_thread) \<Rightarrow> bool" where
  "sleep_inv fx w g ls \<longleftrightarrow> futex_laws fx \<and>
     (\<forall>wd u. fx_asleep fx (futex_of wd g) u \<longrightarrow>
        u \<noteq> w \<and> (\<exists>e. sp_pc (ls u) = WtSleep wd e \<and> (word_of wd g = e \<or> will_wake wd (sp_pc (ls w)))))"

text \<open>What a step of the service does to a word and to the threads queued on it.\<close>

lemma Update_step_futex:
  assumes laws: "futex_laws fx" and st: "(g', l') \<in> set (Update_step fx g l)" and "fx_asleep fx (futex_of wd g') u"
  shows "fx_asleep fx (futex_of wd g) u \<and> (word_of wd g' = word_of wd g \<and> (will_wake wd (sp_pc l) \<longrightarrow> will_wake wd (sp_pc l')) \<or> will_wake wd (sp_pc l'))"
proof (cases "sp_pc l")
  case UpWake
  then obtain k r where k: "(k, r) \<in> set (fx_wake fx INT_MAX_nat (sp_futex g))" "g' = g\<lparr>sp_futex := k\<rparr>" "l' = sp_goto l UpArea"
    using st by (auto simp: Update_step_def)
  then show ?thesis using assms(3) futex_wakeD(3) [OF laws k(1)] UpWake
    by (cases wd) (auto simp: futex_of_def word_of_def will_wake_def up_dirty_def)
next
  case UpAreaWake
  then obtain k r where k: "(k, r) \<in> set (fx_wake fx INT_MAX_nat (sp_area_futex g))" "g' = g\<lparr>sp_area_futex := k\<rparr>" "l' = sp_return l 0"
    using st by (auto simp: Update_step_def)
  then show ?thesis using assms(3) futex_wakeD(3) [OF laws k(1)] UpAreaWake
    by (cases wd) (auto simp: futex_of_def word_of_def will_wake_def up_dirty_def)
qed (use st assms(3) in \<open>cases wd; auto simp: Update_step_def futex_of_def word_of_def will_wake_def up_dirty_def sp_goto_def
    sp_return_def store_serial_def split: if_splits\<close>)+

text \<open>What a step of \<open>Wait\<close> does to them.\<close>

lemma Wait_step_futex:
  assumes laws: "futex_laws fx" and st: "(g', l') \<in> set (Wait_step fx t g l)" and u: "fx_asleep fx (futex_of wd g') u"
    and own: "fx_asleep fx (futex_of wd g) t \<Longrightarrow> \<exists>e. sp_pc l = WtSleep wd e"
  shows "u \<noteq> t \<and> fx_asleep fx (futex_of wd g) u \<or> u = t \<and> sp_pc l' = WtSleep wd (word_of wd g)"
proof (cases "sp_pc l")
  case (WtWait x e)
  then obtain k r where k: "(k, r) \<in> set (fx_wait fx t (word_of x g) e (futex_of x g))" "g' = set_futex x k g"
    and l: "r = None \<longrightarrow> l' = sp_goto l (WtSleep x e)" using st by (auto simp: Wait_step_def split: option.splits)
  show ?thesis
  proof (cases "x = wd")
    case True
    then have u': "fx_asleep fx k u" using u k(2) by simp
    show ?thesis
    proof (cases "u = t")
      case ut: True
      have "\<not> fx_asleep fx (futex_of x g) t" using own WtWait True by auto
      with futex_waitD(2,3) [OF laws k(1)] u' ut l True show ?thesis by (simp add: sp_goto_def)
    next
      case False
      then show ?thesis using futex_waitD(1) [OF laws k(1), of u] u' True by simp
    qed
  next
    case False
    then show ?thesis using u k(2) own WtWait by auto
  qed
next
  case (WtSleep x e)
  then obtain k r where k: "(k, r) \<in> set (fx_leave fx t (futex_of x g))" "g' = set_futex x k g"
    using st by (auto simp: Wait_step_def)
  show ?thesis
  proof (cases "x = wd")
    case True
    then show ?thesis using u k(2) futex_leaveD(1) [OF laws k(1), of u] futex_leaveD(2) [OF laws k(1)] by auto
  next
    case False
    then show ?thesis using u k(2) own WtSleep by auto
  qed
next
  case (WtCheck x e)
  then show ?thesis using st u own by (auto simp: Wait_step_def)
qed (use st in \<open>simp_all add: Wait_step_def\<close>)

lemma Wait_step_word: "(g', l') \<in> set (Wait_step fx t g l) \<Longrightarrow> word_of wd g' = word_of wd g"
  unfolding Wait_step_def by (cases "sp_pc l"; cases wd) auto

lemma sleep_inv_step:
  assumes inv: "sleep_inv fx w g ls" and st: "(g', l') \<in> set (sp_step fx w vals others olds t g (ls t))"
  shows "sleep_inv fx w g' (ls(t := l'))"
proof -
  have laws: "futex_laws fx" using inv by (simp add: sleep_inv_def)
  have old: "u \<noteq> w \<and> (\<exists>e. sp_pc (ls u) = WtSleep wd e \<and> (word_of wd g = e \<or> will_wake wd (sp_pc (ls w))))"
    if "fx_asleep fx (futex_of wd g) u" for wd u using inv that by (simp add: sleep_inv_def)
  have "u \<noteq> w \<and> (\<exists>e. sp_pc ((ls(t := l')) u) = WtSleep wd e \<and> (word_of wd g' = e \<or> will_wake wd (sp_pc ((ls(t := l')) w))))"
    if u: "fx_asleep fx (futex_of wd g') u" for wd u
  proof (cases "t = w")
    case True
    show ?thesis
    proof (cases "sp_pc (ls w) = SpIdle")
      case idle: True
      then have "futex_of wd g' = futex_of wd g" "word_of wd g' = word_of wd g" "\<not> will_wake wd SpIdle"
        using st True by (cases wd; auto simp: sp_step_def futex_of_def word_of_def will_wake_def up_dirty_def)+
      then show ?thesis using old [of wd u] u idle True by auto
    next
      case False
      then have "(g', l') \<in> set (Update_step fx g (ls w))" using st True by (simp add: sp_step_def)
      from Update_step_futex [OF laws this u] old [of wd u] show ?thesis using True by auto
    qed
  next
    case False
    consider "futex_of wd g' = futex_of wd g" "word_of wd g' = word_of wd g" "\<forall>wd e. sp_pc (ls t) \<noteq> WtSleep wd e"
      | "(g', l') \<in> set (Wait_step fx t g (ls t))"
    proof (cases "(g', l') \<in> set (Wait_step fx t g (ls t))")
      case nw: False
      then have "g' = g \<and> (\<forall>wd e. sp_pc (ls t) \<noteq> WtSleep wd e)" using st False
        by (cases "sp_pc (ls t)") (auto simp: sp_step_def Read_step_def split: if_splits)
      then show ?thesis by (intro that(1)) auto
    qed
    then show ?thesis
    proof cases
      case 1
      then have "u \<noteq> t" using old [of wd u] u by auto
      then show ?thesis using old [of wd u] u 1 False by auto
    next
      case 2
      have own: "\<exists>e. sp_pc (ls t) = WtSleep wd e" if "fx_asleep fx (futex_of wd g) t" using old [OF that] by blast
      from Wait_step_futex [OF laws 2 u own] show ?thesis
      proof
        assume "u \<noteq> t \<and> fx_asleep fx (futex_of wd g) u"
        then show ?thesis using old [of wd u] Wait_step_word [OF 2, of wd] False by auto
      next
        assume "u = t \<and> sp_pc l' = WtSleep wd (word_of wd g)"
        then show ?thesis using Wait_step_word [OF 2, of wd] False by auto
      qed
    qed
  qed
  then show ?thesis using laws by (simp add: sleep_inv_def)
qed

interpretation seqlock_sleep: par_invariant "sp_step fx w vals others olds" "sleep_inv fx w" for fx w vals others olds
  by unfold_locales (rule sleep_inv_step)

text \<open>C39. No change of a property goes unnoticed. While the service is not inside \<open>Update\<close>, every thread that is
  asleep in \<open>Wait\<close> waits for a serial to change that still has the value it was called with: whoever
  saw an older serial, of the property or of the whole area, has been woken.\<close>

theorem property_wait_not_missed:
  assumes "futex_laws fx" "\<And>u. \<not> fx_asleep fx k u"
    and "par_reach (sp_step fx w vals others olds) (sp_new v0 a k, \<lambda>_. sp_start) (g, ls)"
    and "sp_pc (ls w) = SpIdle" "fx_asleep fx (futex_of wd g) u"
  shows "u \<noteq> w \<and> sp_pc (ls u) = WtSleep wd (word_of wd g)"
proof -
  have "futex_of x (sp_new v0 a k) = k" for x by (cases x) (simp_all add: futex_of_def sp_new_def)
  then have "sleep_inv fx w (sp_new v0 a k) (\<lambda>_. sp_start)" using assms(1,2) by (simp add: sleep_inv_def)
  then have "sleep_inv fx w g ls" using seqlock_sleep.par_reach_inv [OF assms(3)] by simp
  moreover have "\<not> will_wake wd SpIdle" by (cases wd) (simp_all add: will_wake_def up_dirty_def)
  ultimately show ?thesis using assms(4,5) unfolding sleep_inv_def by metis
qed

text \<open>A thread that waits for the first update of a property to happen.\<close>

theorem property_wait_not_missed_witness:
  "\<exists>g ls. par_reach (sp_step futex_queue 7 [] [] [(PropSerial, 0)]) (sp_new [] 0 [], \<lambda>_. sp_start) (g, ls) \<and>
     fx_asleep futex_queue (futex_of PropSerial g) 3 \<and> sp_pc (ls 3) = WtSleep PropSerial (word_of PropSerial g)"
proof -
  let ?g = "(sp_new [] 0 ([] :: tid list))\<lparr>sp_futex := [3]\<rparr>"
  let ?ls = "(\<lambda>_ :: tid. sp_start)(3 := sp_start\<lparr>sp_pc := WtSleep PropSerial 0\<rparr>)"
  have "par_run (sp_step futex_queue 7 [] [] [(PropSerial, 0)]) (sp_new [] 0 [], \<lambda>_. sp_start) [(3, 1), (3, 0)] = Some (?g, ?ls)"
    by (simp add: sp_run_simps word_of_def futex_of_def set_futex_def futex_queue_def)
  note reach = par_run_reach [OF this]
  have q: "fx_asleep futex_queue (futex_of PropSerial ?g) 3" by (simp add: futex_queue_def futex_of_def)
  have "\<not> fx_asleep futex_queue [] u" for u by (simp add: futex_queue_def)
  from property_wait_not_missed [OF futex_queue_laws this reach _ q] have "sp_pc (?ls 3) = WtSleep PropSerial (word_of PropSerial ?g)"
    by (simp add: sp_start_def)
  with reach q show ?thesis by blast
qed

end
