(* ===== verification/Property_Contexts.thy ===== *)
theory Property_Contexts
  imports Prop_Area Strtol
begin

text \<open>
  How the name of a property leads to the area that holds it: mapping the files of the areas
  (\<open>prop_area.cpp\<close>), the nodes of the security contexts (\<open>context_node.cpp\<close>), and the three kinds of
  contexts (\<open>contexts_pre_split.h\<close>, \<open>contexts_split.cpp\<close>, \<open>contexts_serialized.cpp\<close>). A pointer to a mapped
  area is the name of its file with whether its pages can be written. The answers of the system calls and the parser of the
  serialized contexts, which is another library, are a parameter.
\<close>

section \<open>Mapping the areas\<close>

abbreviation (input) PROP_AREA_MAGIC :: u32 where "PROP_AREA_MAGIC \<equiv> 0x504f5250"
abbreviation (input) PROP_AREA_VERSION :: u32 where "PROP_AREA_VERSION \<equiv> 0xfc6ed0ab"
abbreviation (input) PROP_FILENAME_MAX :: nat where "PROP_FILENAME_MAX \<equiv> 1024"
abbreviation (input) EACCES :: int where "EACCES \<equiv> 13"

record prop_file =
  f_uid :: nat
  f_gid :: nat
  f_mode :: u32
  f_size :: nat
  f_magic :: u32
  f_version :: u32
  f_area :: prop_area

text \<open>The serialized contexts, as their parser shows them.\<close>

record property_info =
  num_contexts :: nat
  context_name :: "nat \<Rightarrow> string"
  context_index :: "string \<Rightarrow> u32"

text \<open>
  What the system answers: \<open>k_create\<close> is the error of creating a file that does not exist, zero for
  none; \<open>k_lines\<close> are the lines of a text file that can be opened.
\<close>

record kernel =
  k_access :: "string \<Rightarrow> bool"
  k_is_dir :: "string \<Rightarrow> bool"
  k_open :: "string \<Rightarrow> bool"
  k_fstat :: "string \<Rightarrow> bool"
  k_create :: "string \<Rightarrow> int"
  k_setxattr :: "string \<Rightarrow> bool"
  k_truncate :: "string \<Rightarrow> bool"
  k_mmap :: "string \<Rightarrow> bool"
  k_anon_mmap :: bool
  k_strndup :: "string \<Rightarrow> bool"
  k_lines :: "string \<Rightarrow> string list option"
  k_property_info :: "property_info option"
  k_uid :: nat
  k_gid :: nat

text \<open>
  The files, what \<open>fsetxattr_failed\<close> points to, and the static members \<open>pa_size_\<close> and \<open>pa_data_size_\<close>, which every
  mapping sets for all areas of the process.
\<close>

record prop_world =
  files :: "string \<Rightarrow> prop_file option"
  fsetxattr_failed :: bool
  static_pa_size :: nat
  static_pa_data_size :: nat

type_synonym pa_ptr = "string \<times> bool"

text \<open>The area a pointer points to, as this process sees it.\<close>

definition area_at :: "pa_ptr \<Rightarrow> prop_world \<Rightarrow> prop_area option" where
  "area_at pa w = map_option (\<lambda>f. (f_area f)\<lparr>pa_data_size := static_pa_data_size w\<rparr>) (files w (fst pa))"

text \<open>\<open>None\<close> is \<open>abort\<close>. An existing file makes the exclusive open fail. The area is mapped for reading and writing.\<close>

definition map_prop_area_rw :: "kernel \<Rightarrow> string \<Rightarrow> prop_world \<Rightarrow> (prop_world \<times> pa_ptr option) option" where
  "map_prop_area_rw K filename w =
     (if files w filename \<noteq> None then Some (w, None)
      else if k_create K filename \<noteq> 0 then if k_create K filename = EACCES then None else Some (w, None)
      else
        let w = (if k_setxattr K filename then w else w\<lparr>fsetxattr_failed := True\<rparr>);
            f = \<lparr>f_uid = k_uid K, f_gid = k_gid K, f_mode = 0x124, f_size = 0, f_magic = 0, f_version = 0, f_area = prop_area_new\<rparr>;
            store = (\<lambda>f w. w\<lparr>files := (files w)(filename \<mapsto> f)\<rparr>) in
        if \<not> k_truncate K filename then Some (store f w, None)
        else
          let w = w\<lparr>static_pa_size := PA_SIZE, static_pa_data_size := PA_SIZE - sizeof_prop_area\<rparr> in
          if \<not> k_mmap K filename then Some (store (f\<lparr>f_size := PA_SIZE\<rparr>) w, None)
          else Some (store (f\<lparr>f_size := PA_SIZE, f_magic := PROP_AREA_MAGIC, f_version := PROP_AREA_VERSION\<rparr>) w, Some (filename, True)))"

text \<open>The size of the file becomes the size of all areas; this one is mapped for reading only.\<close>

definition map_fd_ro :: "kernel \<Rightarrow> string \<Rightarrow> prop_file \<Rightarrow> prop_world \<Rightarrow> prop_world \<times> pa_ptr option" where
  "map_fd_ro K filename f w =
     (if \<not> k_fstat K filename then (w, None)
      else if f_uid f \<noteq> 0 \<or> f_gid f \<noteq> 0 \<or> f_mode f AND 0x12 \<noteq> 0 \<or> f_size f < sizeof_prop_area then (w, None)
      else
        let w = w\<lparr>static_pa_size := f_size f, static_pa_data_size := f_size f - sizeof_prop_area\<rparr> in
        if \<not> k_mmap K filename then (w, None)
        else if f_magic f \<noteq> PROP_AREA_MAGIC \<or> f_version f \<noteq> PROP_AREA_VERSION then (w, None)
        else (w, Some (filename, False)))"

definition map_prop_area :: "kernel \<Rightarrow> string \<Rightarrow> prop_world \<Rightarrow> prop_world \<times> pa_ptr option" where
  "map_prop_area K filename w =
     (case files w filename of
        None \<Rightarrow> (w, None)
      | Some f \<Rightarrow> if k_open K filename then map_fd_ro K filename f w else (w, None))"

section \<open>Context nodes\<close>

record context_node =
  node_context :: string
  node_pa :: "pa_ptr option"
  no_access :: bool

definition ContextNode :: "string \<Rightarrow> context_node" where
  "ContextNode ctx = \<lparr>node_context = ctx, node_pa = None, no_access = False\<rparr>"

text \<open>\<open>%s/%s\<close>.\<close>

definition node_file :: "string \<Rightarrow> string \<Rightarrow> string" where
  "node_file filename ctx = filename @ ''/'' @ ctx"

definition node_open :: "kernel \<Rightarrow> string \<Rightarrow> bool \<Rightarrow> context_node \<Rightarrow> prop_world \<Rightarrow> (prop_world \<times> context_node \<times> bool) option" where
  "node_open K filename access_rw n w =
     (if node_pa n \<noteq> None then Some (w, n, True)
      else if length (node_file filename (node_context n)) \<ge> PROP_FILENAME_MAX then Some (w, n, False)
      else do {
        (w, pa) \<leftarrow> (if access_rw then map_prop_area_rw K (node_file filename (node_context n)) w
                    else Some (map_prop_area K (node_file filename (node_context n)) w));
        Some (w, n\<lparr>node_pa := pa\<rparr>, pa \<noteq> None) })"

definition CheckAccess :: "kernel \<Rightarrow> string \<Rightarrow> context_node \<Rightarrow> bool" where
  "CheckAccess K filename n =
     (if length (node_file filename (node_context n)) \<ge> PROP_FILENAME_MAX then False
      else k_access K (node_file filename (node_context n)))"

definition CheckAccessAndOpen :: "kernel \<Rightarrow> string \<Rightarrow> context_node \<Rightarrow> prop_world \<Rightarrow> (prop_world \<times> context_node \<times> bool) option" where
  "CheckAccessAndOpen K filename n w =
     (if node_pa n = None \<and> \<not> no_access n then
        if \<not> CheckAccess K filename n then Some (w, n\<lparr>no_access := True\<rparr>, False)
        else do {
          (w, n, ok) \<leftarrow> node_open K filename False n w;
          let n = (if ok then n else n\<lparr>no_access := True\<rparr>);
          Some (w, n, node_pa n \<noteq> None) }
      else Some (w, n, node_pa n \<noteq> None))"

definition node_unmap :: "context_node \<Rightarrow> context_node" where
  "node_unmap n = n\<lparr>node_pa := None\<rparr>"

definition node_reset_access :: "kernel \<Rightarrow> string \<Rightarrow> context_node \<Rightarrow> context_node" where
  "node_reset_access K filename n =
     (if \<not> CheckAccess K filename n then (node_unmap n)\<lparr>no_access := True\<rparr> else n\<lparr>no_access := False\<rparr>)"

text \<open>Opening all nodes of a list; the flag tells whether one failed.\<close>

fun open_all :: "kernel \<Rightarrow> string \<Rightarrow> context_node list \<Rightarrow> prop_world \<Rightarrow> (prop_world \<times> context_node list \<times> bool) option" where
  "open_all K filename [] w = Some (w, [], False)"
| "open_all K filename (n # ns) w =
     do { (w, n, ok) \<leftarrow> node_open K filename True n w;
          (w, ns, open_failed) \<leftarrow> open_all K filename ns w;
          Some (w, n # ns, open_failed \<or> \<not> ok) }"

text \<open>Visiting the properties of all nodes of a list that can be opened.\<close>

fun nodes_for_each ::
  "kernel \<Rightarrow> string \<Rightarrow> (pa_ptr \<Rightarrow> nat \<Rightarrow> prop_info \<Rightarrow> 's \<Rightarrow> 's) \<Rightarrow> context_node list \<Rightarrow> prop_world \<Rightarrow> 's \<Rightarrow>
     (prop_world \<times> context_node list \<times> 's) option" where
  "nodes_for_each K filename propfn [] w cookie = Some (w, [], cookie)"
| "nodes_for_each K filename propfn (n # ns) w cookie =
     do { (w, n, ok) \<leftarrow> CheckAccessAndOpen K filename n w;
          cookie \<leftarrow> (case node_pa n of
             None \<Rightarrow> Some cookie
           | Some pa \<Rightarrow> do {
               area \<leftarrow> area_at pa w;
               (cookie, r) \<leftarrow> pa_foreach area (propfn pa) cookie;
               Some cookie });
          (w, ns, cookie) \<leftarrow> nodes_for_each K filename propfn ns w cookie;
          Some (w, n # ns, cookie) }"

section \<open>Contexts from text files\<close>

record contexts_split =
  cs_prefixes :: "(string \<times> string) list"
  cs_contexts :: "context_node list"
  cs_serial :: "pa_ptr option"
  cs_filename :: string

text \<open>A prefix node has its prefix and its context, which is found in the list of contexts.\<close>

fun ListAddAfterLen :: "(string \<times> string) list \<Rightarrow> string \<Rightarrow> string \<Rightarrow> (string \<times> string) list" where
  "ListAddAfterLen [] pfx ctx = [(pfx, ctx)]"
| "ListAddAfterLen ((p, c) # list) pfx ctx =
     (if length p < length pfx \<or> take 1 p = ''*'' then (pfx, ctx) # (p, c) # list
      else (p, c) # ListAddAfterLen list pfx ctx)"

fun ListFind :: "('a \<Rightarrow> bool) \<Rightarrow> 'a list \<Rightarrow> 'a option" where
  "ListFind func [] = None"
| "ListFind func (x # list) = (if func x then Some x else ListFind func list)"

definition is_space :: "char \<Rightarrow> bool" where
  "is_space c = isspace (of_char c)"

text \<open>
  The result is the return value, the entry and the rest of the line. \<open>None\<close> here and below is undefined behaviour:
  the length of the entry, of type \<open>int\<close>, overflows.
\<close>

definition read_spec_entry :: "kernel \<Rightarrow> string \<Rightarrow> (int \<times> string option \<times> string) option" where
  "read_spec_entry K ptr =
     (let ptr = dropWhile is_space ptr;
          entry = takeWhile (\<lambda>c. \<not> is_space c) ptr;
          ptr = dropWhile (\<lambda>c. \<not> is_space c) ptr in
      if length entry \<ge> 2 ^ 31 then None
      else if entry \<noteq> [] then if k_strndup K entry then Some (0, Some entry, ptr) else Some (- 1, None, ptr)
      else Some (0, None, ptr))"

text \<open>
  The line up to its terminator, without its newline, and the length that its end is recognised by, which is
  kept in an \<open>int\<close>. An access before the line and an overflow are undefined.
\<close>

definition spec_line :: "string \<Rightarrow> (string \<times> int) option" where
  "spec_line buffer =
     (let line_buf = takeWhile (\<lambda>c. c \<noteq> CHR 0x00) buffer;
          len = sint (of_nat (length line_buf) :: u32) in
      if len < 1 then None
      else if line_buf ! nat (len - 1) = CHR 0x0a then Some (take (nat (len - 1)) line_buf, len)
      else if len + 1 \<ge> 2 ^ 31 then None
      else Some (line_buf, len + 1))"

text \<open>
  The loop over the entries, at \<open>buf_p\<close> in the line. At the terminator of the line it returns; it would run on
  and store through arguments that were never passed if the length did not fit the line. The
  result has what was stored to the entries in their order.
\<close>

lemma read_spec_entry_less:
  "read_spec_entry K p = Some (rc, e, q) \<Longrightarrow> p \<noteq> [] \<Longrightarrow> length q < length p"
proof -
  assume r: "read_spec_entry K p = Some (rc, e, q)" and "p \<noteq> []"
  let ?p = "dropWhile is_space p"
  have q: "q = dropWhile (\<lambda>c. \<not> is_space c) ?p" using r by (simp add: read_spec_entry_def Let_def split: if_splits)
  show ?thesis
  proof (cases "is_space (hd p)")
    case True
    then have "length ?p < length p" using \<open>p \<noteq> []\<close> by (cases p) (simp_all add: length_dropWhile_le le_imp_less_Suc)
    then show ?thesis using q length_dropWhile_le [of "\<lambda>c. \<not> is_space c" ?p] by simp
  next
    case False
    then show ?thesis using q \<open>p \<noteq> []\<close> by (cases p) (simp_all add: length_dropWhile_le le_imp_less_Suc)
  qed
qed

function read_spec_loop :: "kernel \<Rightarrow> nat \<Rightarrow> int \<Rightarrow> string \<Rightarrow> nat \<Rightarrow> string \<Rightarrow> (int \<times> string option list) option" where
  "read_spec_loop K num_args len line_buf items buf_p =
     (if items < num_args then
        if len - 1 = int (length line_buf - length buf_p) then Some (int items, [])
        else if buf_p = [] then None
        else case read_spec_entry K buf_p of
            None \<Rightarrow> None
          | Some (rc, entry, buf_p) \<Rightarrow>
              if rc < 0 then Some (rc, [entry])
              else do {
                (rc, entries) \<leftarrow> read_spec_loop K num_args len line_buf (if entry \<noteq> None then items + 1 else items) buf_p;
                Some (rc, entry # entries) }
      else Some (int items, []))"
  by pat_completeness auto

termination read_spec_loop
  by (relation "measure (\<lambda>(K, num_args, len, line_buf, items, buf_p). length buf_p)") (auto dest: read_spec_entry_less)

definition read_spec_entries :: "kernel \<Rightarrow> string \<Rightarrow> nat \<Rightarrow> (int \<times> string option list) option" where
  "read_spec_entries K buffer num_args =
     do { (line_buf, len) \<leftarrow> spec_line buffer;
          let buf_p = dropWhile is_space line_buf;
          if buf_p = [] \<or> hd buf_p = CHR ''#'' then Some (0, [])
          else read_spec_loop K num_args len line_buf 0 buf_p }"

text \<open>One line of the file.\<close>

definition add_spec_line :: "kernel \<Rightarrow> string \<Rightarrow> contexts_split \<Rightarrow> contexts_split option" where
  "add_spec_line K buffer cs =
     do { (items, entries) \<leftarrow> read_spec_entries K buffer 2;
          Some (case entries of
              [Some prop_prefix, Some ctx] \<Rightarrow>
                if items \<le> 0 \<or> items = 1 then cs
                else if strncmp prop_prefix ''ctl.'' 4 = 0 then cs
                else
                  let old_context = ListFind (\<lambda>l. node_context l = ctx) (cs_contexts cs);
                      cs = (if old_context \<noteq> None then cs else cs\<lparr>cs_contexts := ContextNode ctx # cs_contexts cs\<rparr>) in
                  cs\<lparr>cs_prefixes := ListAddAfterLen (cs_prefixes cs) prop_prefix ctx\<rparr>
            | _ \<Rightarrow> cs) }"

fun add_spec_lines :: "kernel \<Rightarrow> string list \<Rightarrow> contexts_split \<Rightarrow> contexts_split option" where
  "add_spec_lines K [] cs = Some cs"
| "add_spec_lines K (buffer # lines) cs = do { cs \<leftarrow> add_spec_line K buffer cs; add_spec_lines K lines cs }"

definition InitializePropertiesFromFile :: "kernel \<Rightarrow> string \<Rightarrow> contexts_split \<Rightarrow> (contexts_split \<times> bool) option" where
  "InitializePropertiesFromFile K filename cs =
     (case k_lines K filename of
        None \<Rightarrow> Some (cs, False)
      | Some lines \<Rightarrow> do { cs \<leftarrow> add_spec_lines K lines cs; Some (cs, True) })"

definition split_InitializeProperties :: "kernel \<Rightarrow> contexts_split \<Rightarrow> (contexts_split \<times> bool) option" where
  "split_InitializeProperties K cs =
     do { (cs, ok) \<leftarrow> InitializePropertiesFromFile K ''/property_contexts'' cs;
          if ok then Some (cs, True)
          else if k_access K ''/system/etc/selinux/plat_property_contexts'' then do {
            (cs, ok) \<leftarrow> InitializePropertiesFromFile K ''/system/etc/selinux/plat_property_contexts'' cs;
            if \<not> ok then Some (cs, False)
            else do {
              (cs, _) \<leftarrow> (if k_access K ''/vendor/etc/selinux/vendor_property_contexts''
                 then InitializePropertiesFromFile K ''/vendor/etc/selinux/vendor_property_contexts'' cs
                 else InitializePropertiesFromFile K ''/vendor/etc/selinux/nonplat_property_contexts'' cs);
              Some (cs, True) } }
          else do {
            (cs, ok) \<leftarrow> InitializePropertiesFromFile K ''/plat_property_contexts'' cs;
            if \<not> ok then Some (cs, False)
            else do {
              (cs, _) \<leftarrow> (if k_access K ''/vendor_property_contexts''
                 then InitializePropertiesFromFile K ''/vendor_property_contexts'' cs
                 else InitializePropertiesFromFile K ''/nonplat_property_contexts'' cs);
              Some (cs, True) } } }"

text \<open>The area that has the serial number of all changes; the same in both kinds of contexts.\<close>

definition MapSerialPropertyArea :: "kernel \<Rightarrow> string \<Rightarrow> bool \<Rightarrow> prop_world \<Rightarrow> (prop_world \<times> pa_ptr option) option" where
  "MapSerialPropertyArea K filename access_rw w =
     (let file = node_file filename ''properties_serial'' in
      if length file \<ge> PROP_FILENAME_MAX then Some (w, None)
      else if access_rw then map_prop_area_rw K file w
      else Some (map_prop_area K file w))"

definition split_FreeAndUnmap :: "contexts_split \<Rightarrow> contexts_split" where
  "split_FreeAndUnmap cs = cs\<lparr>cs_prefixes := [], cs_contexts := [], cs_serial := None\<rparr>"

definition split_Initialize ::
  "kernel \<Rightarrow> bool \<Rightarrow> string \<Rightarrow> contexts_split \<Rightarrow> prop_world \<Rightarrow> (prop_world \<times> contexts_split \<times> bool) option" where
  "split_Initialize K writable filename cs w =
     do { (cs, ok) \<leftarrow> split_InitializeProperties K (cs\<lparr>cs_filename := filename\<rparr>);
          if \<not> ok then Some (w, cs, False)
          else do {
            (w, nodes, open_failed) \<leftarrow>
              (if writable then open_all K filename (cs_contexts cs) (w\<lparr>fsetxattr_failed := False\<rparr>)
               else Some (w, cs_contexts cs, False));
            let cs = cs\<lparr>cs_contexts := nodes\<rparr>;
            if open_failed then Some (w, split_FreeAndUnmap cs, False)
            else do {
              (w, serial) \<leftarrow> MapSerialPropertyArea K filename writable w;
              let cs = cs\<lparr>cs_serial := serial\<rparr>;
              if serial = None then Some (w, split_FreeAndUnmap cs, False) else Some (w, cs, True) } } }"

definition GetPrefixNodeForName :: "contexts_split \<Rightarrow> string \<Rightarrow> (string \<times> string) option" where
  "GetPrefixNodeForName cs name =
     ListFind (\<lambda>(prefix, ctx). take 1 prefix = ''*'' \<or> strncmp prefix name (length prefix) = 0) (cs_prefixes cs)"

text \<open>A node is opened where it is in the list.\<close>

fun open_context :: "kernel \<Rightarrow> string \<Rightarrow> string \<Rightarrow> context_node list \<Rightarrow> prop_world \<Rightarrow>
    (prop_world \<times> context_node list \<times> pa_ptr option) option" where
  "open_context K filename ctx [] w = Some (w, [], None)"
| "open_context K filename ctx (n # ns) w =
     (if node_context n = ctx then
        if node_pa n = None then do {
          (w, n, ok) \<leftarrow> node_open K filename False n w;
          Some (w, n # ns, node_pa n) }
        else Some (w, n # ns, node_pa n)
      else do {
        (w, ns, pa) \<leftarrow> open_context K filename ctx ns w;
        Some (w, n # ns, pa) })"

definition split_GetPropAreaForName ::
  "kernel \<Rightarrow> contexts_split \<Rightarrow> string \<Rightarrow> prop_world \<Rightarrow> (prop_world \<times> contexts_split \<times> pa_ptr option) option" where
  "split_GetPropAreaForName K cs name w =
     (case GetPrefixNodeForName cs name of
        None \<Rightarrow> Some (w, cs, None)
      | Some (prefix, ctx) \<Rightarrow> do {
          (w, nodes, pa) \<leftarrow> open_context K (cs_filename cs) ctx (cs_contexts cs) w;
          Some (w, cs\<lparr>cs_contexts := nodes\<rparr>, pa) })"

definition split_ForEach ::
  "kernel \<Rightarrow> (pa_ptr \<Rightarrow> nat \<Rightarrow> prop_info \<Rightarrow> 's \<Rightarrow> 's) \<Rightarrow> contexts_split \<Rightarrow> prop_world \<Rightarrow> 's \<Rightarrow> (prop_world \<times> contexts_split \<times> 's) option" where
  "split_ForEach K propfn cs w cookie =
     do { (w, nodes, cookie) \<leftarrow> nodes_for_each K (cs_filename cs) propfn (cs_contexts cs) w cookie;
          Some (w, cs\<lparr>cs_contexts := nodes\<rparr>, cookie) }"

definition split_ResetAccess :: "kernel \<Rightarrow> contexts_split \<Rightarrow> contexts_split" where
  "split_ResetAccess K cs = cs\<lparr>cs_contexts := map (node_reset_access K (cs_filename cs)) (cs_contexts cs)\<rparr>"

section \<open>Serialized contexts\<close>

record contexts_serialized =
  cz_info :: "property_info option"
  cz_nodes :: "context_node list"
  cz_serial :: "pa_ptr option"
  cz_filename :: string

definition InitializeContextNodes :: "kernel \<Rightarrow> property_info \<Rightarrow> contexts_serialized \<Rightarrow> contexts_serialized \<times> bool" where
  "InitializeContextNodes K info cz =
     (if \<not> k_anon_mmap K then (cz, False)
      else (cz\<lparr>cz_nodes := map (\<lambda>i. ContextNode (context_name info i)) [0..<num_contexts info]\<rparr>, True))"

definition serialized_FreeAndUnmap :: "contexts_serialized \<Rightarrow> contexts_serialized" where
  "serialized_FreeAndUnmap cz = cz\<lparr>cz_info := None, cz_nodes := [], cz_serial := None\<rparr>"

definition serialized_InitializeProperties :: "kernel \<Rightarrow> contexts_serialized \<Rightarrow> contexts_serialized \<times> bool" where
  "serialized_InitializeProperties K cz =
     (case k_property_info K of
        None \<Rightarrow> (cz, False)
      | Some info \<Rightarrow>
          (case InitializeContextNodes K info (cz\<lparr>cz_info := Some info\<rparr>) of
             (cz, False) \<Rightarrow> (serialized_FreeAndUnmap cz, False)
           | (cz, True) \<Rightarrow> (cz, True)))"

definition serialized_Initialize ::
  "kernel \<Rightarrow> bool \<Rightarrow> string \<Rightarrow> contexts_serialized \<Rightarrow> prop_world \<Rightarrow> (prop_world \<times> contexts_serialized \<times> bool) option" where
  "serialized_Initialize K writable filename cz w =
     (case serialized_InitializeProperties K (cz\<lparr>cz_filename := filename\<rparr>) of
        (cz, False) \<Rightarrow> Some (w, cz, False)
      | (cz, True) \<Rightarrow> do {
          (w, nodes, open_failed) \<leftarrow>
            (if writable then open_all K filename (cz_nodes cz) (w\<lparr>fsetxattr_failed := False\<rparr>)
             else Some (w, cz_nodes cz, False));
          let cz = cz\<lparr>cz_nodes := nodes\<rparr>;
          if open_failed then Some (w, serialized_FreeAndUnmap cz, False)
          else do {
            (w, serial) \<leftarrow> MapSerialPropertyArea K filename writable w;
            let cz = cz\<lparr>cz_serial := serial\<rparr>;
            if serial = None then Some (w, serialized_FreeAndUnmap cz, False) else Some (w, cz, True) } })"

definition serialized_GetPropAreaForName ::
  "kernel \<Rightarrow> contexts_serialized \<Rightarrow> string \<Rightarrow> prop_world \<Rightarrow> (prop_world \<times> contexts_serialized \<times> pa_ptr option) option" where
  "serialized_GetPropAreaForName K cz name w =
     do { info \<leftarrow> cz_info cz;
          let index = context_index info name;
          if index = - 1 \<or> unat index \<ge> length (cz_nodes cz) then Some (w, cz, None)
          else do {
            let context_node = cz_nodes cz ! unat index;
            (w, n, ok) \<leftarrow> (if node_pa context_node = None then node_open K (cz_filename cz) False context_node w
                           else Some (w, context_node, True));
            Some (w, cz\<lparr>cz_nodes := (cz_nodes cz)[unat index := n]\<rparr>, node_pa n) } }"

definition serialized_ForEach ::
  "kernel \<Rightarrow> (pa_ptr \<Rightarrow> nat \<Rightarrow> prop_info \<Rightarrow> 's \<Rightarrow> 's) \<Rightarrow> contexts_serialized \<Rightarrow> prop_world \<Rightarrow> 's \<Rightarrow>
     (prop_world \<times> contexts_serialized \<times> 's) option" where
  "serialized_ForEach K propfn cz w cookie =
     do { (w, nodes, cookie) \<leftarrow> nodes_for_each K (cz_filename cz) propfn (cz_nodes cz) w cookie;
          Some (w, cz\<lparr>cz_nodes := nodes\<rparr>, cookie) }"

definition serialized_ResetAccess :: "kernel \<Rightarrow> contexts_serialized \<Rightarrow> contexts_serialized" where
  "serialized_ResetAccess K cz = cz\<lparr>cz_nodes := map (node_reset_access K (cz_filename cz)) (cz_nodes cz)\<rparr>"

section \<open>The virtual functions\<close>

datatype contexts =
    ContextsPreSplit "pa_ptr option"
  | ContextsSplit contexts_split
  | ContextsSerialized contexts_serialized

definition contexts_Initialize :: "kernel \<Rightarrow> bool \<Rightarrow> string \<Rightarrow> contexts \<Rightarrow> prop_world \<Rightarrow> (prop_world \<times> contexts \<times> bool) option" where
  "contexts_Initialize K writable filename c w =
     (case c of
        ContextsPreSplit pa \<Rightarrow>
          (case map_prop_area K filename w of (w, pa) \<Rightarrow> Some (w, ContextsPreSplit pa, pa \<noteq> None))
      | ContextsSplit cs \<Rightarrow> do {
          (w, cs, ok) \<leftarrow> split_Initialize K writable filename cs w;
          Some (w, ContextsSplit cs, ok) }
      | ContextsSerialized cz \<Rightarrow> do {
          (w, cz, ok) \<leftarrow> serialized_Initialize K writable filename cz w;
          Some (w, ContextsSerialized cz, ok) })"

definition GetPropAreaForName :: "kernel \<Rightarrow> contexts \<Rightarrow> string \<Rightarrow> prop_world \<Rightarrow> (prop_world \<times> contexts \<times> pa_ptr option) option" where
  "GetPropAreaForName K c name w =
     (case c of
        ContextsPreSplit pa \<Rightarrow> Some (w, c, pa)
      | ContextsSplit cs \<Rightarrow> do {
          (w, cs, pa) \<leftarrow> split_GetPropAreaForName K cs name w;
          Some (w, ContextsSplit cs, pa) }
      | ContextsSerialized cz \<Rightarrow> do {
          (w, cz, pa) \<leftarrow> serialized_GetPropAreaForName K cz name w;
          Some (w, ContextsSerialized cz, pa) })"

definition GetSerialPropArea :: "contexts \<Rightarrow> pa_ptr option" where
  "GetSerialPropArea c =
     (case c of ContextsPreSplit pa \<Rightarrow> pa | ContextsSplit cs \<Rightarrow> cs_serial cs | ContextsSerialized cz \<Rightarrow> cz_serial cz)"

definition contexts_ForEach ::
  "kernel \<Rightarrow> (pa_ptr \<Rightarrow> nat \<Rightarrow> prop_info \<Rightarrow> 's \<Rightarrow> 's) \<Rightarrow> contexts \<Rightarrow> prop_world \<Rightarrow> 's \<Rightarrow> (prop_world \<times> contexts \<times> 's) option" where
  "contexts_ForEach K propfn c w cookie =
     (case c of
        ContextsPreSplit pa \<Rightarrow> do {
          pa \<leftarrow> pa;
          area \<leftarrow> area_at pa w;
          (cookie, r) \<leftarrow> pa_foreach area (propfn pa) cookie;
          Some (w, c, cookie) }
      | ContextsSplit cs \<Rightarrow> do {
          (w, cs, cookie) \<leftarrow> split_ForEach K propfn cs w cookie;
          Some (w, ContextsSplit cs, cookie) }
      | ContextsSerialized cz \<Rightarrow> do {
          (w, cz, cookie) \<leftarrow> serialized_ForEach K propfn cz w cookie;
          Some (w, ContextsSerialized cz, cookie) })"

definition contexts_ResetAccess :: "kernel \<Rightarrow> contexts \<Rightarrow> contexts" where
  "contexts_ResetAccess K c =
     (case c of ContextsPreSplit pa \<Rightarrow> c | ContextsSplit cs \<Rightarrow> ContextsSplit (split_ResetAccess K cs)
      | ContextsSerialized cz \<Rightarrow> ContextsSerialized (serialized_ResetAccess K cz))"

definition contexts_FreeAndUnmap :: "contexts \<Rightarrow> contexts" where
  "contexts_FreeAndUnmap c =
     (case c of ContextsPreSplit pa \<Rightarrow> ContextsPreSplit None | ContextsSplit cs \<Rightarrow> ContextsSplit (split_FreeAndUnmap cs)
      | ContextsSerialized cz \<Rightarrow> ContextsSerialized (serialized_FreeAndUnmap cz))"

end
