(* ===== verification/Contexts_Lookup.thy ===== *)
theory Contexts_Lookup
  imports Property_Contexts "HOL-Library.Sublist"
begin

text \<open>
  The contexts of text files: a line is parsed into its first two words, and a name gets the context
  of the longest prefix that any line has for it.
\<close>

section \<open>Parsing\<close>

text \<open>The words of a line, and the entry of a line of the file: its first two words.\<close>

function words :: "string \<Rightarrow> string list" where
  "words s =
     (let s = dropWhile is_space s in
      if s = [] then [] else takeWhile (\<lambda>c. \<not> is_space c) s # words (dropWhile (\<lambda>c. \<not> is_space c) s))"
  by pat_completeness auto

lemma dropWhile_less: "s \<noteq> [] \<Longrightarrow> P (hd s) \<Longrightarrow> length (dropWhile P s) < length s"
  by (cases s) (simp_all add: length_dropWhile_le le_imp_less_Suc)

lemma dropWhile_hd: "dropWhile P s \<noteq> [] \<Longrightarrow> \<not> P (hd (dropWhile P s))"
  by (rule hd_dropWhile)

lemma word_less: "x = dropWhile is_space s \<Longrightarrow> x \<noteq> [] \<Longrightarrow> length (dropWhile (\<lambda>c. \<not> is_space c) x) < length s"
  using dropWhile_less [of x "\<lambda>c. \<not> is_space c"] dropWhile_hd [of is_space s] length_dropWhile_le [of is_space s]
  by (simp del: dropWhile_eq_Nil_conv)

termination words
  by (relation "measure length") (use word_less in \<open>auto simp del: dropWhile_eq_Nil_conv\<close>)

declare words.simps [simp del] read_spec_loop.simps [simp del]

definition spec_of :: "string \<Rightarrow> (string \<times> string) option" where
  "spec_of line =
     (case words line of
        p # c # _ \<Rightarrow> if hd p = CHR ''#'' \<or> take 4 p = ''ctl.'' then None else Some (p, c)
      | _ \<Rightarrow> None)"

lemma words_skip: "words (dropWhile is_space s) = words s"
  by (subst (1 2) words.simps) (simp add: Let_def)

lemma words_unfold:
  "dropWhile is_space s = [] \<Longrightarrow> words s = []"
  "dropWhile is_space s \<noteq> [] \<Longrightarrow> words s =
     takeWhile (\<lambda>c. \<not> is_space c) (dropWhile is_space s) # words (dropWhile (\<lambda>c. \<not> is_space c) (dropWhile is_space s))"
  by (simp_all del: dropWhile_eq_Nil_conv add: words.simps [of s] Let_def)

lemma words_Nil [simp]: "words [] = []"
  by (simp add: words.simps)

text \<open>White space at the end of a line does not matter.\<close>

lemma dropWhile_snoc: "dropWhile P (s @ [c]) = (if dropWhile P s = [] then if P c then [] else [c] else dropWhile P s @ [c])"
  by (induction s) simp_all

lemma takeWhile_snoc: "\<not> P c \<Longrightarrow> takeWhile P (s @ [c]) = takeWhile P s"
  by (induction s) simp_all

lemma words_snoc:
  assumes c: "is_space c"
  shows "words (s @ [c]) = words s"
proof (induction s rule: words.induct)
  case (1 s)
  let ?s = "dropWhile is_space s"
  show ?case
  proof (cases "?s = []")
    case True
    then have "dropWhile is_space (s @ [c]) = []" using c by (simp del: dropWhile_eq_Nil_conv add: dropWhile_snoc)
    then show ?thesis using True words_unfold(1) by metis
  next
    case False
    let ?r = "dropWhile (\<lambda>c. \<not> is_space c) ?s"
    have d: "dropWhile is_space (s @ [c]) = ?s @ [c]" using False by (simp only: dropWhile_snoc if_False)
    have t: "takeWhile (\<lambda>c. \<not> is_space c) (?s @ [c]) = takeWhile (\<lambda>c. \<not> is_space c) ?s" using c by (intro takeWhile_snoc) simp
    have "words (dropWhile (\<lambda>c. \<not> is_space c) (?s @ [c])) = words ?r"
    proof (cases "?r = []")
      case True
      have "words [c] = []" using c by (intro words_unfold(1)) simp
      then show ?thesis using True c by (simp del: dropWhile_eq_Nil_conv add: dropWhile_snoc)
    next
      case r: False
      then show ?thesis using 1 [OF refl False] by (simp only: dropWhile_snoc if_False)
    qed
    then show ?thesis using words_unfold(2) [OF False] words_unfold(2) [of "s @ [c]"] d t by simp
  qed
qed

text \<open>A line that can be parsed: it is not empty, has no terminator inside, and its length fits an \<open>int\<close>.\<close>

definition line_ok :: "string \<Rightarrow> bool" where
  "line_ok line \<longleftrightarrow> line \<noteq> [] \<and> CHR 0x00 \<notin> set line \<and> length line + 1 < 2 ^ 31"

lemma sint_length: "n < 2 ^ 31 \<Longrightarrow> sint (of_nat n :: u32) = int n"
  by (simp add: signed_of_nat signed_take_bit_int_eq_self)

lemma words_spec_line:
  assumes "line_ok line"
  obtains l where "spec_line line = Some (l, int (length l) + 1)" "words l = words line" "length l < 2 ^ 31"
proof -
  have ok: "line \<noteq> []" "takeWhile (\<lambda>c. c \<noteq> CHR 0x00) line = line" "length line + 1 < 2 ^ 31"
    using assms by (auto simp: line_ok_def takeWhile_eq_all_conv)
  have len: "sint (of_nat (length line) :: u32) = int (length line)" using ok(3) by (intro sint_length) linarith
  have l1: "1 \<le> length line" using ok(1) by (cases line) simp_all
  have i: "nat (int (length line) - 1) = length line - 1" using l1 by simp
  show ?thesis
  proof (cases "last line = CHR 0x0a")
    case True
    then have "line ! (length line - 1) = CHR 0x0a" using ok(1) by (simp add: last_conv_nth)
    then have "spec_line line = Some (butlast line, int (length line))"
      unfolding spec_line_def ok(2) len Let_def i using l1 ok(1) by (simp add: butlast_conv_take)
    moreover have "words (butlast line @ [CHR 0x0a]) = words (butlast line)" by (rule words_snoc) (simp add: is_space_def isspace_def)
    ultimately show ?thesis using that [of "butlast line"] True append_butlast_last_id [OF ok(1)] l1 ok(3) by simp
  next
    case False
    then have "line ! (length line - 1) \<noteq> CHR 0x0a" using ok(1) by (simp add: last_conv_nth)
    then have "spec_line line = Some (line, int (length line) + 1)"
      unfolding spec_line_def ok(2) len Let_def i using l1 ok(1) ok(3) by simp
    then show ?thesis using that [of line] ok(3) by simp
  qed
qed

text \<open>One call of \<open>read_spec_entry\<close> takes one word.\<close>

lemma read_spec_entry_words:
  assumes "\<And>s. k_strndup K s" and len: "length p < 2 ^ 31"
  shows "words p = [] \<Longrightarrow> read_spec_entry K p = Some (0, None, [])"
    and "words p = w # ws \<Longrightarrow> \<exists>q. read_spec_entry K p = Some (0, Some w, q) \<and> words q = ws"
proof -
  have w: "words p = (let s = dropWhile is_space p in
      if s = [] then [] else takeWhile (\<lambda>c. \<not> is_space c) s # words (dropWhile (\<lambda>c. \<not> is_space c) s))" by (rule words.simps)
  have ne: "takeWhile (\<lambda>c. \<not> is_space c) (dropWhile is_space p) \<noteq> []" if "dropWhile is_space p \<noteq> []"
    using that dropWhile_hd [OF that] by (cases "dropWhile is_space p") simp_all
  have short: "\<not> length (takeWhile (\<lambda>c. \<not> is_space c) (dropWhile is_space p)) \<ge> 2 ^ 31"
    using len length_takeWhile_le [of "\<lambda>c. \<not> is_space c" "dropWhile is_space p"] length_dropWhile_le [of is_space p] by linarith
  show "read_spec_entry K p = Some (0, None, [])" if "words p = []"
    using words_unfold(2) [of p] that short by (cases "dropWhile is_space p = []") (simp_all del: dropWhile_eq_Nil_conv add: read_spec_entry_def)
  show "\<exists>q. read_spec_entry K p = Some (0, Some w, q) \<and> words q = ws" if "words p = w # ws"
    using w that assms(1) ne short by (auto simp: read_spec_entry_def Let_def split: if_splits)
qed

lemma line_end:
  fixes l p :: string
  assumes "length p \<le> length l"
  shows "int (length l) = int (length l - length p) \<longleftrightarrow> p = []"
  using assms by (cases p) auto

lemma read_spec_loop_two:
  assumes K: "\<And>s. k_strndup K s" and p: "words p = u # ws" and len: "length p \<le> length l" "length l < 2 ^ 31"
  shows "\<exists>es. read_spec_loop K 2 (int (length l) + 1) l 0 p =
    Some (case ws of [] \<Rightarrow> (1, Some u # es) | v # _ \<Rightarrow> (2, [Some u, Some v]))"
proof -
  have lp: "length p < 2 ^ 31" using len by linarith
  obtain q where q: "read_spec_entry K p = Some (0, Some u, q)" "words q = ws" using read_spec_entry_words(2) [OF K lp p] by blast
  have p0: "p \<noteq> []" using p by auto
  have lq: "length q < 2 ^ 31" "length q \<le> length l" using read_spec_entry_less [OF q(1) p0] len lp by linarith+
  note ends = line_end [OF len(1)] line_end [OF lq(2)]
  show ?thesis
  proof (cases ws)
    case Nil
    show ?thesis
    proof (cases "q = []")
      case True
      then show ?thesis using q Nil p0 ends by (simp add: read_spec_loop.simps)
    next
      case False
      then show ?thesis using q Nil p0 ends read_spec_entry_words(1) [OF K lq(1)] by (simp add: read_spec_loop.simps)
    qed
  next
    case (Cons v vs)
    obtain r where "read_spec_entry K q = Some (0, Some v, r)" using read_spec_entry_words(2) [OF K lq(1), of v vs] q Cons by blast
    moreover have "q \<noteq> []" using q Cons by auto
    ultimately show ?thesis using q Cons p0 ends by (simp add: read_spec_loop.simps)
  qed
qed

lemma strncmp_prefix: "CHR 0x00 \<notin> set p \<Longrightarrow> strncmp p s (length p) = 0 \<longleftrightarrow> prefix p s"
proof (induction p arbitrary: s)
  case (Cons c p)
  have "of_char c \<noteq> (0 :: int)" using Cons.prems of_char_eq_iff [of c "CHR 0x00"] by (auto simp: of_char_def)
  then show ?case using Cons by (cases s) auto
qed simp

lemma strncmp_take_eq: "CHR 0x00 \<notin> set t \<Longrightarrow> strncmp u t (length t) = 0 \<longleftrightarrow> take (length t) u = t"
proof (induction t arbitrary: u)
  case (Cons d t)
  have "of_char d \<noteq> (0 :: int)" using Cons.prems of_char_eq_iff [of d "CHR 0x00"] by (auto simp: of_char_def)
  then show ?case using Cons by (cases u) auto
qed simp

lemma strncmp_ctl: "strncmp u ''ctl.'' 4 = 0 \<longleftrightarrow> take 4 u = ''ctl.''"
  using strncmp_take_eq [of "''ctl.''" u] by (simp add: numeral_eq_Suc)

text \<open>The entries of a line.\<close>

lemma read_spec_entries_words:
  assumes K: "\<And>s. k_strndup K s" and line: "line_ok line"
  shows "words line = [] \<Longrightarrow> read_spec_entries K line 2 = Some (0, [])"
    and "words line = u # ws \<Longrightarrow> hd u = CHR ''#'' \<Longrightarrow> read_spec_entries K line 2 = Some (0, [])"
    and "words line = u # ws \<Longrightarrow> hd u \<noteq> CHR ''#'' \<Longrightarrow>
      \<exists>es. read_spec_entries K line 2 = Some (case ws of [] \<Rightarrow> (1, Some u # es) | v # _ \<Rightarrow> (2, [Some u, Some v]))"
proof -
  obtain l where l: "spec_line line = Some (l, int (length l) + 1)" and w: "words l = words line" and len: "length l < 2 ^ 31"
    by (rule words_spec_line [OF line])
  let ?b = "dropWhile is_space l"
  show "read_spec_entries K line 2 = Some (0, [])" if "words line = []"
  proof -
    have "?b = []" using words_unfold(2) [of l] w that by (metis list.distinct(1))
    then show ?thesis by (simp del: dropWhile_eq_Nil_conv add: read_spec_entries_def l)
  qed
  have b: "?b \<noteq> [] \<and> hd u = hd ?b" if ws: "words line = u # ws"
  proof -
    have b: "?b \<noteq> []" using words_unfold(1) [of l] w ws by (metis list.distinct(1))
    moreover have "u = takeWhile (\<lambda>c. \<not> is_space c) ?b" using words_unfold(2) [OF b] w ws by simp
    ultimately show ?thesis using dropWhile_hd [OF b] by (cases ?b) simp_all
  qed
  show "read_spec_entries K line 2 = Some (0, [])" if "words line = u # ws" "hd u = CHR ''#''"
    using b [OF that(1)] that(2) by (simp del: dropWhile_eq_Nil_conv add: read_spec_entries_def l)
  show "\<exists>es. read_spec_entries K line 2 = Some (case ws of [] \<Rightarrow> (1, Some u # es) | v # _ \<Rightarrow> (2, [Some u, Some v]))"
    if ws: "words line = u # ws" and "hd u \<noteq> CHR ''#''"
  proof -
    have "read_spec_entries K line 2 = read_spec_loop K 2 (int (length l) + 1) l 0 ?b"
      using b [OF ws] that(2) by (simp del: dropWhile_eq_Nil_conv add: read_spec_entries_def l)
    moreover have "words ?b = u # ws" using words_skip w ws by simp
    ultimately show ?thesis using read_spec_loop_two [OF K, of ?b u ws l] length_dropWhile_le [of is_space l] len by simp
  qed
qed

text \<open>What a line adds.\<close>

lemma add_spec_line_spec:
  assumes K: "\<And>s. k_strndup K s" and line: "line_ok line"
  shows "\<exists>cs'. add_spec_line K line cs = Some cs' \<and>
    cs_prefixes cs' = (case spec_of line of None \<Rightarrow> cs_prefixes cs | Some (p, c) \<Rightarrow> ListAddAfterLen (cs_prefixes cs) p c)"
proof (cases "words line")
  case Nil
  then show ?thesis using read_spec_entries_words(1) [OF K line] by (simp add: add_spec_line_def spec_of_def)
next
  case (Cons u ws)
  show ?thesis
  proof (cases "hd u = CHR ''#''")
    case True
    then show ?thesis using read_spec_entries_words(2) [OF K line Cons] Cons
      by (simp add: add_spec_line_def spec_of_def split: list.split)
  next
    case False
    then obtain es where "read_spec_entries K line 2 = Some (case ws of [] \<Rightarrow> (1, Some u # es) | v # _ \<Rightarrow> (2, [Some u, Some v]))"
      using read_spec_entries_words(3) [OF K line Cons] by blast
    then show ?thesis using Cons False
      by (cases ws) (simp_all add: add_spec_line_def spec_of_def strncmp_ctl Let_def split: list.split option.split)
  qed
qed

section \<open>The order of the prefixes\<close>

abbreviation star :: "string \<Rightarrow> bool" where "star p \<equiv> take 1 p = ''*''"

definition prefix_order :: "string \<times> string \<Rightarrow> string \<times> string \<Rightarrow> bool" where
  "prefix_order x y \<longleftrightarrow> star (fst y) \<or> \<not> star (fst x) \<and> length (fst y) \<le> length (fst x)"

definition prefix_ok :: "string \<Rightarrow> bool" where
  "prefix_ok p \<longleftrightarrow> p \<noteq> [] \<and> CHR 0x00 \<notin> set p \<and> (star p \<longrightarrow> p = ''*'')"

definition prefixes_ok :: "(string \<times> string) list \<Rightarrow> bool" where
  "prefixes_ok ps \<longleftrightarrow> sorted_wrt prefix_order ps \<and> (\<forall>x \<in> set ps. prefix_ok (fst x))"

lemma set_ListAddAfterLen: "set (ListAddAfterLen ps p c) = insert (p, c) (set ps)"
  by (induction ps p c rule: ListAddAfterLen.induct) auto

lemma ListAddAfterLen_sorted:
  assumes "prefixes_ok ps" "prefix_ok p"
  shows "prefixes_ok (ListAddAfterLen ps p c)"
  using assms
proof (induction ps p c rule: ListAddAfterLen.induct)
  case (1 p c)
  then show ?case by (simp add: prefixes_ok_def)
next
  case (2 q d ps p c)
  show ?case
  proof (cases "length q < length p \<or> star q")
    case True
    have "prefix_order (p, c) y" if y: "y \<in> set ((q, d) # ps)" for y
    proof (cases "star q")
      case star: True
      then show ?thesis using y 2(2) by (auto simp: prefixes_ok_def prefix_order_def)
    next
      case False
      then have "length q < length p" using True by simp
      moreover have "q \<noteq> []" using 2(2) by (simp add: prefixes_ok_def prefix_ok_def)
      ultimately have "\<not> star p" using 2(3) by (cases q) (auto simp: prefix_ok_def)
      then show ?thesis using y 2(2) \<open>length q < length p\<close> False by (auto simp: prefixes_ok_def prefix_order_def)
    qed
    then show ?thesis using True 2(2,3) by (simp add: prefixes_ok_def)
  next
    case False
    then have "prefixes_ok (ListAddAfterLen ps p c)" using 2 by (simp add: prefixes_ok_def)
    moreover have "prefix_order (q, d) y" if "y \<in> set (ListAddAfterLen ps p c)" for y
      using that 2(2) False by (auto simp: set_ListAddAfterLen prefixes_ok_def prefix_order_def)
    ultimately show ?thesis using False 2(2) by (simp add: prefixes_ok_def)
  qed
qed

text \<open>The first entry that matches is the longest.\<close>

lemma ListFind_Some:
  "ListFind P xs = Some x \<Longrightarrow> sorted_wrt R xs \<Longrightarrow> x \<in> set xs \<and> P x \<and> (\<forall>y \<in> set xs. P y \<longrightarrow> y = x \<or> R x y)"
  by (induction xs) (auto split: if_splits)

lemma ListFind_None: "ListFind P xs = None \<longleftrightarrow> (\<forall>x \<in> set xs. \<not> P x)"
  by (induction xs) auto

definition matches :: "string \<Rightarrow> string \<Rightarrow> bool" where
  "matches p name \<longleftrightarrow> p = ''*'' \<or> prefix p name"

lemma GetPrefixNodeForName_matches:
  assumes "prefixes_ok (cs_prefixes cs)"
  shows "GetPrefixNodeForName cs name = ListFind (\<lambda>(p, c). matches p name) (cs_prefixes cs)"
proof -
  have "(\<lambda>(p, c). star p \<or> strncmp p name (length p) = 0) x = (\<lambda>(p, c). matches p name) x" if "x \<in> set (cs_prefixes cs)" for x
    using assms that strncmp_prefix [of "fst x" name] by (auto simp: prefixes_ok_def prefix_ok_def matches_def)
  then have "ListFind (\<lambda>(p, c). star p \<or> strncmp p name (length p) = 0) xs = ListFind (\<lambda>(p, c). matches p name) xs"
    if "set xs \<subseteq> set (cs_prefixes cs)" for xs using that by (induction xs) auto
  then show ?thesis by (simp add: GetPrefixNodeForName_def)
qed

lemma words_set: "u \<in> set (words s) \<Longrightarrow> u \<noteq> [] \<and> set u \<subseteq> set s"
proof (induction s rule: words.induct)
  case (1 s)
  let ?s = "dropWhile is_space s"
  show ?case
  proof (cases "?s = []")
    case True
    then show ?thesis using 1(2) words_unfold(1) by (metis empty_iff list.set(1))
  next
    case False
    have t: "takeWhile (\<lambda>c. \<not> is_space c) ?s \<noteq> []" using False dropWhile_hd [OF False] by (cases ?s) simp_all
    have sub: "set (takeWhile (\<lambda>c. \<not> is_space c) ?s) \<subseteq> set s" "set (dropWhile (\<lambda>c. \<not> is_space c) ?s) \<subseteq> set s"
      by (meson set_takeWhileD set_dropWhileD subsetI)+
    from 1(2) have "u = takeWhile (\<lambda>c. \<not> is_space c) ?s \<or> u \<in> set (words (dropWhile (\<lambda>c. \<not> is_space c) ?s))"
      using words_unfold(2) [OF False] by simp
    then show ?thesis
    proof
      assume "u \<in> set (words (dropWhile (\<lambda>c. \<not> is_space c) ?s))"
      from 1(1) [OF refl False this] sub(2) show ?thesis by blast
    qed (use t sub(1) in simp)
  qed
qed

lemma spec_of_ok: "spec_of line = Some (p, c) \<Longrightarrow> p \<noteq> [] \<and> set p \<subseteq> set line"
  using words_set [of p line] by (auto simp: spec_of_def split: list.splits if_splits)

text \<open>A file whose lines can be parsed and whose wild cards are a single star.\<close>

definition spec_lines_ok :: "string list \<Rightarrow> bool" where
  "spec_lines_ok lines \<longleftrightarrow> (\<forall>line \<in> set lines. line_ok line \<and>
     (case spec_of line of None \<Rightarrow> True | Some (p, c) \<Rightarrow> take 1 p = ''*'' \<longrightarrow> p = ''*''))"

lemma add_lines:
  assumes K: "\<And>s. k_strndup K s" and "spec_lines_ok lines" "prefixes_ok (cs_prefixes cs)"
  shows "\<exists>cs'. add_spec_lines K lines cs = Some cs' \<and> prefixes_ok (cs_prefixes cs') \<and>
    set (cs_prefixes cs') = set (cs_prefixes cs) \<union> {e. \<exists>line \<in> set lines. spec_of line = Some e}"
  using assms(2,3)
proof (induction lines arbitrary: cs)
  case (Cons line lines)
  have line: "line_ok line" "CHR 0x00 \<notin> set line" using Cons.prems(1) by (simp_all add: spec_lines_ok_def line_ok_def)
  obtain cs1 where a: "add_spec_line K line cs = Some cs1"
    "cs_prefixes cs1 = (case spec_of line of None \<Rightarrow> cs_prefixes cs | Some (p, c) \<Rightarrow> ListAddAfterLen (cs_prefixes cs) p c)"
    using add_spec_line_spec [OF K line(1)] by blast
  have 1: "prefixes_ok (cs_prefixes cs1) \<and> set (cs_prefixes cs1) = set (cs_prefixes cs) \<union> {e. spec_of line = Some e}"
  proof (cases "spec_of line")
    case None
    then show ?thesis using a(2) Cons.prems(2) by simp
  next
    case (Some e)
    then obtain p c where e: "spec_of line = Some (p, c)" by (cases e) simp
    then have "prefix_ok p" using spec_of_ok [OF e] Cons.prems(1) line(2) by (auto simp: spec_lines_ok_def prefix_ok_def)
    then show ?thesis using a(2) e ListAddAfterLen_sorted [OF Cons.prems(2)] by (auto simp: set_ListAddAfterLen)
  qed
  have "spec_lines_ok lines" using Cons.prems(1) by (simp add: spec_lines_ok_def)
  then obtain cs2 where "add_spec_lines K lines cs1 = Some cs2" "prefixes_ok (cs_prefixes cs2)"
    "set (cs_prefixes cs2) = set (cs_prefixes cs1) \<union> {e. \<exists>line \<in> set lines. spec_of line = Some e}"
    using Cons.IH 1 by blast
  then show ?case using a(1) 1 by auto
qed simp

text \<open>
  Other wild cards: a prefix that begins with a star and is longer than the prefixes of the lines before it is
  put in front of them, and is then taken for every name, also for those that they match.
\<close>

lemma star_shadows:
  assumes "take 1 p = ''*''" "\<forall>(q, d) \<in> set (cs_prefixes cs). length q < length p"
  shows "GetPrefixNodeForName (cs\<lparr>cs_prefixes := ListAddAfterLen (cs_prefixes cs) p c\<rparr>) name = Some (p, c)"
  using assms by (cases "cs_prefixes cs") (auto simp: GetPrefixNodeForName_def)

section \<open>Properties\<close>

definition ContextsSplit_new :: contexts_split where
  "ContextsSplit_new = \<lparr>cs_prefixes = [], cs_contexts = [], cs_serial = None, cs_filename = []\<rparr>"

text \<open>C15. The context of a property. After a file of contexts is read, the node found for a name is the
  entry of a line whose prefix is the longest of all prefixes of the name that lines have; the
  wild card is taken only when no other line matches, and nothing is found only when no line
  matches. Comments, lines of one word and \<open>ctl.\<close> prefixes count for nothing. The lines are not
  empty, have no terminator inside and are shorter than \<open>2 ^ 31 - 1\<close>, and a prefix that begins with a star
  is the star alone: the code puts a longer one, like \<open>*abc\<close>, in front of the shorter prefixes of earlier lines
  and takes it for every name (\<open>star_shadows\<close>).\<close>

theorem context_longest_prefix:
  assumes "\<And>s. k_strndup K s" "k_lines K file = Some lines" "spec_lines_ok lines"
  shows "\<exists>cs. InitializePropertiesFromFile K file ContextsSplit_new = Some (cs, True) \<and>
    (case GetPrefixNodeForName cs name of
       None \<Rightarrow> \<forall>line \<in> set lines. \<forall>q d. spec_of line = Some (q, d) \<longrightarrow> \<not> matches q name
     | Some (p, c) \<Rightarrow> (\<exists>line \<in> set lines. spec_of line = Some (p, c)) \<and> matches p name \<and>
         (\<forall>line \<in> set lines. \<forall>q d. spec_of line = Some (q, d) \<and> matches q name \<longrightarrow>
            q = ''*'' \<or> p \<noteq> ''*'' \<and> length q \<le> length p))"
proof -
  obtain cs where add: "add_spec_lines K lines ContextsSplit_new = Some cs" and ok: "prefixes_ok (cs_prefixes cs)"
    and set: "set (cs_prefixes cs) = {e. \<exists>line \<in> set lines. spec_of line = Some e}"
    using add_lines [OF assms(1,3), of ContextsSplit_new] by (auto simp: prefixes_ok_def ContextsSplit_new_def)
  have init: "InitializePropertiesFromFile K file ContextsSplit_new = Some (cs, True)"
    using assms(2) add by (simp add: InitializePropertiesFromFile_def)
  note find = GetPrefixNodeForName_matches [OF ok, of name]
  show ?thesis
  proof (cases "GetPrefixNodeForName cs name")
    case None
    then have "\<forall>x \<in> set (cs_prefixes cs). \<not> (case x of (p, c) \<Rightarrow> matches p name)" unfolding find ListFind_None .
    then show ?thesis using None init set by auto
  next
    case (Some e)
    then obtain p c where e: "GetPrefixNodeForName cs name = Some (p, c)" by (cases e) simp
    from ListFind_Some [OF e [unfolded find] ok [unfolded prefixes_ok_def, THEN conjunct1]]
    have f: "(p, c) \<in> set (cs_prefixes cs)" "matches p name"
      "\<And>q d. (q, d) \<in> set (cs_prefixes cs) \<Longrightarrow> matches q name \<Longrightarrow> (q, d) = (p, c) \<or> prefix_order (p, c) (q, d)" by auto
    have star: "star q \<longleftrightarrow> q = ''*''" if "(q, d) \<in> set (cs_prefixes cs)" for q d
      using ok that by (force simp: prefixes_ok_def prefix_ok_def)
    have "q = ''*'' \<or> p \<noteq> ''*'' \<and> length q \<le> length p" if "line \<in> set lines" "spec_of line = Some (q, d)" "matches q name" for line q d
    proof -
      have q: "(q, d) \<in> set (cs_prefixes cs)" using that set by auto
      show ?thesis using f(3) [OF q that(3)] star [OF q] star [OF f(1)] by (auto simp: prefix_order_def)
    qed
    then show ?thesis using init e f(1,2) set by auto
  qed
qed

definition kernel_of_lines :: "string list \<Rightarrow> kernel" where
  "kernel_of_lines lines = \<lparr>k_access = (\<lambda>_. True), k_is_dir = (\<lambda>_. True), k_open = (\<lambda>_. True), k_fstat = (\<lambda>_. True), k_create = (\<lambda>_. 0),
     k_setxattr = (\<lambda>_. True), k_truncate = (\<lambda>_. True), k_mmap = (\<lambda>_. True), k_anon_mmap = True, k_strndup = (\<lambda>_. True),
     k_lines = (\<lambda>_. Some lines), k_property_info = None, k_uid = 0, k_gid = 0\<rparr>"

lemmas context_eval = spec_of_def words.simps is_space_def isspace_def kernel_of_lines_def

theorem context_longest_prefix_witness:
  "\<exists>cs. InitializePropertiesFromFile (kernel_of_lines [''net. a'', ''* c'', ''net.dns b'']) ''f'' ContextsSplit_new = Some (cs, True) \<and>
     GetPrefixNodeForName cs ''net.dns1'' = Some (''net.dns'', ''b'')"
proof -
  let ?lines = "[''net. a'', ''* c'', ''net.dns b'']"
  have specs: "spec_of ''net. a'' = Some (''net.'', ''a'')" "spec_of ''* c'' = Some (''*'', ''c'')" "spec_of ''net.dns b'' = Some (''net.dns'', ''b'')"
    by (simp_all add: context_eval)
  have ok: "spec_lines_ok ?lines" by (simp add: spec_lines_ok_def line_ok_def specs)
  have K: "k_strndup (kernel_of_lines ?lines) s" "k_lines (kernel_of_lines ?lines) f = Some ?lines" for s f
    by (simp_all add: kernel_of_lines_def)
  obtain cs where cs: "InitializePropertiesFromFile (kernel_of_lines ?lines) ''f'' ContextsSplit_new = Some (cs, True)"
    and g: "case GetPrefixNodeForName cs ''net.dns1'' of
       None \<Rightarrow> \<forall>line \<in> set ?lines. \<forall>q d. spec_of line = Some (q, d) \<longrightarrow> \<not> matches q ''net.dns1''
     | Some (p, c) \<Rightarrow> (\<exists>line \<in> set ?lines. spec_of line = Some (p, c)) \<and> matches p ''net.dns1'' \<and>
         (\<forall>line \<in> set ?lines. \<forall>q d. spec_of line = Some (q, d) \<and> matches q ''net.dns1'' \<longrightarrow>
            q = ''*'' \<or> p \<noteq> ''*'' \<and> length q \<le> length p)"
    using context_longest_prefix [OF K(1) K(2) [of "''f''"] ok, of "''net.dns1''"] by blast
  have "GetPrefixNodeForName cs ''net.dns1'' = Some (''net.dns'', ''b'')"
    using g by (cases "GetPrefixNodeForName cs ''net.dns1''") (auto simp: specs matches_def)
  with cs show ?thesis by blast
qed

end
