(* ===== verification/System_Properties.thy ===== *)
theory System_Properties
  imports Prop_Trie Property_Contexts Property_Seqlock
begin

text \<open>
  The system properties of one process (\<open>system_properties.cpp\<close>), over the contexts and the areas.
  The functions run one after the other here; how reading, updating and waiting interleave is
  the subject of \<open>Property_Seqlock\<close>. A property is known by the pointer to its area and its offset. \<open>None\<close>
  as a result is an abort, the use of memory that holds no such object, or a store to memory that is mapped for
  reading only. Log messages are left out.
\<close>

section \<open>State\<close>

abbreviation (input) PROP_NAME_MAX :: nat where "PROP_NAME_MAX \<equiv> 32"

type_synonym prop_ref = "pa_ptr \<times> nat"

record system_properties =
  sp_initialized :: bool
  sp_contexts :: "contexts option"
  property_filename :: string

type_synonym 'r sp_result = "(prop_world \<times> system_properties \<times> 'r) option"

definition is_read_only :: "string \<Rightarrow> bool" where
  "is_read_only name \<longleftrightarrow> strncmp name ''ro.'' 3 = 0"

definition put_area :: "string \<Rightarrow> (prop_area \<Rightarrow> prop_area) \<Rightarrow> prop_world \<Rightarrow> prop_world" where
  "put_area file h w = w\<lparr>files := (files w)(file := map_option (\<lambda>f. f\<lparr>f_area := h (f_area f)\<rparr>) (files w file))\<rparr>"

text \<open>A store through a pointer: it faults when the area is mapped for reading only.\<close>

definition write_area :: "pa_ptr \<Rightarrow> (prop_area \<Rightarrow> prop_area) \<Rightarrow> prop_world \<Rightarrow> prop_world option" where
  "write_area pa h w = (if snd pa then Some (put_area (fst pa) h w) else None)"

text \<open>The bytes of a value or of the backup area: the string, its terminator, and zeros.\<close>

definition value_bytes :: "string \<Rightarrow> string" where
  "value_bytes v = v @ replicate (PROP_VALUE_MAX - length v) NUL"

definition stored_chars :: "prop_info \<Rightarrow> string" where
  "stored_chars i = (case pi_value i of Value v \<Rightarrow> v | LongProperty error_message _ \<Rightarrow> error_message)"

section \<open>Starting\<close>

definition new_split :: contexts where
  "new_split = ContextsSplit \<lparr>cs_prefixes = [], cs_contexts = [], cs_serial = None, cs_filename = []\<rparr>"

definition new_serialized :: contexts where
  "new_serialized = ContextsSerialized \<lparr>cz_info = None, cz_nodes = [], cz_serial = None, cz_filename = []\<rparr>"

definition Init :: "kernel \<Rightarrow> string \<Rightarrow> system_properties \<Rightarrow> prop_world \<Rightarrow> bool sp_result" where
  "Init K filename sp w =
     (if sp_initialized sp then Some (w, sp\<lparr>sp_contexts := map_option (contexts_ResetAccess K) (sp_contexts sp)\<rparr>, True)
      else if length filename \<ge> PROP_FILENAME_MAX then Some (w, sp, False)
      else do {
        let c = (if k_is_dir K filename then
                   if k_access K ''/dev/__properties__/property_info'' then new_serialized else new_split
                 else ContextsPreSplit None);
        (w, c, ok) \<leftarrow> contexts_Initialize K False filename c w;
        Some (w, sp\<lparr>property_filename := filename, sp_contexts := Some c, sp_initialized := ok\<rparr>, ok) })"

definition AreaInit :: "kernel \<Rightarrow> string \<Rightarrow> system_properties \<Rightarrow> prop_world \<Rightarrow> bool sp_result" where
  "AreaInit K filename sp w =
     (if length filename \<ge> PROP_FILENAME_MAX then Some (w, sp, False)
      else do {
        (w, c, ok) \<leftarrow> contexts_Initialize K True filename new_serialized w;
        Some (w, sp\<lparr>property_filename := filename, sp_contexts := Some c,
          sp_initialized := sp_initialized sp \<or> ok\<rparr>, ok) })"

section \<open>Finding and reading\<close>

definition AreaSerial :: "system_properties \<Rightarrow> prop_world \<Rightarrow> u32 option" where
  "AreaSerial sp w =
     (if \<not> sp_initialized sp then Some (- 1)
      else do {
        c \<leftarrow> sp_contexts sp;
        case GetSerialPropArea c of
          None \<Rightarrow> Some (- 1)
        | Some pa \<Rightarrow> do { area \<leftarrow> area_at pa w; Some (pa_serial area) } })"

text \<open>\<open>contexts_->GetPropAreaForName\<close>.\<close>

definition area_for_name :: "kernel \<Rightarrow> string \<Rightarrow> system_properties \<Rightarrow> prop_world \<Rightarrow> pa_ptr option sp_result" where
  "area_for_name K name sp w =
     do { c \<leftarrow> sp_contexts sp;
          (w, c, pa) \<leftarrow> GetPropAreaForName K c name w;
          Some (w, sp\<lparr>sp_contexts := Some c\<rparr>, pa) }"

definition Find :: "kernel \<Rightarrow> string \<Rightarrow> system_properties \<Rightarrow> prop_world \<Rightarrow> prop_ref option sp_result" where
  "Find K name sp w =
     (if \<not> sp_initialized sp then Some (w, sp, None)
      else do {
        (w, sp, pa) \<leftarrow> area_for_name K name sp w;
        case pa of
          None \<Rightarrow> Some (w, sp, None)
        | Some pa \<Rightarrow> do {
            area \<leftarrow> area_at pa w;
            off \<leftarrow> pa_find area name;
            Some (w, sp, map_option (Pair pa) off) } })"

definition prop_info_of :: "prop_ref \<Rightarrow> prop_world \<Rightarrow> prop_info option" where
  "prop_info_of pi w = do { area \<leftarrow> area_at (fst pi) w; to_prop_info area (snd pi) }"

text \<open>Nobody changes the serial meanwhile, so the loop ends with its first round.\<close>

definition ReadMutablePropertyValue :: "kernel \<Rightarrow> prop_ref \<Rightarrow> system_properties \<Rightarrow> prop_world \<Rightarrow> (u32 \<times> string) sp_result" where
  "ReadMutablePropertyValue K pi sp w =
     do { i \<leftarrow> prop_info_of pi w;
          let serial = pi_serial i;
          let len = SERIAL_VALUE_LEN serial;
          if SERIAL_DIRTY serial then do {
            (w, sp, pa) \<leftarrow> area_for_name K (pi_name i) sp w;
            pa \<leftarrow> pa;
            area \<leftarrow> area_at pa w;
            Some (w, sp, serial, take (len + 1) (value_bytes (dirty_backup_area area))) }
          else Some (w, sp, serial, take (len + 1) (value_bytes (stored_chars i))) }"

text \<open>The name is copied when asked for, cut off at \<open>PROP_NAME_MAX\<close>.\<close>

definition Read :: "kernel \<Rightarrow> prop_ref \<Rightarrow> bool \<Rightarrow> system_properties \<Rightarrow> prop_world \<Rightarrow> (string option \<times> string \<times> nat) sp_result" where
  "Read K pi with_name sp w =
     do { (w, sp, serial, buf) \<leftarrow> ReadMutablePropertyValue K pi sp w;
          i \<leftarrow> prop_info_of pi w;
          Some (w, sp, if with_name then Some (take (PROP_NAME_MAX - 1) (pi_name i)) else None, buf, SERIAL_VALUE_LEN serial) }"

text \<open>What the call-back is called with; its value is a string up to the terminator.\<close>

definition ReadCallback :: "kernel \<Rightarrow> prop_ref \<Rightarrow> system_properties \<Rightarrow> prop_world \<Rightarrow> (string \<times> string \<times> u32) sp_result" where
  "ReadCallback K pi sp w =
     do { i \<leftarrow> prop_info_of pi w;
          if is_read_only (pi_name i) then
            if is_long i then do {
              area \<leftarrow> area_at (fst pi) w;
              v \<leftarrow> long_value area (snd pi);
              Some (w, sp, pi_name i, v, pi_serial i) }
            else Some (w, sp, pi_name i, stored_chars i, pi_serial i)
          else do {
            (w, sp, serial, value_buf) \<leftarrow> ReadMutablePropertyValue K pi sp w;
            Some (w, sp, pi_name i, takeWhile (\<lambda>c. c \<noteq> NUL) value_buf, serial) } }"

definition Get :: "kernel \<Rightarrow> string \<Rightarrow> system_properties \<Rightarrow> prop_world \<Rightarrow> (string \<times> nat) sp_result" where
  "Get K name sp w =
     do { (w, sp, pi) \<leftarrow> Find K name sp w;
          case pi of
            Some pi \<Rightarrow> do {
              (w, sp, _, buf, len) \<leftarrow> Read K pi False sp w;
              Some (w, sp, buf, len) }
          | None \<Rightarrow> Some (w, sp, [NUL], 0) }"

section \<open>Changing\<close>

definition put_info :: "prop_ref \<Rightarrow> prop_info \<Rightarrow> prop_world \<Rightarrow> prop_world option" where
  "put_info pi i w = write_area (fst pi) (put_obj (snd pi) (Info i)) w"

definition bump_serial :: "pa_ptr \<Rightarrow> prop_world \<Rightarrow> prop_world option" where
  "bump_serial pa w = write_area pa (\<lambda>pa. pa\<lparr>pa_serial := pa_serial pa + 1\<rparr>) w"

definition Update :: "kernel \<Rightarrow> prop_ref \<Rightarrow> string \<Rightarrow> nat \<Rightarrow> system_properties \<Rightarrow> prop_world \<Rightarrow> int sp_result" where
  "Update K pi v len sp w =
     (if len \<ge> PROP_VALUE_MAX then Some (w, sp, - 1)
      else if \<not> sp_initialized sp then Some (w, sp, - 1)
      else do {
        c \<leftarrow> sp_contexts sp;
        case GetSerialPropArea c of
          None \<Rightarrow> Some (w, sp, - 1)
        | Some serial_pa \<Rightarrow> do {
            i \<leftarrow> prop_info_of pi w;
            (w, sp, pa) \<leftarrow> area_for_name K (pi_name i) sp w;
            case pa of
              None \<Rightarrow> Some (w, sp, - 1)
            | Some pa \<Rightarrow> do {
                let serial = pi_serial i;
                let old_len = SERIAL_VALUE_LEN serial;
                w \<leftarrow> write_area pa (\<lambda>a. a\<lparr>dirty_backup_area := take old_len (stored_chars i)\<rparr>) w;
                let serial = serial OR 1;
                w \<leftarrow> put_info pi (i\<lparr>pi_serial := serial\<rparr>) w;
                w \<leftarrow> put_info pi (i\<lparr>pi_serial := serial, pi_value := Value (take len v)\<rparr>) w;
                w \<leftarrow> put_info pi (i\<lparr>pi_serial := clean_serial len serial, pi_value := Value (take len v)\<rparr>) w;
                w \<leftarrow> bump_serial serial_pa w;
                Some (w, sp, 0) } } })"

text \<open>When \<open>pa_add\<close> returns on an area that is mapped for reading only, it has changed nothing (\<open>pa_add_takes\<close>).\<close>

definition Add :: "kernel \<Rightarrow> string \<Rightarrow> nat \<Rightarrow> string \<Rightarrow> nat \<Rightarrow> system_properties \<Rightarrow> prop_world \<Rightarrow> int sp_result" where
  "Add K name namelen v valuelen sp w =
     (if valuelen \<ge> PROP_VALUE_MAX \<and> \<not> is_read_only name then Some (w, sp, - 1)
      else if namelen < 1 then Some (w, sp, - 1)
      else if \<not> sp_initialized sp then Some (w, sp, - 1)
      else do {
        c \<leftarrow> sp_contexts sp;
        case GetSerialPropArea c of
          None \<Rightarrow> Some (w, sp, - 1)
        | Some serial_pa \<Rightarrow> do {
            (w, sp, pa) \<leftarrow> area_for_name K name sp w;
            case pa of
              None \<Rightarrow> Some (w, sp, - 1)
            | Some pa \<Rightarrow> do {
                area \<leftarrow> area_at pa w;
                (area, ret) \<leftarrow> pa_add (snd pa) area name namelen v valuelen;
                let w = put_area (fst pa) (\<lambda>_. area) w;
                if \<not> ret then Some (w, sp, - 1)
                else do {
                  w \<leftarrow> bump_serial serial_pa w;
                  Some (w, sp, 0) } } } })"

section \<open>Visiting\<close>

definition Foreach :: "kernel \<Rightarrow> (pa_ptr \<Rightarrow> nat \<Rightarrow> prop_info \<Rightarrow> 's \<Rightarrow> 's) \<Rightarrow> 's \<Rightarrow> system_properties \<Rightarrow> prop_world \<Rightarrow> (int \<times> 's) sp_result" where
  "Foreach K propfn cookie sp w =
     (if \<not> sp_initialized sp then Some (w, sp, - 1, cookie)
      else do {
        c \<leftarrow> sp_contexts sp;
        (w, c, cookie) \<leftarrow> contexts_ForEach K propfn c w cookie;
        Some (w, sp\<lparr>sp_contexts := Some c\<rparr>, 0, cookie) })"

definition find_nth_fn :: "u32 \<Rightarrow> pa_ptr \<Rightarrow> nat \<Rightarrow> prop_info \<Rightarrow> u32 \<times> prop_ref option \<Rightarrow> u32 \<times> prop_ref option" where
  "find_nth_fn sought pa off pi = (\<lambda>(current, result). (current + 1, if current = sought then Some (pa, off) else result))"

definition FindNth :: "kernel \<Rightarrow> u32 \<Rightarrow> system_properties \<Rightarrow> prop_world \<Rightarrow> prop_ref option sp_result" where
  "FindNth K n sp w =
     do { (w, sp, _, _, result) \<leftarrow> Foreach K (find_nth_fn n) (0, None) sp w;
          Some (w, sp, result) }"

section \<open>What the contexts promise\<close>

text \<open>The files are the same but for what the areas hold.\<close>

definition same_files :: "prop_world \<Rightarrow> prop_world \<Rightarrow> bool" where
  "same_files w w' \<longleftrightarrow>
     (\<forall>file. map_option (f_area_update (\<lambda>_. prop_area_new)) (files w' file) =
             map_option (f_area_update (\<lambda>_. prop_area_new)) (files w file)) \<and>
     static_pa_size w' = static_pa_size w \<and> static_pa_data_size w' = static_pa_data_size w"

text \<open>All areas have the size that the static members have, so that mapping another does not change them.\<close>

definition file_sized :: "prop_file \<Rightarrow> bool" where
  "file_sized f \<longleftrightarrow> f_size f = PA_SIZE \<or> f_size f < sizeof_prop_area"

definition sized :: "prop_world \<Rightarrow> bool" where
  "sized w \<longleftrightarrow> static_pa_size w = PA_SIZE \<and> static_pa_data_size w = PA_DATA_SIZE \<and>
     (\<forall>file f. files w file = Some f \<longrightarrow> file_sized f)"

locale area_provider =
  fixes get :: "kernel \<Rightarrow> 'c \<Rightarrow> string \<Rightarrow> prop_world \<Rightarrow> (prop_world \<times> 'c \<times> pa_ptr option) option"
    and area :: "kernel \<Rightarrow> 'c \<Rightarrow> prop_world \<Rightarrow> string \<Rightarrow> pa_ptr option"
    and ok :: "'c \<Rightarrow> prop_world \<Rightarrow> bool"
  assumes get_area: "ok c w \<Longrightarrow> \<exists>c'. get K c name w = Some (w, c', area K c w name) \<and> ok c' w \<and> area K c' w = area K c w"
    and area_file: "ok c w \<Longrightarrow> area K c w name = Some pa \<Longrightarrow> files w (fst pa) \<noteq> None"
    and area_same: "same_files w w' \<Longrightarrow> ok c w \<Longrightarrow> ok c w' \<and> area K c w' = area K c w"
begin

text \<open>Asking for one name does not change the answer for another, whatever is done to the areas in
  between.\<close>

lemma get_again:
  assumes "ok c w" "get K c name w = Some (w1, c1, a)" "same_files w w2" "get K c1 other w2 = Some (w3, c3, b)"
  shows "b = area K c w other \<and> w1 = w \<and> w3 = w2"
proof -
  obtain c' where c': "get K c name w = Some (w, c', area K c w name)" "ok c' w" "area K c' w = area K c w"
    using get_area [OF assms(1)] by blast
  then have "c1 = c'" "w1 = w" using assms(2) by simp_all
  moreover have "ok c' w2" "area K c' w2 = area K c w" using area_same [OF assms(3) c'(2)] c'(3) by simp_all
  moreover from get_area [OF this(1), of K other] obtain c'' where "get K c' other w2 = Some (w2, c'', area K c' w2 other)" by blast
  ultimately show ?thesis using assms(4) by simp
qed

end

text \<open>The area of a node.\<close>

definition node_area :: "kernel \<Rightarrow> string \<Rightarrow> context_node \<Rightarrow> prop_world \<Rightarrow> pa_ptr option" where
  "node_area K filename n w =
     (if node_pa n \<noteq> None then node_pa n
      else if length (node_file filename (node_context n)) \<ge> PROP_FILENAME_MAX then None
      else snd (map_prop_area K (node_file filename (node_context n)) w))"

definition cnode_ok :: "prop_world \<Rightarrow> context_node \<Rightarrow> bool" where
  "cnode_ok w n \<longleftrightarrow> (\<forall>pa. node_pa n = Some pa \<longrightarrow> files w (fst pa) \<noteq> None)"

lemma same_files_None: "same_files w w' \<Longrightarrow> files w' file = None \<longleftrightarrow> files w file = None"
  unfolding same_files_def by (metis map_option_is_None)

lemma snd_map_fd_ro:
  "snd (map_fd_ro K file f w) =
     (if k_fstat K file \<and> \<not> (f_uid f \<noteq> 0 \<or> f_gid f \<noteq> 0 \<or> f_mode f AND 0x12 \<noteq> 0 \<or> f_size f < sizeof_prop_area) \<and>
         k_mmap K file \<and> \<not> (f_magic f \<noteq> PROP_AREA_MAGIC \<or> f_version f \<noteq> PROP_AREA_VERSION)
      then Some (file, False) else None)"
  by (simp add: map_fd_ro_def Let_def)

lemma same_files_cases:
  assumes "same_files w w'"
  obtains "files w g = None" "files w' g = None"
  | f f' where "files w g = Some f" "files w' g = Some f'" "f_area_update (\<lambda>_. prop_area_new) f' = f_area_update (\<lambda>_. prop_area_new) f"
proof -
  have "map_option (f_area_update (\<lambda>_. prop_area_new)) (files w' g) = map_option (f_area_update (\<lambda>_. prop_area_new)) (files w g)"
    using assms by (simp add: same_files_def)
  then show ?thesis using that by (cases "files w' g"; cases "files w g") auto
qed

lemma same_area_fields:
  assumes "f_area_update (\<lambda>_. prop_area_new) f' = f_area_update (\<lambda>_. prop_area_new) f"
  shows "f_uid f' = f_uid f" "f_gid f' = f_gid f" "f_mode f' = f_mode f" "f_size f' = f_size f" "f_magic f' = f_magic f"
    "f_version f' = f_version f"
  using assms by (cases f; cases f'; simp)+

lemma same_files_map:
  assumes "same_files w w'"
  shows "snd (map_prop_area K x w') = snd (map_prop_area K x w)"
  using assms
proof (cases rule: same_files_cases [of _ _ x])
  case (2 f f')
  then show ?thesis using same_area_fields [OF 2(3)] by (simp add: map_prop_area_def snd_map_fd_ro)
qed (simp add: map_prop_area_def)

lemma same_files_sized:
  assumes "same_files w w'" "sized w"
  shows "sized w'"
proof -
  have "file_sized f'" if "files w' x = Some f'" for x f'
    using assms(1)
  proof (cases rule: same_files_cases [of _ _ x])
    case (2 g g')
    then show ?thesis using that assms(2) same_area_fields(4) [OF 2(3)] by (simp add: sized_def file_sized_def)
  qed (use that in simp)
  then show ?thesis using assms by (simp add: sized_def same_files_def)
qed

lemma map_prop_area_sized:
  assumes "sized w"
  shows "fst (map_prop_area K file w) = w"
proof (cases "files w file")
  case (Some f)
  have "w\<lparr>static_pa_size := PA_SIZE, static_pa_data_size := PA_SIZE - sizeof_prop_area\<rparr> = w" using assms by (cases w) (simp add: sized_def)
  moreover have "file_sized f" using assms Some by (auto simp: sized_def)
  ultimately show ?thesis using Some by (auto simp: map_prop_area_def map_fd_ro_def Let_def file_sized_def)
qed (simp add: map_prop_area_def)

lemma node_open_ro:
  assumes "sized w"
  shows "node_open K filename False n w = Some (w, n\<lparr>node_pa := node_area K filename n w\<rparr>, node_area K filename n w \<noteq> None)"
proof (cases "node_pa n")
  case None
  then have "n\<lparr>node_pa := None\<rparr> = n" by (cases n) simp
  then show ?thesis using None map_prop_area_sized [OF assms, of K "node_file filename (node_context n)"]
    by (cases "map_prop_area K (node_file filename (node_context n)) w") (simp add: node_open_def node_area_def)
next
  case (Some pa)
  then have "n\<lparr>node_pa := Some pa\<rparr> = n" by (cases n) simp
  then show ?thesis using Some by (simp add: node_open_def node_area_def)
qed

lemma node_area_open [simp]:
  "node_area K filename (n\<lparr>node_pa := node_area K filename n w\<rparr>) w = node_area K filename n w"
  by (simp add: node_area_def)

lemma map_prop_area_Some: "snd (map_prop_area K file w) = Some pa \<Longrightarrow> pa = (file, False) \<and> files w file \<noteq> None"
  by (auto simp: map_prop_area_def snd_map_fd_ro split: option.splits if_splits)

lemma node_area_file: "cnode_ok w n \<Longrightarrow> node_area K filename n w = Some pa \<Longrightarrow> files w (fst pa) \<noteq> None"
  using map_prop_area_Some [of K "node_file filename (node_context n)" w pa] by (auto simp: node_area_def cnode_ok_def split: if_splits)

lemma node_open_ok: "cnode_ok w n \<Longrightarrow> cnode_ok w (n\<lparr>node_pa := node_area K filename n w\<rparr>)"
  using node_area_file [of w n K filename] by (auto simp: cnode_ok_def)

lemma node_same: "same_files w w' \<Longrightarrow> cnode_ok w' n = cnode_ok w n \<and> node_area K filename n w' = node_area K filename n w"
  by (simp add: cnode_ok_def node_area_def same_files_None same_files_map)

text \<open>The area of a context.\<close>

definition context_area :: "kernel \<Rightarrow> string \<Rightarrow> string \<Rightarrow> context_node list \<Rightarrow> prop_world \<Rightarrow> pa_ptr option" where
  "context_area K filename ctx ns w =
     (case ListFind (\<lambda>n. node_context n = ctx) ns of None \<Rightarrow> None | Some n \<Rightarrow> node_area K filename n w)"

lemma context_area_simps [simp]:
  "context_area K filename ctx [] w = None"
  "context_area K filename ctx (n # ns) w =
     (if node_context n = ctx then node_area K filename n w else context_area K filename ctx ns w)"
  by (simp_all add: context_area_def)

lemma open_context_area:
  assumes "sized w" "\<forall>n \<in> set ns. cnode_ok w n"
  shows "\<exists>ns'. open_context K filename ctx ns w = Some (w, ns', context_area K filename ctx ns w) \<and>
    (\<forall>n \<in> set ns'. cnode_ok w n) \<and> (\<forall>ctx'. context_area K filename ctx' ns' w = context_area K filename ctx' ns w)"
  using assms(2)
proof (induction ns)
  case (Cons n ns)
  show ?case
  proof (cases "node_context n = ctx")
    case True
    show ?thesis
    proof (cases "node_pa n = None")
      case pa: True
      then show ?thesis using True Cons.prems node_open_ok [of w n] by (simp add: node_open_ro [OF assms(1)])
    next
      case False
      then have "node_area K filename n w = node_pa n" by (auto simp: node_area_def)
      then show ?thesis using True False Cons.prems by (auto simp del: node_area_open)
    qed
  next
    case False
    obtain ns' where "open_context K filename ctx ns w = Some (w, ns', context_area K filename ctx ns w)"
      "\<forall>n \<in> set ns'. cnode_ok w n" "\<forall>ctx'. context_area K filename ctx' ns' w = context_area K filename ctx' ns w"
      using Cons by auto
    then show ?thesis using False Cons.prems by simp
  qed
qed simp

lemma context_area_file:
  "\<forall>n \<in> set ns. cnode_ok w n \<Longrightarrow> context_area K filename ctx ns w = Some pa \<Longrightarrow> files w (fst pa) \<noteq> None"
  by (induction ns) (auto dest: node_area_file split: if_splits)

lemma context_area_same: "same_files w w' \<Longrightarrow> context_area K filename ctx ns w' = context_area K filename ctx ns w"
  by (induction ns) (simp_all add: node_same)

text \<open>The three kinds of contexts and the virtual functions over them.\<close>

definition pre_split_area :: "kernel \<Rightarrow> pa_ptr option \<Rightarrow> prop_world \<Rightarrow> string \<Rightarrow> pa_ptr option" where
  "pre_split_area K pa w name = pa"

definition pre_split_ok :: "pa_ptr option \<Rightarrow> prop_world \<Rightarrow> bool" where
  "pre_split_ok pa w \<longleftrightarrow> (\<forall>p. pa = Some p \<longrightarrow> files w (fst p) \<noteq> None)"

interpretation pre_split: area_provider "\<lambda>K pa name w. Some (w, pa, pa)" pre_split_area pre_split_ok
  by unfold_locales (simp_all del: split_paired_All add: pre_split_area_def pre_split_ok_def fun_eq_iff same_files_None)

definition split_area :: "kernel \<Rightarrow> contexts_split \<Rightarrow> prop_world \<Rightarrow> string \<Rightarrow> pa_ptr option" where
  "split_area K cs w name =
     (case GetPrefixNodeForName cs name of
        None \<Rightarrow> None
      | Some (p, ctx) \<Rightarrow> context_area K (cs_filename cs) ctx (cs_contexts cs) w)"

definition split_ok :: "contexts_split \<Rightarrow> prop_world \<Rightarrow> bool" where
  "split_ok cs w \<longleftrightarrow> sized w \<and> (\<forall>n \<in> set (cs_contexts cs). cnode_ok w n)"

lemma split_get:
  assumes "split_ok cs w"
  shows "\<exists>cs'. split_GetPropAreaForName K cs name w = Some (w, cs', split_area K cs w name) \<and> split_ok cs' w \<and>
    split_area K cs' w = split_area K cs w"
proof (cases "GetPrefixNodeForName cs name")
  case None
  then show ?thesis using assms by (simp add: split_GetPropAreaForName_def split_area_def)
next
  case (Some e)
  then obtain p ctx where e: "GetPrefixNodeForName cs name = Some (p, ctx)" by (cases e) simp
  obtain ns' where ns: "open_context K (cs_filename cs) ctx (cs_contexts cs) w = Some (w, ns', context_area K (cs_filename cs) ctx (cs_contexts cs) w)"
    "\<forall>n \<in> set ns'. cnode_ok w n"
    "\<And>ctx'. context_area K (cs_filename cs) ctx' ns' w = context_area K (cs_filename cs) ctx' (cs_contexts cs) w"
    using open_context_area [of w "cs_contexts cs" K "cs_filename cs" ctx] assms by (auto simp: split_ok_def)
  let ?cs = "cs\<lparr>cs_contexts := ns'\<rparr>"
  have "GetPrefixNodeForName ?cs n = GetPrefixNodeForName cs n" for n by (simp add: GetPrefixNodeForName_def)
  then have "split_area K ?cs w = split_area K cs w" using ns(3) by (auto simp: split_area_def fun_eq_iff split: option.splits)
  then show ?thesis using e ns(1,2) assms by (simp add: split_GetPropAreaForName_def split_area_def split_ok_def)
qed

interpretation split: area_provider split_GetPropAreaForName split_area split_ok
proof unfold_locales
  fix c w K name
  show "split_ok c w \<Longrightarrow> \<exists>c'. split_GetPropAreaForName K c name w = Some (w, c', split_area K c w name) \<and> split_ok c' w \<and>
    split_area K c' w = split_area K c w" by (rule split_get)
  show "split_ok c w \<Longrightarrow> split_area K c w name = Some f \<Longrightarrow> files w (fst f) \<noteq> None" for f
    using context_area_file [of "cs_contexts c" w K "cs_filename c" _ f] by (auto simp: split_area_def split_ok_def split: option.splits)
  show "same_files w w' \<Longrightarrow> split_ok c w \<Longrightarrow> split_ok c w' \<and> split_area K c w' = split_area K c w" for w'
    using same_files_sized by (simp add: split_ok_def split_area_def [abs_def] node_same context_area_same cong: option.case_cong)
qed

definition serialized_area :: "kernel \<Rightarrow> contexts_serialized \<Rightarrow> prop_world \<Rightarrow> string \<Rightarrow> pa_ptr option" where
  "serialized_area K cz w name =
     (case cz_info cz of
        None \<Rightarrow> None
      | Some info \<Rightarrow>
          let index = context_index info name in
          if index = - 1 \<or> unat index \<ge> length (cz_nodes cz) then None
          else node_area K (cz_filename cz) (cz_nodes cz ! unat index) w)"

definition serialized_ok :: "contexts_serialized \<Rightarrow> prop_world \<Rightarrow> bool" where
  "serialized_ok cz w \<longleftrightarrow> sized w \<and> cz_info cz \<noteq> None \<and> (\<forall>n \<in> set (cz_nodes cz). cnode_ok w n)"

lemma serialized_get:
  assumes ok: "serialized_ok cz w"
  shows "\<exists>cz'. serialized_GetPropAreaForName K cz name w = Some (w, cz', serialized_area K cz w name) \<and> serialized_ok cz' w \<and>
    serialized_area K cz' w = serialized_area K cz w"
proof -
  obtain info where info: "cz_info cz = Some info" using ok by (auto simp: serialized_ok_def)
  let ?i = "unat (context_index info name)"
  show ?thesis
  proof (cases "context_index info name = - 1 \<or> ?i \<ge> length (cz_nodes cz)")
    case True
    then show ?thesis using ok info by (simp add: serialized_GetPropAreaForName_def serialized_area_def Let_def)
  next
    case False
    let ?n = "cz_nodes cz ! ?i"
    let ?n' = "?n\<lparr>node_pa := node_area K (cz_filename cz) ?n w\<rparr>"
    let ?cz = "cz\<lparr>cz_nodes := (cz_nodes cz)[?i := ?n']\<rparr>"
    have n: "cnode_ok w ?n" using ok False by (simp add: serialized_ok_def)
    have "(if node_pa ?n = None then node_open K (cz_filename cz) False ?n w else Some (w, ?n, True)) =
        Some (w, ?n', node_area K (cz_filename cz) ?n w \<noteq> None \<or> node_pa ?n \<noteq> None)"
      using node_open_ro [of w] ok by (auto simp: serialized_ok_def node_area_def)
    then have "serialized_GetPropAreaForName K cz name w = Some (w, ?cz, serialized_area K cz w name)"
      using False info by (simp add: serialized_GetPropAreaForName_def serialized_area_def Let_def)
    moreover have "serialized_ok ?cz w"
      using ok node_open_ok [OF n] set_update_subset_insert [of "cz_nodes cz" ?i ?n'] by (auto simp: serialized_ok_def)
    moreover have "serialized_area K ?cz w = serialized_area K cz w"
      using False info by (auto simp: serialized_area_def Let_def fun_eq_iff nth_list_update)
    ultimately show ?thesis by blast
  qed
qed

interpretation serialized: area_provider serialized_GetPropAreaForName serialized_area serialized_ok
proof unfold_locales
  fix c w K name
  show "serialized_ok c w \<Longrightarrow> \<exists>c'. serialized_GetPropAreaForName K c name w = Some (w, c', serialized_area K c w name) \<and>
    serialized_ok c' w \<and> serialized_area K c' w = serialized_area K c w" by (rule serialized_get)
  show "serialized_ok c w \<Longrightarrow> serialized_area K c w name = Some f \<Longrightarrow> files w (fst f) \<noteq> None" for f
    using node_area_file [of w "cz_nodes c ! unat (context_index (the (cz_info c)) name)" K "cz_filename c" f]
    by (auto simp: serialized_area_def serialized_ok_def Let_def not_le split: option.splits if_splits)
  show "same_files w w' \<Longrightarrow> serialized_ok c w \<Longrightarrow> serialized_ok c w' \<and> serialized_area K c w' = serialized_area K c w" for w'
    using same_files_sized by (auto simp: serialized_ok_def serialized_area_def fun_eq_iff node_same Let_def split: option.split)
qed

definition contexts_area :: "kernel \<Rightarrow> contexts \<Rightarrow> prop_world \<Rightarrow> string \<Rightarrow> pa_ptr option" where
  "contexts_area K c w = (case c of ContextsPreSplit pa \<Rightarrow> pre_split_area K pa w | ContextsSplit cs \<Rightarrow> split_area K cs w
     | ContextsSerialized cz \<Rightarrow> serialized_area K cz w)"

definition contexts_ok :: "contexts \<Rightarrow> prop_world \<Rightarrow> bool" where
  "contexts_ok c w = (case c of ContextsPreSplit pa \<Rightarrow> pre_split_ok pa w | ContextsSplit cs \<Rightarrow> split_ok cs w
     | ContextsSerialized cz \<Rightarrow> serialized_ok cz w)"

interpretation contexts: area_provider GetPropAreaForName contexts_area contexts_ok
proof unfold_locales
  fix c w K name
  assume "contexts_ok c w"
  then show "\<exists>c'. GetPropAreaForName K c name w = Some (w, c', contexts_area K c w name) \<and> contexts_ok c' w \<and>
    contexts_area K c' w = contexts_area K c w"
  proof (cases c)
    case (ContextsPreSplit pa)
    then show ?thesis using \<open>contexts_ok c w\<close> by (simp add: GetPropAreaForName_def contexts_area_def contexts_ok_def pre_split_area_def)
  next
    case (ContextsSplit cs)
    then obtain cs' where "split_GetPropAreaForName K cs name w = Some (w, cs', split_area K cs w name)" "split_ok cs' w"
      "split_area K cs' w = split_area K cs w" using split.get_area [of cs w K name] \<open>contexts_ok c w\<close> by (auto simp: contexts_ok_def)
    then show ?thesis using ContextsSplit
      by (intro exI [of _ "ContextsSplit cs'"]) (simp add: GetPropAreaForName_def contexts_area_def contexts_ok_def)
  next
    case (ContextsSerialized cz)
    then obtain cz' where "serialized_GetPropAreaForName K cz name w = Some (w, cz', serialized_area K cz w name)" "serialized_ok cz' w"
      "serialized_area K cz' w = serialized_area K cz w" using serialized.get_area [of cz w K name] \<open>contexts_ok c w\<close> by (auto simp: contexts_ok_def)
    then show ?thesis using ContextsSerialized
      by (intro exI [of _ "ContextsSerialized cz'"]) (simp add: GetPropAreaForName_def contexts_area_def contexts_ok_def)
  qed
next
  fix c w K name f
  show "contexts_ok c w \<Longrightarrow> contexts_area K c w name = Some f \<Longrightarrow> files w (fst f) \<noteq> None"
    using pre_split.area_file split.area_file serialized.area_file by (cases c) (auto simp: contexts_ok_def contexts_area_def)
next
  fix c w w' K
  show "same_files w w' \<Longrightarrow> contexts_ok c w \<Longrightarrow> contexts_ok c w' \<and> contexts_area K c w' = contexts_area K c w"
    using pre_split.area_same split.area_same serialized.area_same by (cases c) (simp_all add: contexts_ok_def contexts_area_def)
qed

section \<open>The properties as a map\<close>

definition area_lookup :: "prop_world \<Rightarrow> string \<Rightarrow> string \<Rightarrow> string option" where
  "area_lookup w file name = (case files w file of None \<Rightarrow> None | Some f \<Rightarrow> pa_lookup (f_area f) name)"

definition areas_wf :: "prop_world \<Rightarrow> bool" where
  "areas_wf w \<longleftrightarrow>
     (\<forall>file f. files w file = Some f \<longrightarrow> file_sized f \<and> pa_data_size (f_area f) = PA_DATA_SIZE \<and> pa_wf (f_area f))"

definition sys_ok :: "system_properties \<Rightarrow> prop_world \<Rightarrow> bool" where
  "sys_ok sp w \<longleftrightarrow> sp_initialized sp \<and> (\<exists>c. sp_contexts sp = Some c \<and> contexts_ok c w \<and> GetSerialPropArea c \<noteq> None) \<and>
     areas_wf w \<and> sized w"

definition sys_area :: "kernel \<Rightarrow> system_properties \<Rightarrow> prop_world \<Rightarrow> string \<Rightarrow> pa_ptr option" where
  "sys_area K sp w name = (case sp_contexts sp of None \<Rightarrow> None | Some c \<Rightarrow> contexts_area K c w name)"

definition sys_serial :: "system_properties \<Rightarrow> pa_ptr option" where
  "sys_serial sp = (case sp_contexts sp of None \<Rightarrow> None | Some c \<Rightarrow> GetSerialPropArea c)"

text \<open>How the areas of the process are mapped: all for writing, or all for reading only.\<close>

definition sys_access :: "kernel \<Rightarrow> bool \<Rightarrow> system_properties \<Rightarrow> prop_world \<Rightarrow> bool" where
  "sys_access K rw sp w \<longleftrightarrow> (\<exists>file. sys_serial sp = Some (file, rw)) \<and> (\<forall>name pa. sys_area K sp w name = Some pa \<longrightarrow> snd pa = rw)"

text \<open>The value of a property, of any length.\<close>

definition sys_lookup :: "kernel \<Rightarrow> system_properties \<Rightarrow> prop_world \<Rightarrow> string \<Rightarrow> string option" where
  "sys_lookup K sp w name = (case sys_area K sp w name of None \<Rightarrow> None | Some pa \<Rightarrow> area_lookup w (fst pa) name)"

text \<open>What \<open>Get\<close> gives for a value: a long one is replaced by a message.\<close>

definition get_result :: "string option \<Rightarrow> string" where
  "get_result v = (case v of None \<Rightarrow> [] | Some v \<Rightarrow> if length v < PROP_VALUE_MAX then v else kLongLegacyError)"

lemma GetPropAreaForName_serial:
  assumes "GetPropAreaForName K c name w = Some (w', c', a)"
  shows "GetSerialPropArea c' = GetSerialPropArea c"
proof -
  have "split_GetPropAreaForName K cs name w = Some (w', cs', a) \<Longrightarrow> cs_serial cs' = cs_serial cs" for cs cs'
    by (auto simp: split_GetPropAreaForName_def bind_eq_Some_conv split: option.splits)
  moreover have "serialized_GetPropAreaForName K cz name w = Some (w', cz', a) \<Longrightarrow> cz_serial cz' = cz_serial cz" for cz cz'
    by (auto simp: serialized_GetPropAreaForName_def Let_def bind_eq_Some_conv split: if_splits)
  ultimately show ?thesis using assms
    by (cases c) (auto simp: GetPropAreaForName_def GetSerialPropArea_def bind_eq_Some_conv)
qed

lemma area_for_name_ok:
  assumes "sys_ok sp w"
  obtains sp' where "area_for_name K name sp w = Some (w, sp', sys_area K sp w name)" "sys_ok sp' w" "sys_area K sp' w = sys_area K sp w"
    "sys_serial sp' = sys_serial sp"
proof -
  obtain c where c: "sp_contexts sp = Some c" "contexts_ok c w" and ok: "sp_initialized sp" "areas_wf w" "sized w" "GetSerialPropArea c \<noteq> None"
    using assms by (auto simp: sys_ok_def)
  obtain c' where get: "GetPropAreaForName K c name w = Some (w, c', contexts_area K c w name)" "contexts_ok c' w"
    "contexts_area K c' w = contexts_area K c w" using contexts.get_area [OF c(2)] by blast
  moreover have "GetSerialPropArea c' = GetSerialPropArea c" using GetPropAreaForName_serial [OF get(1)] by simp
  ultimately show ?thesis using c ok
    by (intro that [of "sp\<lparr>sp_contexts := Some c'\<rparr>"])
      (simp_all add: area_for_name_def sys_area_def sys_ok_def sys_serial_def fun_eq_iff)
qed

lemma areas_wfD:
  assumes "areas_wf w" "files w file = Some f"
  shows "file_sized f" "pa_data_size (f_area f) = PA_DATA_SIZE" "pa_wf (f_area f)"
  using assms unfolding areas_wf_def by blast+

lemma area_at_eq:
  assumes "areas_wf w" "sized w" "files w (fst pa) = Some f"
  shows "area_at pa w = Some (f_area f)"
proof -
  have "(f_area f)\<lparr>pa_data_size := PA_DATA_SIZE\<rparr> = f_area f" using areas_wfD(2) [OF assms(1,3)] by (cases "f_area f") simp
  then show ?thesis using assms(2,3) by (simp add: area_at_def sized_def)
qed

lemma sys_area_file:
  assumes "sys_ok sp w" "sys_area K sp w name = Some pa"
  shows "\<exists>f. files w (fst pa) = Some f \<and> area_at pa w = Some (f_area f) \<and> pa_wf (f_area f)"
proof -
  obtain c where c: "sp_contexts sp = Some c" "contexts_ok c w" using assms(1) by (auto simp: sys_ok_def)
  then obtain f where f: "files w (fst pa) = Some f" using assms(2) contexts.area_file [OF c(2), of K name pa] by (auto simp: sys_area_def)
  moreover have "areas_wf w" "sized w" using assms(1) by (simp_all add: sys_ok_def)
  ultimately show ?thesis using area_at_eq [of w pa f] areas_wfD(3) by blast
qed

lemma sys_same:
  assumes "sys_ok sp w" "same_files w w'" "areas_wf w'"
  shows "sys_ok sp w'" "sys_area K sp w' = sys_area K sp w"
  using assms contexts.area_same [OF assms(2)] same_files_sized [OF assms(2)] by (auto simp: sys_ok_def sys_area_def fun_eq_iff)

lemma same_files_refl: "same_files w w"
  by (simp add: same_files_def)

lemma same_files_trans: "same_files w w1 \<Longrightarrow> same_files w1 w2 \<Longrightarrow> same_files w w2"
  by (simp add: same_files_def)

lemma put_area_same: "same_files w (put_area file h w)"
  by (auto simp: same_files_def put_area_def option.map_comp comp_def)

lemma put_area_wf:
  assumes "areas_wf w" "\<And>f. files w file = Some f \<Longrightarrow> pa_wf (h (f_area f)) \<and> pa_data_size (h (f_area f)) = pa_data_size (f_area f)"
  shows "areas_wf (put_area file h w)"
proof -
  have "file_sized (f_area_update g f) = file_sized f" for g f by (simp add: file_sized_def)
  then show ?thesis using assms areas_wfD [OF assms(1)] unfolding areas_wf_def by (auto simp: put_area_def)
qed

lemma put_area_lookup:
  "area_lookup (put_area file h w) g = (if g = file then (\<lambda>name. case files w file of None \<Rightarrow> None | Some f \<Rightarrow> pa_lookup (h (f_area f)) name)
     else area_lookup w g)"
  by (auto simp: area_lookup_def put_area_def fun_eq_iff split: option.splits)

text \<open>What does not touch the objects of an area changes nothing that counts.\<close>

lemma pa_inv_data:
  "pa_data pa' = pa_data pa \<Longrightarrow> bytes_used pa' = bytes_used pa \<Longrightarrow> pa_data_size pa' = pa_data_size pa \<Longrightarrow> pa_inv L pa' = pa_inv L pa"
  unfolding pa_inv_def node_ok_def info_ok_def info_value_def to_prop_info_def long_value_def by (simp only:)

lemma pa_wf_data:
  assumes "pa_wf pa" "pa_data pa' = pa_data pa" "bytes_used pa' = bytes_used pa" "pa_data_size pa' = pa_data_size pa"
  shows "pa_wf pa'" "pa_lookup pa' = pa_lookup pa"
proof -
  obtain L where inv: "pa_inv L pa" using assms(1) by (auto simp: pa_wf_def)
  then have inv': "pa_inv L pa'" using pa_inv_data [OF assms(2-4)] by simp
  then show "pa_wf pa'" by (rule pa_wfI)
  show "pa_lookup pa' = pa_lookup pa"
    using pa_lookup_keeps [OF inv inv'] assms(2) by (auto simp: keeps_def prop_at_def)
qed

definition harmless :: "prop_world \<Rightarrow> prop_world \<Rightarrow> bool" where
  "harmless w w' \<longleftrightarrow> same_files w w' \<and> (areas_wf w \<longrightarrow> areas_wf w' \<and> area_lookup w' = area_lookup w)"

lemma put_area_harmless:
  assumes "\<And>pa. pa_data (h pa) = pa_data pa" "\<And>pa. bytes_used (h pa) = bytes_used pa" "\<And>pa. pa_data_size (h pa) = pa_data_size pa"
  shows "harmless w (put_area file h w)"
proof -
  have "pa_wf (h (f_area f))" "pa_lookup (h (f_area f)) = pa_lookup (f_area f)" if "areas_wf w" "files w file = Some f" for f
    using that pa_wf_data [of "f_area f" "h (f_area f)"] assms by (auto simp: areas_wf_def)
  then have "areas_wf w \<Longrightarrow> areas_wf (put_area file h w) \<and> area_lookup (put_area file h w) = area_lookup w"
    using assms(3) by (auto simp: fun_eq_iff put_area_lookup area_lookup_def intro!: put_area_wf split: option.splits)
  then show ?thesis using put_area_same by (simp add: harmless_def)
qed

lemma bump_serial_harmless: "bump_serial pa w = Some w' \<Longrightarrow> harmless w w'"
  unfolding bump_serial_def write_area_def by (auto intro!: put_area_harmless split: if_splits)

lemma bump_serial_rw: "\<exists>w'. bump_serial (file, True) w = Some w'"
  by (simp add: bump_serial_def write_area_def)

lemma sys_harmless:
  assumes "sys_ok sp w" "harmless w w'"
  shows "sys_ok sp w'" "sys_lookup K sp w' = sys_lookup K sp w" "sys_area K sp w' = sys_area K sp w"
proof -
  have h: "same_files w w'" "areas_wf w'" "area_lookup w' = area_lookup w" using assms by (simp_all add: harmless_def sys_ok_def)
  show "sys_ok sp w'" by (rule sys_same(1) [OF assms(1) h(1,2)])
  show "sys_lookup K sp w' = sys_lookup K sp w"
    unfolding sys_lookup_def [abs_def] sys_same(2) [OF assms(1) h(1,2)] h(3) ..
  show "sys_area K sp w' = sys_area K sp w" by (rule sys_same(2) [OF assms(1) h(1,2)])
qed

section \<open>Reading\<close>

lemma value_bytes_take: "length v < PROP_VALUE_MAX \<Longrightarrow> take (length v + 1) (value_bytes v) = v @ [NUL]"
  by (cases "92 - length v") (simp_all add: value_bytes_def)

lemma serial_ok_read:
  assumes "serial_ok i" "info_value pa off = Some v" "to_prop_info pa off = Some i" "length v < PROP_VALUE_MAX \<longrightarrow> pi_value i = Value v"
  shows "\<not> SERIAL_DIRTY (pi_serial i)" "stored_chars i = get_result (Some v)" "SERIAL_VALUE_LEN (pi_serial i) = length (get_result (Some v))"
    "length (get_result (Some v)) < PROP_VALUE_MAX"
proof -
  show "\<not> SERIAL_DIRTY (pi_serial i)" using assms(1) by (simp add: serial_ok_def SERIAL_DIRTY_odd)
  have "stored_chars i = get_result (Some v) \<and> SERIAL_VALUE_LEN (pi_serial i) = length (get_result (Some v)) \<and> length (get_result (Some v)) < 92"
  proof (cases "pi_value i")
    case (Value u)
    then have "u = v" using assms(2,3) by (simp add: info_value_def)
    then show ?thesis using Value assms(1) by (simp add: serial_ok_def SERIAL_VALUE_LEN_div stored_chars_def get_result_def)
  next
    case (LongProperty e o')
    then have "\<not> length v < 92" using assms(4) by auto
    then show ?thesis using LongProperty assms(1)
      by (simp add: serial_ok_def SERIAL_VALUE_LEN_div stored_chars_def get_result_def kLongLegacyError_def)
  qed
  then show "stored_chars i = get_result (Some v)" "SERIAL_VALUE_LEN (pi_serial i) = length (get_result (Some v))"
    "length (get_result (Some v)) < PROP_VALUE_MAX" by simp_all
qed

text \<open>What \<open>Find\<close> finds: nothing, or the object of the name in the area of the name.\<close>

definition found_object :: "kernel \<Rightarrow> system_properties \<Rightarrow> prop_world \<Rightarrow> string \<Rightarrow> prop_ref \<Rightarrow> prop_file \<Rightarrow> prop_info \<Rightarrow> string \<Rightarrow> bool" where
  "found_object K sp w name pi f i v \<longleftrightarrow> sys_area K sp w name = Some (fst pi) \<and> files w (fst (fst pi)) = Some f \<and>
     area_at (fst pi) w = Some (f_area f) \<and>
     pa_find (f_area f) name = Some (Some (snd pi)) \<and> to_prop_info (f_area f) (snd pi) = Some i \<and> pi_name i = name \<and>
     serial_ok i \<and> info_value (f_area f) (snd pi) = Some v \<and> (length v < PROP_VALUE_MAX \<longrightarrow> pi_value i = Value v)"

lemma Find_ok:
  assumes ok: "sys_ok sp w" and short: "length name < 2 ^ 32"
  shows "\<exists>sp' r. Find K name sp w = Some (w, sp', r) \<and> sys_ok sp' w \<and> sys_area K sp' w = sys_area K sp w \<and> sys_serial sp' = sys_serial sp \<and>
    (case sys_lookup K sp w name of None \<Rightarrow> r = None | Some v \<Rightarrow> \<exists>pi f i. r = Some pi \<and> found_object K sp w name pi f i v)"
proof -
  obtain sp' where a: "area_for_name K name sp w = Some (w, sp', sys_area K sp w name)" "sys_ok sp' w" "sys_area K sp' w = sys_area K sp w"
    "sys_serial sp' = sys_serial sp" using area_for_name_ok [OF ok] by blast
  have init: "sp_initialized sp" using ok by (simp add: sys_ok_def)
  show ?thesis
  proof (cases "sys_area K sp w name")
    case None
    then show ?thesis using a init by (simp add: Find_def sys_lookup_def)
  next
    case (Some g)
    then obtain f where f: "files w (fst g) = Some f" "area_at g w = Some (f_area f)" "pa_wf (f_area f)" using sys_area_file [OF ok] by blast
    note lf = pa_lookup_find [OF f(3), of name]
    have l: "sys_lookup K sp w name = pa_lookup (f_area f) name" using Some f by (simp add: sys_lookup_def area_lookup_def)
    show ?thesis
    proof (cases "pa_lookup (f_area f) name")
      case none: None
      then show ?thesis using a init Some f lf(1) [OF none short] l by (simp add: Find_def)
    next
      case v: (Some v)
      obtain off i where o: "pa_find (f_area f) name = Some (Some off)" "to_prop_info (f_area f) off = Some i" "pi_name i = name" "serial_ok i"
        "info_value (f_area f) off = Some v" "length v < PROP_VALUE_MAX \<longrightarrow> pi_value i = Value v" using lf(2) [OF v] by blast
      then have "found_object K sp w name (g, off) f i v" using Some f by (simp add: found_object_def)
      moreover have "Find K name sp w = Some (w, sp', Some (g, off))" using a init Some f o by (simp add: Find_def)
      ultimately show ?thesis using a l v by (auto simp del: split_paired_Ex)
    qed
  qed
qed

lemma Get_ok:
  assumes ok: "sys_ok sp w" and short: "length name < 2 ^ 32"
  shows "\<exists>sp'. Get K name sp w = Some (w, sp', get_result (sys_lookup K sp w name) @ [NUL], length (get_result (sys_lookup K sp w name))) \<and>
    sys_ok sp' w \<and> sys_area K sp' w = sys_area K sp w"
proof -
  obtain sp' r where f: "Find K name sp w = Some (w, sp', r)" "sys_ok sp' w" "sys_area K sp' w = sys_area K sp w"
    "case sys_lookup K sp w name of None \<Rightarrow> r = None | Some v \<Rightarrow> \<exists>pi f i. r = Some pi \<and> found_object K sp w name pi f i v"
    using Find_ok [OF ok short, of K] by blast
  show ?thesis
  proof (cases "sys_lookup K sp w name")
    case None
    then show ?thesis using f by (simp add: Get_def get_result_def)
  next
    case (Some v)
    then obtain pi f' i where "r = Some pi" "found_object K sp w name pi f' i v" using f(4) by auto
    then have o: "r = Some pi" "area_at (fst pi) w = Some (f_area f')" "to_prop_info (f_area f') (snd pi) = Some i" "serial_ok i"
      "info_value (f_area f') (snd pi) = Some v" "length v < PROP_VALUE_MAX \<longrightarrow> pi_value i = Value v"
      unfolding found_object_def by blast+
    note r = serial_ok_read [OF o(4,5,3,6)]
    have i: "prop_info_of pi w = Some i" using o by (simp add: prop_info_of_def)
    have "ReadMutablePropertyValue K pi sp' w = Some (w, sp', pi_serial i, get_result (Some v) @ [NUL])"
      using i r value_bytes_take [OF r(4)] by (simp add: ReadMutablePropertyValue_def Let_def)
    then have "Read K pi False sp' w = Some (w, sp', None, get_result (Some v) @ [NUL], length (get_result (Some v)))"
      using i r(3) by (simp add: Read_def)
    then show ?thesis using f(1-3) o(1) Some by (simp add: Get_def)
  qed
qed

section \<open>Adding and updating\<close>

lemma sys_accessD:
  assumes "sys_access K rw sp w"
  obtains x where "sys_serial sp = Some (x, rw)" "\<And>name pa. sys_area K sp w name = Some pa \<Longrightarrow> snd pa = rw"
  using assms by (auto simp: sys_access_def)

lemma sys_access_same: "sys_area K sp' w' = sys_area K sp w \<Longrightarrow> sys_serial sp' = sys_serial sp \<Longrightarrow> sys_access K rw sp w \<Longrightarrow> sys_access K rw sp' w'"
  by (simp add: sys_access_def)

text \<open>\<open>Add\<close> in the area of the name.\<close>

lemma Add_area:
  assumes ok: "sys_ok sp w" and rw: "sys_access K True sp w" and v: "length v + 1 < 2 ^ 32" and name: "length name < 2 ^ 32"
    and g: "\<not> (length v \<ge> 92 \<and> \<not> is_read_only name)" "\<not> length name < 1" "sys_area K sp w name = Some pa"
  shows "\<exists>w' sp' r. Add K name (length name) v (length v) sp w = Some (w', sp', r) \<and> sys_ok sp' w' \<and> sys_access K True sp' w' \<and> r \<in> {0, - 1} \<and>
    sys_lookup K sp' w' = (if r = 0 \<and> sys_lookup K sp w name = None then (sys_lookup K sp w)(name \<mapsto> v) else sys_lookup K sp w)"
proof -
  have init: "sp_initialized sp" "areas_wf w" and "\<exists>c. sp_contexts sp = Some c" using ok by (auto simp: sys_ok_def)
  then obtain c where c: "sp_contexts sp = Some c" by blast
  obtain x where x: "sys_serial sp = Some (x, True)" "snd pa" using sys_accessD [OF rw] g(3) by metis
  obtain sp' where a: "area_for_name K name sp w = Some (w, sp', sys_area K sp w name)" "sys_ok sp' w" "sys_area K sp' w = sys_area K sp w"
    "sys_serial sp' = sys_serial sp" using area_for_name_ok [OF ok] by blast
  obtain f where f: "files w (fst pa) = Some f" "area_at pa w = Some (f_area f)" "pa_wf (f_area f)" using sys_area_file [OF ok g(3)] by blast
  obtain area ret where p: "pa_add True (f_area f) name (length name) v (length v) = Some (area, ret)" "pa_wf area"
    "pa_lookup area = (if ret \<and> pa_lookup (f_area f) name = None then (pa_lookup (f_area f))(name \<mapsto> v) else pa_lookup (f_area f))"
    using prop_area_add_ok [OF f(3) v name] by blast
  let ?w = "put_area (fst pa) (\<lambda>_. area) w"
  have w': "areas_wf ?w" by (rule put_area_wf [OF init(2)]) (use p(2) pa_add_takes(1) [OF p(1)] f(1) in simp)
  note ok' = sys_same [OF a(2) put_area_same w']
  have l: "sys_lookup K sp' ?w = (if ret \<and> sys_lookup K sp w name = None then (sys_lookup K sp w)(name \<mapsto> v) else sys_lookup K sp w)"
    using g(3) f(1) p(3) unfolding sys_lookup_def [abs_def] ok'(2) a(3)
    by (auto simp: fun_eq_iff put_area_lookup area_lookup_def split: option.splits)
  obtain w2 where w2: "bump_serial (x, True) ?w = Some w2" using bump_serial_rw by blast
  have add: "Add K name (length name) v (length v) sp w = (if \<not> ret then Some (?w, sp', - 1) else Some (w2, sp', 0))"
    using g init c a(1) x f(2) p(1) w2 by (auto simp: Add_def sys_serial_def)
  have acc: "sys_access K True sp' ?w" using sys_access_same [OF _ a(4) rw] ok'(2) a(3) by simp
  show ?thesis
  proof (cases ret)
    case True
    note h = sys_harmless [OF ok'(1) bump_serial_harmless [OF w2]]
    have "sys_access K True sp' w2" by (rule sys_access_same [OF h(3) refl acc])
    then show ?thesis using add True l h by (intro exI [of _ w2] exI [of _ sp'] exI [of _ 0]) simp
  next
    case False
    then show ?thesis using add l ok'(1) acc by (intro exI [of _ ?w] exI [of _ sp'] exI [of _ "- 1"]) simp
  qed
qed

lemma Add_ok:
  assumes ok: "sys_ok sp w" and rw: "sys_access K True sp w" and v: "length v + 1 < 2 ^ 32" and name: "length name < 2 ^ 32"
  shows "\<exists>w' sp' r. Add K name (length name) v (length v) sp w = Some (w', sp', r) \<and> sys_ok sp' w' \<and> sys_access K True sp' w' \<and> r \<in> {0, - 1} \<and>
    sys_lookup K sp' w' = (if r = 0 \<and> sys_lookup K sp w name = None then (sys_lookup K sp w)(name \<mapsto> v) else sys_lookup K sp w)"
proof -
  obtain c where c: "sp_initialized sp" "sp_contexts sp = Some c" using ok by (auto simp: sys_ok_def)
  show ?thesis
  proof (cases "length v \<ge> 92 \<and> \<not> is_read_only name \<or> length name < 1")
    case True
    then have "Add K name (length name) v (length v) sp w = Some (w, sp, - 1)" by (auto simp: Add_def)
    then show ?thesis using ok rw by (intro exI [of _ w] exI [of _ sp] exI [of _ "- 1"]) simp
  next
    case False
    show ?thesis
    proof (cases "sys_area K sp w name")
      case None
      obtain sp' where a: "area_for_name K name sp w = Some (w, sp', sys_area K sp w name)" "sys_ok sp' w" "sys_area K sp' w = sys_area K sp w"
        "sys_serial sp' = sys_serial sp" using area_for_name_ok [OF ok] by blast
      obtain x where "sys_serial sp = Some (x, True)" using sys_accessD [OF rw] .
      then have "Add K name (length name) v (length v) sp w = Some (w, sp', - 1)" using False None c a(1) by (auto simp: Add_def sys_serial_def)
      moreover have "sys_lookup K sp' w = sys_lookup K sp w" unfolding sys_lookup_def [abs_def] a(3) ..
      ultimately show ?thesis using a(2) sys_access_same [OF a(3,4) rw] by (intro exI [of _ w] exI [of _ sp'] exI [of _ "- 1"]) simp
    next
      case (Some pa)
      show ?thesis by (rule Add_area [OF ok rw v name _ _ Some]) (use False in auto)
    qed
  qed
qed

text \<open>A process that has its areas mapped for reading only changes nothing: where it does not fault it fails.\<close>

lemma put_area_id: "files w file = Some f \<Longrightarrow> put_area file (\<lambda>_. f_area f) w = w"
  by (cases w) (auto simp: put_area_def fun_eq_iff)

lemma Add_ro:
  assumes ok: "sys_ok sp w" and ro: "sys_access K False sp w" and add: "Add K name namelen v valuelen sp w = Some (w', sp', r)"
  shows "w' = w \<and> r = - 1"
proof -
  obtain c where c: "sp_initialized sp" "sp_contexts sp = Some c" using ok by (auto simp: sys_ok_def)
  obtain x where x: "sys_serial sp = Some (x, False)" "\<And>pa. sys_area K sp w name = Some pa \<Longrightarrow> \<not> snd pa" using sys_accessD [OF ro] by metis
  obtain sp1 where a: "area_for_name K name sp w = Some (w, sp1, sys_area K sp w name)" using area_for_name_ok [OF ok] by blast
  have s: "GetSerialPropArea c = Some (x, False)" using x(1) c(2) by (simp add: sys_serial_def)
  show ?thesis
  proof (cases "valuelen \<ge> 92 \<and> \<not> is_read_only name \<or> namelen < 1 \<or> sys_area K sp w name = None")
    case True
    then show ?thesis using add c s a by (auto simp: Add_def split: if_splits)
  next
    case False
    then obtain pa where pa: "sys_area K sp w name = Some pa" by auto
    obtain f where f: "files w (fst pa) = Some f" "area_at pa w = Some (f_area f)" using sys_area_file [OF ok pa] by blast
    obtain area ret where p: "pa_add False (f_area f) name namelen v valuelen = Some (area, ret)"
      using add False c s a pa f x(2) [OF pa] by (auto simp: Add_def bind_eq_Some_conv)
    have "put_area (fst pa) (\<lambda>_. area) w = w" using pa_add_takes(2) [OF p] put_area_id [OF f(1)] by simp
    then show ?thesis using add False c s a pa f p x(2) [OF pa] by (auto simp: Add_def bump_serial_def write_area_def split: if_splits)
  qed
qed

lemma Update_ro:
  assumes ok: "sys_ok sp w" and ro: "sys_access K False sp w" and up: "Update K pi v len sp w = Some (w', sp', r)"
  shows "w' = w \<and> r = - 1"
proof -
  obtain c where c: "sp_initialized sp" "sp_contexts sp = Some c" using ok by (auto simp: sys_ok_def)
  obtain x where x: "sys_serial sp = Some (x, False)" "\<And>name pa. sys_area K sp w name = Some pa \<Longrightarrow> \<not> snd pa" using sys_accessD [OF ro] by metis
  have s: "GetSerialPropArea c = Some (x, False)" using x(1) c(2) by (simp add: sys_serial_def)
  show ?thesis
  proof (cases "len \<ge> 92")
    case True
    then show ?thesis using up by (simp add: Update_def)
  next
    case False
    then obtain i where i: "prop_info_of pi w = Some i" using up c s by (auto simp: Update_def bind_eq_Some_conv)
    obtain sp1 where a: "area_for_name K (pi_name i) sp w = Some (w, sp1, sys_area K sp w (pi_name i))" using area_for_name_ok [OF ok] by blast
    show ?thesis using up False c s i a x(2) [of "pi_name i"]
      by (cases "sys_area K sp w (pi_name i)") (auto simp: Update_def Let_def write_area_def bind_eq_Some_conv)
  qed
qed






section \<open>Starting up\<close>

text \<open>Opening keeps the files that there are, adds files with fresh areas, and sets the sizes to what they are.\<close>

definition more_files :: "prop_world \<Rightarrow> prop_world \<Rightarrow> bool" where
  "more_files w w' \<longleftrightarrow> (areas_wf w \<longrightarrow> areas_wf w') \<and> (\<forall>file. files w file \<noteq> None \<longrightarrow> files w' file \<noteq> None)"

lemma more_files_refl: "more_files w w"
  by (simp add: more_files_def)

lemma more_files_trans: "more_files w w1 \<Longrightarrow> more_files w1 w2 \<Longrightarrow> more_files w w2"
  by (simp add: more_files_def)

lemma areas_wf_files: "files w' = files w \<Longrightarrow> areas_wf w' = areas_wf w"
  by (simp add: areas_wf_def)

lemma areas_sized: "areas_wf w \<Longrightarrow> static_pa_size w = PA_SIZE \<Longrightarrow> static_pa_data_size w = PA_DATA_SIZE \<Longrightarrow> sized w"
  unfolding sized_def using areas_wfD(1) by blast

lemma map_prop_area_rw_files:
  assumes "map_prop_area_rw K x w = Some (w', pa)"
  shows "more_files w w'" "pa = Some p \<Longrightarrow> p = (x, True) \<and> files w' x \<noteq> None \<and> (areas_wf w' \<longrightarrow> sized w')"
proof -
  have "w' = w \<or> (\<exists>f. files w' = (files w)(x \<mapsto> f) \<and> file_sized f \<and> f_area f = prop_area_new)"
    using assms by (auto simp: map_prop_area_rw_def file_sized_def Let_def split: if_splits)
  then show "more_files w w'"
  proof
    assume "\<exists>f. files w' = (files w)(x \<mapsto> f) \<and> file_sized f \<and> f_area f = prop_area_new"
    then obtain f where f: "files w' = (files w)(x \<mapsto> f)" "file_sized f" "f_area f = prop_area_new" by blast
    moreover have "pa_data_size prop_area_new = PA_DATA_SIZE" by (simp add: prop_area_new_def)
    ultimately have "areas_wf w'" if "areas_wf w" using prop_area_new_wf areas_wfD [OF that] unfolding areas_wf_def by auto
    then show ?thesis using f(1) by (simp add: more_files_def)
  qed (simp add: more_files_refl)
  show "p = (x, True) \<and> files w' x \<noteq> None \<and> (areas_wf w' \<longrightarrow> sized w')" if "pa = Some p"
    using assms that by (auto simp: map_prop_area_rw_def Let_def intro: areas_sized split: if_splits)
qed

lemma map_prop_area_files:
  assumes "map_prop_area K x w = (w', pa)"
  shows "more_files w w'" "pa = Some p \<Longrightarrow> p = (x, False) \<and> files w' x \<noteq> None \<and> (areas_wf w' \<longrightarrow> sized w')"
proof -
  have fs: "files w' = files w"
    using assms by (auto simp: map_prop_area_def map_fd_ro_def Let_def split: option.splits if_splits)
  then show "more_files w w'" using areas_wf_files [of w' w] by (simp add: more_files_def)
  show "p = (x, False) \<and> files w' x \<noteq> None \<and> (areas_wf w' \<longrightarrow> sized w')" if p: "pa = Some p"
  proof -
    obtain f where f: "files w x = Some f" "map_fd_ro K x f w = (w', pa)"
      using assms p by (auto simp: map_prop_area_def split: option.splits if_splits)
    have s: "p = (x, False)" "static_pa_size w' = f_size f" "static_pa_data_size w' = f_size f - sizeof_prop_area" "\<not> f_size f < sizeof_prop_area"
      using f(2) p by (auto simp: map_fd_ro_def Let_def split: if_splits)
    have "sized w'" if wf: "areas_wf w'"
    proof -
      have "file_sized f" using areas_wfD(1) [OF wf, of x f] fs f(1) by simp
      then show ?thesis using areas_sized [OF wf] s by (simp add: file_sized_def)
    qed
    then show ?thesis using s(1) fs f(1) by simp
  qed
qed

lemma cnode_ok_more: "more_files w w' \<Longrightarrow> cnode_ok w n \<Longrightarrow> cnode_ok w' n"
  unfolding cnode_ok_def more_files_def by blast

text \<open>How a node is mapped: for writing, or not at all or for reading only.\<close>

definition node_access :: "bool \<Rightarrow> context_node \<Rightarrow> bool" where
  "node_access rw n = (if rw then \<exists>file. node_pa n = Some (file, True) else \<forall>pa. node_pa n = Some pa \<longrightarrow> \<not> snd pa)"

lemma node_area_access: "node_access rw n \<Longrightarrow> node_area K filename n w = Some pa \<Longrightarrow> snd pa = rw"
  using map_prop_area_Some [of K "node_file filename (node_context n)" w pa]
  by (auto simp: node_access_def node_area_def split: if_splits)

lemma node_open_rw:
  assumes "node_open K filename True n w = Some (w', n', ok)" "cnode_ok w n" "node_pa n = None"
  shows "more_files w w' \<and> cnode_ok w' n' \<and> (ok \<longrightarrow> node_access True n')"
proof (cases "length (node_file filename (node_context n)) \<ge> 1024")
  case True
  then show ?thesis using assms by (simp add: node_open_def more_files_refl)
next
  case False
  then obtain pa where pa: "map_prop_area_rw K (node_file filename (node_context n)) w = Some (w', pa)" "n' = n\<lparr>node_pa := pa\<rparr>" "ok = (pa \<noteq> None)"
    using assms(1,3) by (auto simp: node_open_def bind_eq_Some_conv)
  note m = map_prop_area_rw_files [OF pa(1)]
  show ?thesis
  proof (cases pa)
    case None
    then show ?thesis using m(1) pa by (simp add: cnode_ok_def)
  next
    case (Some p)
    then show ?thesis using m(1) m(2) [OF Some] pa by (simp add: cnode_ok_def node_access_def)
  qed
qed

text \<open>The nodes are made closed.\<close>

definition closed :: "context_node list \<Rightarrow> bool" where
  "closed ns \<longleftrightarrow> (\<forall>n \<in> set ns. node_pa n = None)"

lemma closed_ok: "closed ns \<Longrightarrow> \<forall>n \<in> set ns. cnode_ok w n"
  by (simp add: closed_def cnode_ok_def)

lemma open_all_ok:
  assumes "open_all K filename ns w = Some (w', ns', failed)" "closed ns"
  shows "more_files w w' \<and> (\<forall>n \<in> set ns'. cnode_ok w' n) \<and> (\<not> failed \<longrightarrow> (\<forall>n \<in> set ns'. node_access True n))"
  using assms
proof (induction ns arbitrary: w ns' failed)
  case (Cons n ns)
  obtain w1 n1 ok1 where o1: "node_open K filename True n w = Some (w1, n1, ok1)"
    using Cons.prems(1) by (cases "node_open K filename True n w") auto
  then obtain ns1 failed1 where o: "node_open K filename True n w = Some (w1, n1, ok1)"
    "open_all K filename ns w1 = Some (w', ns1, failed1)" "ns' = n1 # ns1" "failed = (failed1 \<or> \<not> ok1)"
    using Cons.prems(1) by (cases "open_all K filename ns w1") auto
  have c: "closed ns" "node_pa n = None" using Cons.prems(2) by (simp_all add: closed_def)
  have n1: "more_files w w1" "cnode_ok w1 n1" "ok1 \<longrightarrow> node_access True n1"
    using node_open_rw [OF o(1) _ c(2)] c(2) by (simp_all add: cnode_ok_def)
  from Cons.IH [OF o(2) c(1)] have i: "more_files w1 w'" "\<forall>n \<in> set ns1. cnode_ok w' n"
    "\<not> failed1 \<longrightarrow> (\<forall>n \<in> set ns1. node_access True n)" by simp_all
  show ?case using more_files_trans [OF n1(1) i(1)] cnode_ok_more [OF i(1) n1(2)] n1(3) i(2,3) o(3,4) by simp
qed (simp add: more_files_refl)

lemma MapSerial_ok:
  assumes "MapSerialPropertyArea K filename rw w = Some (w', serial)"
  shows "more_files w w'" "serial = Some pa \<Longrightarrow> snd pa = rw \<and> files w' (fst pa) \<noteq> None \<and> (areas_wf w' \<longrightarrow> sized w')"
proof -
  let ?x = "node_file filename ''properties_serial''"
  have "length ?x \<ge> 1024 \<and> w' = w \<and> serial = None \<or> rw \<and> map_prop_area_rw K ?x w = Some (w', serial) \<or> \<not> rw \<and> map_prop_area K ?x w = (w', serial)"
    using assms by (auto simp: MapSerialPropertyArea_def Let_def split: if_splits)
  then show "more_files w w'" "serial = Some pa \<Longrightarrow> snd pa = rw \<and> files w' (fst pa) \<noteq> None \<and> (areas_wf w' \<longrightarrow> sized w')"
    using map_prop_area_rw_files(1) [of K ?x w w' serial] map_prop_area_files(1) [of K ?x w w' serial] more_files_refl
      map_prop_area_rw_files(2) [of K ?x w w' serial pa] map_prop_area_files(2) [of K ?x w w' serial pa] by auto
qed

lemma add_spec_line_closed:
  assumes "closed (cs_contexts cs)" "add_spec_line K line cs = Some cs'"
  shows "closed (cs_contexts cs')"
proof -
  obtain items entries where "read_spec_entries K line 2 = Some (items, entries)"
    using assms(2) by (cases "read_spec_entries K line 2") (auto simp: add_spec_line_def)
  then show ?thesis using assms(2) assms(1) unfolding add_spec_line_def
    by simp (drule sym, simp add: closed_def ContextNode_def Let_def split: list.split option.split)
qed

lemma add_spec_lines_closed: "closed (cs_contexts cs) \<Longrightarrow> add_spec_lines K lines cs = Some cs' \<Longrightarrow> closed (cs_contexts cs')"
  by (induction lines arbitrary: cs) (auto simp: bind_eq_Some_conv dest: add_spec_line_closed)

lemma FromFile_closed: "InitializePropertiesFromFile K g cs = Some (cs', ok) \<Longrightarrow> closed (cs_contexts cs) \<Longrightarrow> closed (cs_contexts cs')"
  by (auto simp: InitializePropertiesFromFile_def bind_eq_Some_conv dest: add_spec_lines_closed split: option.splits)

lemma split_InitializeProperties_closed:
  "split_InitializeProperties K cs = Some (cs', ok) \<Longrightarrow> closed (cs_contexts cs) \<Longrightarrow> closed (cs_contexts cs')"
  by (auto simp: split_InitializeProperties_def bind_eq_Some_conv dest: FromFile_closed split: if_splits)

text \<open>Opening the nodes for writing, or leaving them closed, and mapping the area of the serial.\<close>

lemma Initialize_nodes:
  assumes "(if rw then open_all K filename ns (w\<lparr>fsetxattr_failed := False\<rparr>) else Some (w, ns, False)) = Some (w1, ns1, False)"
    "closed ns" "MapSerialPropertyArea K filename rw w1 = Some (w2, Some pa)"
  shows "more_files w w2 \<and> (\<forall>n \<in> set ns1. cnode_ok w2 n \<and> node_access rw n) \<and> (areas_wf w2 \<longrightarrow> sized w2) \<and> snd pa = rw"
proof -
  have x: "more_files w (w\<lparr>fsetxattr_failed := False\<rparr>)" by (simp add: more_files_def areas_wf_def)
  have "more_files w w1 \<and> (\<forall>n \<in> set ns1. cnode_ok w1 n \<and> node_access rw n)"
  proof (cases rw)
    case True
    then have o: "open_all K filename ns (w\<lparr>fsetxattr_failed := False\<rparr>) = Some (w1, ns1, False)" using assms(1) by simp
    from open_all_ok [OF o assms(2)] more_files_trans [OF x, of w1] True show ?thesis by simp
  next
    case False
    then show ?thesis using assms(1,2) closed_ok [OF assms(2), of w] by (auto simp: more_files_refl node_access_def closed_def)
  qed
  moreover note m = MapSerial_ok [OF assms(3)]
  ultimately show ?thesis using more_files_trans [of w w1 w2] cnode_ok_more [OF m(1)] by simp
qed

lemma split_Initialize_ok:
  assumes i: "split_Initialize K rw filename cs w = Some (w', cs', True)" and closed: "closed (cs_contexts cs)"
  shows "more_files w w' \<and> (areas_wf w' \<longrightarrow> sized w') \<and> (\<forall>n \<in> set (cs_contexts cs'). cnode_ok w' n \<and> node_access rw n) \<and>
    (\<exists>file. cs_serial cs' = Some (file, rw))"
proof -
  obtain cs1 where p: "split_InitializeProperties K (cs\<lparr>cs_filename := filename\<rparr>) = Some (cs1, True)"
    using i by (auto simp: split_Initialize_def bind_eq_Some_conv split: if_splits)
  have c1: "closed (cs_contexts cs1)" using split_InitializeProperties_closed [OF p] closed by simp
  let ?o = "if rw then open_all K filename (cs_contexts cs1) (w\<lparr>fsetxattr_failed := False\<rparr>) else Some (w, cs_contexts cs1, False)"
  obtain w1 ns1 failed where o: "?o = Some (w1, ns1, failed)" using i p by (cases ?o) (auto simp: split_Initialize_def)
  have nf: "\<not> failed" using i p o by (auto simp: split_Initialize_def)
  then obtain w2 serial where m: "MapSerialPropertyArea K filename rw w1 = Some (w2, serial)"
    using i p o by (cases "MapSerialPropertyArea K filename rw w1") (auto simp: split_Initialize_def)
  obtain pa where e: "w' = w2" "cs' = cs1\<lparr>cs_contexts := ns1, cs_serial := serial\<rparr>" "serial = Some pa"
    using i p o m nf by (auto simp: split_Initialize_def Let_def split: if_splits)
  show ?thesis using Initialize_nodes [of rw K filename "cs_contexts cs1" w w1 ns1 w2 pa] o nf c1 m e by (cases pa) simp
qed

lemma serialized_Initialize_ok:
  assumes i: "serialized_Initialize K rw filename cz w = Some (w', cz', True)"
  shows "more_files w w' \<and> (areas_wf w' \<longrightarrow> sized w') \<and> (\<forall>n \<in> set (cz_nodes cz'). cnode_ok w' n \<and> node_access rw n) \<and>
    cz_info cz' \<noteq> None \<and> (\<exists>file. cz_serial cz' = Some (file, rw))"
proof -
  obtain cz1 where p: "serialized_InitializeProperties K (cz\<lparr>cz_filename := filename\<rparr>) = (cz1, True)"
    using i by (cases "serialized_InitializeProperties K (cz\<lparr>cz_filename := filename\<rparr>)") (auto simp: serialized_Initialize_def split: bool.splits)
  have c1: "closed (cz_nodes cz1)" "cz_info cz1 \<noteq> None" using p
    by (auto simp: serialized_InitializeProperties_def InitializeContextNodes_def closed_def ContextNode_def split: option.splits if_splits)
  let ?o = "if rw then open_all K filename (cz_nodes cz1) (w\<lparr>fsetxattr_failed := False\<rparr>) else Some (w, cz_nodes cz1, False)"
  obtain w1 ns1 failed where o: "?o = Some (w1, ns1, failed)" using i p by (cases ?o) (auto simp: serialized_Initialize_def)
  have nf: "\<not> failed" using i p o by (auto simp: serialized_Initialize_def)
  then obtain w2 serial where m: "MapSerialPropertyArea K filename rw w1 = Some (w2, serial)"
    using i p o by (cases "MapSerialPropertyArea K filename rw w1") (auto simp: serialized_Initialize_def)
  obtain pa where e: "w' = w2" "cz' = cz1\<lparr>cz_nodes := ns1, cz_serial := serial\<rparr>" "serial = Some pa"
    using i p o m nf by (auto simp: serialized_Initialize_def Let_def split: if_splits)
  show ?thesis using Initialize_nodes [of rw K filename "cz_nodes cz1" w w1 ns1 w2 pa] o nf c1 m e by (cases pa) simp
qed

text \<open>The areas of the contexts are mapped as they were opened.\<close>

definition contexts_access :: "bool \<Rightarrow> contexts \<Rightarrow> bool" where
  "contexts_access rw c = (case c of
      ContextsPreSplit pa \<Rightarrow> \<exists>file. pa = Some (file, rw)
    | ContextsSplit cs \<Rightarrow> (\<forall>n \<in> set (cs_contexts cs). node_access rw n) \<and> (\<exists>file. cs_serial cs = Some (file, rw))
    | ContextsSerialized cz \<Rightarrow> (\<forall>n \<in> set (cz_nodes cz). node_access rw n) \<and> (\<exists>file. cz_serial cz = Some (file, rw)))"

lemma ListFind_set: "ListFind P xs = Some x \<Longrightarrow> x \<in> set xs"
  by (induction xs) (auto split: if_splits)

lemma contexts_area_access:
  assumes "contexts_access rw c" "contexts_area K c w name = Some pa"
  shows "snd pa = rw"
proof (cases c)
  case (ContextsPreSplit p)
  then show ?thesis using assms by (auto simp: contexts_access_def contexts_area_def pre_split_area_def)
next
  case (ContextsSplit cs)
  then have "\<exists>n \<in> set (cs_contexts cs). node_area K (cs_filename cs) n w = Some pa"
    using assms(2) ListFind_set by (fastforce simp: contexts_area_def split_area_def context_area_def split: option.splits)
  moreover have "\<forall>n \<in> set (cs_contexts cs). node_access rw n" using assms(1) ContextsSplit by (simp add: contexts_access_def)
  ultimately show ?thesis using node_area_access by blast
next
  case (ContextsSerialized cz)
  then have "\<exists>n \<in> set (cz_nodes cz). node_area K (cz_filename cz) n w = Some pa"
    using assms(2) nth_mem by (fastforce simp: contexts_area_def serialized_area_def Let_def not_le split: option.splits if_splits)
  moreover have "\<forall>n \<in> set (cz_nodes cz). node_access rw n" using assms(1) ContextsSerialized by (simp add: contexts_access_def)
  ultimately show ?thesis using node_area_access by blast
qed

lemma contexts_Initialize_ok:
  assumes i: "contexts_Initialize K rw filename c w = Some (w', c', True)" and wf: "areas_wf w"
    and c: "c = ContextsPreSplit None \<and> \<not> rw \<or> c = new_split \<or> c = new_serialized"
  shows "areas_wf w' \<and> sized w' \<and> contexts_ok c' w' \<and> contexts_access rw c'"
proof (cases c)
  case (ContextsPreSplit p)
  then obtain pa where pa: "map_prop_area K filename w = (w', Some pa)" "c' = ContextsPreSplit (Some pa)" "\<not> rw"
    using i c by (auto simp: contexts_Initialize_def new_split_def new_serialized_def split: prod.splits)
  show ?thesis using map_prop_area_files(1) [OF pa(1)] map_prop_area_files(2) [OF pa(1) refl] wf pa(2,3)
    by (cases pa) (auto simp: more_files_def contexts_ok_def pre_split_ok_def contexts_access_def)
next
  case (ContextsSplit cs)
  then have "closed (cs_contexts cs)" using c by (auto simp: new_split_def new_serialized_def closed_def)
  then show ?thesis using i wf ContextsSplit split_Initialize_ok [of K rw filename cs w w']
    by (auto simp: contexts_Initialize_def more_files_def contexts_ok_def split_ok_def contexts_access_def bind_eq_Some_conv)
next
  case (ContextsSerialized cz)
  then show ?thesis using i wf serialized_Initialize_ok [of K rw filename cz w w']
    by (auto simp: contexts_Initialize_def more_files_def contexts_ok_def serialized_ok_def contexts_access_def bind_eq_Some_conv)
qed

lemma sys_started:
  assumes "areas_wf w \<and> sized w \<and> contexts_ok c w \<and> contexts_access rw c" "sp_contexts sp = Some c" "sp_initialized sp"
  shows "sys_ok sp w \<and> sys_access K rw sp w"
proof -
  have "\<exists>file. GetSerialPropArea c = Some (file, rw)" using assms(1) by (cases c) (auto simp: contexts_access_def GetSerialPropArea_def)
  then show ?thesis using assms contexts_area_access [of rw c K w] by (auto simp: sys_ok_def sys_access_def sys_area_def sys_serial_def)
qed

section \<open>Properties\<close>

text \<open>A process before the properties are used.\<close>

definition sp_unused :: system_properties where
  "sp_unused = \<lparr>sp_initialized = False, sp_contexts = None, property_filename = []\<rparr>"

lemma Init_ok:
  assumes "areas_wf w" "Init K filename sp_unused w = Some (w', sp', True)"
  shows "sys_ok sp' w' \<and> sys_access K False sp' w'"
proof -
  obtain c c' where "contexts_Initialize K False filename c w = Some (w', c', True)"
    "c = ContextsPreSplit None \<or> c = new_split \<or> c = new_serialized" "sp_contexts sp' = Some c'" "sp_initialized sp'"
    using assms(2) by (auto simp: Init_def sp_unused_def bind_eq_Some_conv Let_def split: if_splits)
  then show ?thesis using sys_started contexts_Initialize_ok [OF _ assms(1)] by blast
qed

lemma AreaInit_ok:
  assumes "areas_wf w" "AreaInit K filename sp_unused w = Some (w', sp', True)"
  shows "sys_ok sp' w' \<and> sys_access K True sp' w'"
proof -
  obtain c' where "contexts_Initialize K True filename new_serialized w = Some (w', c', True)"
    "sp_contexts sp' = Some c'" "sp_initialized sp'"
    using assms(2) by (auto simp: AreaInit_def sp_unused_def bind_eq_Some_conv split: if_splits)
  then show ?thesis using sys_started contexts_Initialize_ok [OF _ assms(1)] by blast
qed


text \<open>C8. The properties stay well-formed. A process opens the properties with \<open>Init\<close>, whatever kind of
  contexts it finds, or creates their files with \<open>AreaInit\<close>; the files are areas of the size that \<open>AreaInit\<close>
  gives them, with a well-formed trie, or too short to be mapped. When it succeeds, every area is still so, every
  context node refers to a mapped file, the area of the serial is mapped, and \<open>Find\<close> and \<open>Get\<close> return and
  keep it so. After \<open>AreaInit\<close> all areas are mapped for writing, and \<open>Add\<close> returns and keeps all this. After \<open>Init\<close>
  they are mapped for reading only: \<open>Add\<close> and \<open>Update\<close> change nothing, and where they do not fault they return -1.\<close>

theorem system_properties_well_formed:
  assumes "areas_wf w" "(if rw then AreaInit K filename sp_unused w else Init K filename sp_unused w) = Some (w', sp, True)"
    "length v + 1 < 2 ^ 32" "length name < 2 ^ 32"
  shows "sys_ok sp w' \<and> sys_access K rw sp w' \<and>
    (\<exists>sp1 r. Find K name sp w' = Some (w', sp1, r) \<and> sys_ok sp1 w' \<and> sys_access K rw sp1 w') \<and>
    (\<exists>sp1 r. Get K name sp w' = Some (w', sp1, r) \<and> sys_ok sp1 w') \<and>
    (if rw then \<exists>w1 sp1 r. Add K name (length name) v (length v) sp w' = Some (w1, sp1, r) \<and> sys_ok sp1 w1 \<and> sys_access K rw sp1 w1
     else \<forall>w1 sp1 r pi. Add K name (length name) v (length v) sp w' = Some (w1, sp1, r) \<or> Update K pi v (length v) sp w' = Some (w1, sp1, r)
       \<longrightarrow> w1 = w' \<and> r = - 1)"
proof -
  have ok: "sys_ok sp w'" and acc: "sys_access K rw sp w'"
    using assms(2) Init_ok [OF assms(1)] AreaInit_ok [OF assms(1)] by (auto split: if_splits)
  have "\<exists>sp1 r. Find K name sp w' = Some (w', sp1, r) \<and> sys_ok sp1 w' \<and> sys_access K rw sp1 w'"
    using Find_ok [OF ok assms(4), of K] sys_access_same [OF _ _ acc] by blast
  moreover have "\<exists>sp1 r. Get K name sp w' = Some (w', sp1, r) \<and> sys_ok sp1 w'" using Get_ok [OF ok assms(4), of K] by blast
  moreover have "if rw then \<exists>w1 sp1 r. Add K name (length name) v (length v) sp w' = Some (w1, sp1, r) \<and> sys_ok sp1 w1 \<and> sys_access K rw sp1 w1
     else \<forall>w1 sp1 r pi. Add K name (length name) v (length v) sp w' = Some (w1, sp1, r) \<or> Update K pi v (length v) sp w' = Some (w1, sp1, r)
       \<longrightarrow> w1 = w' \<and> r = - 1"
  proof (cases rw)
    case True
    then have "sys_access K True sp w'" using acc by simp
    from Add_ok [OF ok this assms(3,4)] True show ?thesis by auto
  next
    case False
    then have ro: "sys_access K False sp w'" using acc by simp
    show ?thesis unfolding if_not_P [OF False] using Add_ro [OF ok ro] Update_ro [OF ok ro] by blast
  qed
  ultimately show ?thesis using ok acc by (intro conjI)
qed

text \<open>C6. Adding and reading back. In a process that has the properties open for writing, \<open>Add\<close> returns 0 or -1.
  Afterwards \<open>Get\<close> returns, for every name, the value and its length: the new value for the name that was
  added, if it did not exist and \<open>Add\<close> returned 0; else what it was before. Values too long for
  the buffer are replaced by a message, unknown names give the empty string. Names are shorter than \<open>2 ^ 32\<close>.\<close>

theorem system_property_add_get:
  assumes "sys_ok sp w" "sys_access K True sp w" "length v + 1 < 2 ^ 32" "length name < 2 ^ 32"
  shows "\<exists>w' sp' r. Add K name (length name) v (length v) sp w = Some (w', sp', r) \<and> r \<in> {0, - 1} \<and>
    (\<forall>other. length other < 2 ^ 32 \<longrightarrow> (\<exists>sp''. Get K other sp' w' = Some (w', sp'',
       let s = get_result (if other = name \<and> r = 0 \<and> sys_lookup K sp w name = None then Some v else sys_lookup K sp w other)
       in (s @ [NUL], length s))))"
proof -
  obtain w' sp' r where a: "Add K name (length name) v (length v) sp w = Some (w', sp', r)" "sys_ok sp' w'" "r \<in> {0, - 1}"
    "sys_lookup K sp' w' = (if r = 0 \<and> sys_lookup K sp w name = None then (sys_lookup K sp w)(name \<mapsto> v) else sys_lookup K sp w)"
    using Add_ok [OF assms] by blast
  have "\<exists>sp''. Get K other sp' w' = Some (w', sp'',
       let s = get_result (if other = name \<and> r = 0 \<and> sys_lookup K sp w name = None then Some v else sys_lookup K sp w other)
       in (s @ [NUL], length s))" if "length other < 2 ^ 32" for other
    using Get_ok [OF a(2) that, of K] a(4) by (auto simp: Let_def split: if_splits)
  then show ?thesis using a(1,3) by blast
qed


section \<open>An example\<close>

text \<open>The process that creates the properties, with one context for all names.\<close>

definition example_info :: property_info where
  "example_info = \<lparr>num_contexts = 1, context_name = (\<lambda>_. ''u''), context_index = (\<lambda>_. 0)\<rparr>"

definition example_kernel :: kernel where
  "example_kernel = \<lparr>k_access = (\<lambda>_. True), k_is_dir = (\<lambda>_. True), k_open = (\<lambda>_. True), k_fstat = (\<lambda>_. True), k_create = (\<lambda>_. 0),
     k_setxattr = (\<lambda>_. True), k_truncate = (\<lambda>_. True), k_mmap = (\<lambda>_. True), k_anon_mmap = True, k_strndup = (\<lambda>_. True),
     k_lines = (\<lambda>_. None), k_property_info = Some example_info, k_uid = 0, k_gid = 0\<rparr>"

definition example_file :: "prop_area \<Rightarrow> prop_file" where
  "example_file pa = \<lparr>f_uid = 0, f_gid = 0, f_mode = 0x124, f_size = PA_SIZE,
     f_magic = PROP_AREA_MAGIC, f_version = PROP_AREA_VERSION, f_area = pa\<rparr>"

definition empty_world :: prop_world where
  "empty_world = \<lparr>files = Map.empty, fsetxattr_failed = False, static_pa_size = 0, static_pa_data_size = 0\<rparr>"

definition example_world :: "prop_area \<Rightarrow> prop_world" where
  "example_world pa = \<lparr>files = [''/p/u'' \<mapsto> example_file pa, ''/p/properties_serial'' \<mapsto> example_file prop_area_new],
     fsetxattr_failed = False, static_pa_size = PA_SIZE, static_pa_data_size = PA_DATA_SIZE\<rparr>"

definition example_sp :: system_properties where
  "example_sp = \<lparr>sp_initialized = True, sp_contexts = Some (ContextsSerialized \<lparr>cz_info = Some example_info,
     cz_nodes = [\<lparr>node_context = ''u'', node_pa = Some (''/p/u'', True), no_access = False\<rparr>],
     cz_serial = Some (''/p/properties_serial'', True), cz_filename = ''/p''\<rparr>), property_filename = ''/p''\<rparr>"

lemma example_init: "AreaInit example_kernel ''/p'' sp_unused empty_world = Some (example_world prop_area_new, example_sp, True)"
  by (simp add: AreaInit_def sp_unused_def example_kernel_def example_world_def example_sp_def contexts_Initialize_def new_serialized_def
      serialized_Initialize_def serialized_InitializeProperties_def InitializeContextNodes_def example_info_def ContextNode_def
      node_open_def node_file_def map_prop_area_rw_def MapSerialPropertyArea_def empty_world_def example_file_def Let_def del: split_paired_All split_paired_Ex)

lemma example_wf: "pa_wf pa \<Longrightarrow> pa_data_size pa = PA_DATA_SIZE \<Longrightarrow> areas_wf (example_world pa)"
  using prop_area_new_wf by (simp add: areas_wf_def example_world_def example_file_def file_sized_def prop_area_new_def)

lemma example_ok:
  assumes "pa_wf pa" "pa_data_size pa = PA_DATA_SIZE"
  shows "sys_ok example_sp (example_world pa) \<and> sys_access example_kernel True example_sp (example_world pa)"
proof (rule sys_started)
  let ?c = "the (sp_contexts example_sp)"
  show "areas_wf (example_world pa) \<and> sized (example_world pa) \<and> contexts_ok ?c (example_world pa) \<and> contexts_access True ?c"
    using example_wf [OF assms] areas_sized [OF example_wf [OF assms]]
    by (simp add: example_world_def example_sp_def contexts_ok_def serialized_ok_def cnode_ok_def contexts_access_def node_access_def)
qed (simp_all add: example_sp_def)

lemma example_lookup: "sys_lookup K example_sp (example_world pa) name = pa_lookup pa name"
  by (simp add: sys_lookup_def sys_area_def example_sp_def contexts_area_def serialized_area_def node_area_def example_info_def
      area_lookup_def example_world_def example_file_def)

lemma pa_lookup_new: "pa_lookup prop_area_new n = None"
  using pa_lookup_inv(2) [OF prop_area_new_inv] by (auto simp: prop_at_def node_at_def prop_area_new_def prop_bt_new_def)


theorem system_properties_well_formed_witness:
  "sys_ok example_sp (example_world prop_area_new) \<and> sys_access example_kernel True example_sp (example_world prop_area_new) \<and>
    (\<exists>w sp r. Add example_kernel ''a'' (length ''a'') ''1'' (length ''1'') example_sp (example_world prop_area_new) = Some (w, sp, r) \<and> sys_ok sp w)"
proof -
  have "areas_wf empty_world" by (simp add: areas_wf_def empty_world_def)
  then show ?thesis using system_properties_well_formed [of empty_world True example_kernel "''/p''" "example_world prop_area_new" example_sp
      "''1''" "''a''"] example_init by auto
qed

theorem system_property_add_get_witness:
  "\<exists>w' sp' r. Add example_kernel ''a'' (length ''a'') ''1'' (length ''1'') example_sp (example_world prop_area_new) = Some (w', sp', r) \<and>
    (\<exists>sp''. Get example_kernel ''b'' sp' w' = Some (w', sp'', [NUL], 0)) \<and>
    (r = 0 \<longrightarrow> (\<exists>sp''. Get example_kernel ''a'' sp' w' = Some (w', sp'', ''1'' @ [NUL], 1)))"
proof -
  let ?w = "example_world prop_area_new"
  have new: "sys_lookup example_kernel example_sp ?w n = None" for n unfolding example_lookup by (rule pa_lookup_new)
  have ok: "sys_ok example_sp ?w" "sys_access example_kernel True example_sp ?w"
    using example_ok [OF prop_area_new_wf] by (simp_all add: prop_area_new_def)
  obtain w' sp' r where a: "Add example_kernel ''a'' (length ''a'') ''1'' (length ''1'') example_sp ?w = Some (w', sp', r)"
    "\<forall>other. length other < 2 ^ 32 \<longrightarrow> (\<exists>sp''. Get example_kernel other sp' w' = Some (w', sp'',
       let s = get_result (if other = ''a'' \<and> r = 0 \<and> sys_lookup example_kernel example_sp ?w ''a'' = None then Some ''1''
         else sys_lookup example_kernel example_sp ?w other)
       in (s @ [NUL], length s)))"
    using system_property_add_get [OF ok, of "''1''" "''a''"] by auto
  from a(1) spec [OF a(2), of "''b''"] spec [OF a(2), of "''a''"] new show ?thesis
    by (cases "r = 0") (simp_all add: get_result_def)
qed


end
