(* ===== verification/Pthread_Cond.thy ===== *)
theory Pthread_Cond
  imports Bionic_Futex
begin

text \<open>
  Condition variables (\<open>pthread_cond.cpp\<close>, 64-bit): the attributes, and waiting, signalling and
  broadcasting as steps of concurrent threads. The mutex is what its contract says: a thread
  takes it when it is free and gives it back. Some fields only observe the run: \<open>pulses\<close> counts the
  increments of the counter, \<open>started\<close> the calls of signal and broadcast, \<open>finished\<close> is the largest
  number of a broadcast that has returned; \<open>cw_seen\<close> and \<open>cw_ticket\<close> are their values when a
  waiting thread read the state and when it was counted as a waiter. \<open>wrapped\<close> tells that a thread
  called the futex after so many increments that the counter had come round.
\<close>

section \<open>Attributes\<close>

abbreviation (input) PTHREAD_PROCESS_PRIVATE :: int where "PTHREAD_PROCESS_PRIVATE \<equiv> 0"
abbreviation (input) PTHREAD_PROCESS_SHARED :: int where "PTHREAD_PROCESS_SHARED \<equiv> 1"
abbreviation (input) COND_SHARED_MASK :: "'a :: len word" where "COND_SHARED_MASK \<equiv> 1"
abbreviation (input) COND_CLOCK_MASK :: "'a :: len word" where "COND_CLOCK_MASK \<equiv> 2"
abbreviation (input) COND_COUNTER_STEP :: u32 where "COND_COUNTER_STEP \<equiv> 4"
abbreviation (input) COND_FLAGS_MASK :: "'a :: len word" where "COND_FLAGS_MASK \<equiv> COND_SHARED_MASK OR COND_CLOCK_MASK"

definition COND_IS_SHARED :: "'a :: len word \<Rightarrow> bool" where
  "COND_IS_SHARED c \<longleftrightarrow> c AND COND_SHARED_MASK \<noteq> 0"

definition COND_GET_CLOCK :: "'a :: len word \<Rightarrow> 'a word" where
  "COND_GET_CLOCK c = drop_bit 1 (c AND COND_CLOCK_MASK)"

definition COND_SET_CLOCK :: "u64 \<Rightarrow> int \<Rightarrow> u64" where
  "COND_SET_CLOCK attr c = attr OR push_bit 1 (of_int c)"

definition pthread_condattr_init :: "u64 \<times> int" where
  "pthread_condattr_init = (0 OR of_int PTHREAD_PROCESS_PRIVATE OR push_bit 1 (of_int CLOCK_REALTIME), 0)"

definition pthread_condattr_getpshared :: "u64 \<Rightarrow> int \<times> int" where
  "pthread_condattr_getpshared attr = (if COND_IS_SHARED attr then 1 else 0, 0)"

definition pthread_condattr_setpshared :: "u64 \<Rightarrow> int \<Rightarrow> u64 \<times> int" where
  "pthread_condattr_setpshared attr pshared =
     (if pshared \<noteq> PTHREAD_PROCESS_SHARED \<and> pshared \<noteq> PTHREAD_PROCESS_PRIVATE then (attr, EINVAL)
      else (attr OR of_int pshared, 0))"

definition pthread_condattr_getclock :: "u64 \<Rightarrow> int \<times> int" where
  "pthread_condattr_getclock attr = (uint (COND_GET_CLOCK attr), 0)"

definition pthread_condattr_setclock :: "u64 \<Rightarrow> int \<Rightarrow> u64 \<times> int" where
  "pthread_condattr_setclock attr clock =
     (if clock \<noteq> CLOCK_MONOTONIC \<and> clock \<noteq> CLOCK_REALTIME then (attr, EINVAL)
      else (COND_SET_CLOCK attr clock, 0))"

definition pthread_condattr_destroy :: "u64 \<times> int" where
  "pthread_condattr_destroy = (0xdeada11d, 0)"

section \<open>Condition variables\<close>

record 'k cond =
  cond_state :: u32
  waiters :: u32
  cond_futex :: 'k
  mutex_owner :: "tid option"
  pulses :: nat
  started :: nat
  finished :: nat
  wrapped :: bool

definition process_shared :: "'k cond \<Rightarrow> bool" where
  "process_shared g = COND_IS_SHARED (cond_state g)"

definition use_realtime_clock :: "'k cond \<Rightarrow> bool" where
  "use_realtime_clock g \<longleftrightarrow> uint (COND_GET_CLOCK (cond_state g)) = CLOCK_REALTIME"

definition pthread_cond_init :: "u64 option \<Rightarrow> 'k \<Rightarrow> 'k cond" where
  "pthread_cond_init attr k =
     \<lparr>cond_state = (case attr of None \<Rightarrow> 0 | Some a \<Rightarrow> ucast (a AND COND_FLAGS_MASK)), waiters = 0, cond_futex = k,
      mutex_owner = None, pulses = 0, started = 0, finished = 0, wrapped = False\<rparr>"

definition pthread_cond_destroy :: "'k cond \<Rightarrow> 'k cond" where
  "pthread_cond_destroy g = g\<lparr>cond_state := 0xdeadc04d\<rparr>"

text \<open>Calls and the places inside them.\<close>

datatype cv_call =
    CallLock
  | CallUnlock
  | CallWait
  | CallTimedwait "timespec option"
  | CallTimedwaitMonotonic "timespec option"
  | CallClockwait int "timespec option"
  | CallSignal
  | CallBroadcast

datatype cv_pc =
    CvIdle
  | CwLoad
  | CwAdd u32
  | CwUnlock u32
  | CwWait u32
  | CwSleep u32
  | CwSub int
  | CwRelock int
  | CpLoad nat
  | CpAdd nat
  | CpWake nat

record cv_thread =
  cv_pc :: cv_pc
  cv_ret :: int
  cw_realtime :: bool
  cw_timeout :: "timespec option"
  cw_seen :: nat
  cw_ticket :: nat
  cp_ticket :: nat

type_synonym 'k cv_outcomes = "('k cond \<times> cv_thread) list"

definition cv_goto :: "cv_thread \<Rightarrow> cv_pc \<Rightarrow> cv_thread" where
  "cv_goto l pc = l\<lparr>cv_pc := pc\<rparr>"

definition cv_return :: "cv_thread \<Rightarrow> int \<Rightarrow> cv_thread" where
  "cv_return l r = l\<lparr>cv_pc := CvIdle, cv_ret := r\<rparr>"

text \<open>\<open>__pthread_cond_pulse\<close>. A broadcast, which wakes \<open>INT_MAX\<close> threads, is noted when it returns.\<close>

definition pulse_return :: "nat \<Rightarrow> 'k cond \<Rightarrow> nat \<Rightarrow> 'k cond" where
  "pulse_return ticket g thread_count =
     (if thread_count = INT_MAX_nat then g\<lparr>finished := max (finished g) ticket\<rparr> else g)"

definition pthread_cond_pulse_step :: "'k futex_ops \<Rightarrow> 'k cond \<Rightarrow> cv_thread \<Rightarrow> 'k cv_outcomes" where
  "pthread_cond_pulse_step fx g l =
     (case cv_pc l of
        CpLoad thread_count \<Rightarrow>
          let g = g\<lparr>started := started g + 1\<rparr>; l = l\<lparr>cp_ticket := started g\<rparr> in
          if waiters g = 0 then [(pulse_return (cp_ticket l) g thread_count, cv_return l 0)]
          else [(g, cv_goto l (CpAdd thread_count))]
      | CpAdd thread_count \<Rightarrow>
          [(g\<lparr>cond_state := cond_state g + COND_COUNTER_STEP, pulses := pulses g + 1\<rparr>, cv_goto l (CpWake thread_count))]
      | CpWake thread_count \<Rightarrow>
          map (\<lambda>(k, r). (pulse_return (cp_ticket l) (g\<lparr>cond_futex := k\<rparr>) thread_count, cv_return l 0))
            (fx_wake fx thread_count (cond_futex g))
      | _ \<Rightarrow> [])"

text \<open>\<open>__pthread_cond_timedwait\<close>, after the check of the timeout.\<close>

definition pthread_cond_timedwait_step :: "'k futex_ops \<Rightarrow> tid \<Rightarrow> 'k cond \<Rightarrow> cv_thread \<Rightarrow> 'k cv_outcomes" where
  "pthread_cond_timedwait_step fx t g l =
     (case cv_pc l of
        CwLoad \<Rightarrow> [(g, (cv_goto l (CwAdd (cond_state g)))\<lparr>cw_seen := pulses g\<rparr>)]
      | CwAdd old_state \<Rightarrow>
          [(g\<lparr>waiters := waiters g + 1\<rparr>, (cv_goto l (CwUnlock old_state))\<lparr>cw_ticket := started g\<rparr>)]
      | CwUnlock old_state \<Rightarrow> [(g\<lparr>mutex_owner := None\<rparr>, cv_goto l (CwWait old_state))]
      | CwWait old_state \<Rightarrow>
          map (\<lambda>(k, r). (g\<lparr>cond_futex := k, wrapped := wrapped g \<or> pulses g - cw_seen l \<ge> 2 ^ 30\<rparr>,
                 cv_goto l (case r of None \<Rightarrow> CwSleep old_state | Some status \<Rightarrow> CwSub status)))
            (fx_wait fx t (cond_state g) old_state (cond_futex g))
      | CwSleep old_state \<Rightarrow>
          map (\<lambda>(k, status). (g\<lparr>cond_futex := k\<rparr>, cv_goto l (CwSub status))) (fx_leave fx t (cond_futex g))
      | CwSub status \<Rightarrow> [(g\<lparr>waiters := waiters g - 1\<rparr>, cv_goto l (CwRelock status))]
      | CwRelock status \<Rightarrow>
          if mutex_owner g = None
          then [(g\<lparr>mutex_owner := Some t\<rparr>, cv_return l (if status = - ETIMEDOUT then ETIMEDOUT else 0))]
          else []
      | _ \<Rightarrow> [])"

text \<open>The beginning of \<open>__pthread_cond_timedwait\<close>.\<close>

definition timedwait_begin :: "bool \<Rightarrow> timespec option \<Rightarrow> cv_thread \<Rightarrow> cv_thread" where
  "timedwait_begin use_realtime abs_timeout l =
     (case check_timespec abs_timeout True of
        Some r \<Rightarrow> if r \<noteq> 0 then cv_return l r else (cv_goto l CwLoad)\<lparr>cw_realtime := use_realtime, cw_timeout := abs_timeout\<rparr>
      | None \<Rightarrow> l)"

definition pthread_cond_clockwait :: "int \<Rightarrow> timespec option \<Rightarrow> cv_thread \<Rightarrow> cv_thread" where
  "pthread_cond_clockwait clock abs_timeout l =
     (if clock = CLOCK_MONOTONIC then timedwait_begin False abs_timeout l
      else if clock = CLOCK_REALTIME then timedwait_begin True abs_timeout l
      else cv_return l EINVAL)"

text \<open>An idle thread calls; only the owner of the mutex may wait or unlock.\<close>

definition cv_call_step :: "tid \<Rightarrow> 'k cond \<Rightarrow> cv_thread \<Rightarrow> cv_call \<Rightarrow> 'k cv_outcomes" where
  "cv_call_step t g l call =
     (let waiting = (\<lambda>l'. if mutex_owner g = Some t then [(g, l')] else []) in
      case call of
        CallLock \<Rightarrow> if mutex_owner g = None then [(g\<lparr>mutex_owner := Some t\<rparr>, cv_return l 0)] else []
      | CallUnlock \<Rightarrow> if mutex_owner g = Some t then [(g\<lparr>mutex_owner := None\<rparr>, cv_return l 0)] else []
      | CallWait \<Rightarrow> waiting (timedwait_begin False None l)
      | CallTimedwait abstime \<Rightarrow> waiting (timedwait_begin (use_realtime_clock g) abstime l)
      | CallTimedwaitMonotonic abs_timeout \<Rightarrow> waiting (timedwait_begin False abs_timeout l)
      | CallClockwait clock abs_timeout \<Rightarrow> waiting (pthread_cond_clockwait clock abs_timeout l)
      | CallSignal \<Rightarrow> [(g, cv_goto l (CpLoad 1))]
      | CallBroadcast \<Rightarrow> [(g, cv_goto l (CpLoad INT_MAX_nat))])"

text \<open>No thread has the id 0.\<close>

definition cv_step :: "'k futex_ops \<Rightarrow> cv_call list \<Rightarrow> ('k cond, cv_thread) thread_step" where
  "cv_step fx calls t g l =
     (if t = 0 then []
      else if cv_pc l = CvIdle then concat (map (cv_call_step t g l) calls)
      else pthread_cond_pulse_step fx g l @ pthread_cond_timedwait_step fx t g l)"

section \<open>Waiters\<close>

text \<open>A thread that is counted as a waiter.\<close>

fun counted :: "cv_pc \<Rightarrow> bool" where
  "counted (CwUnlock _) = True"
| "counted (CwWait _) = True"
| "counted (CwSleep _) = True"
| "counted (CwSub _) = True"
| "counted _ = False"

fun expected :: "cv_pc \<Rightarrow> u32 option" where
  "expected (CwAdd e) = Some e"
| "expected (CwUnlock e) = Some e"
| "expected (CwWait e) = Some e"
| "expected (CwSleep e) = Some e"
| "expected _ = None"

text \<open>What holds of a thread: a waiter knows an earlier state, and any broadcast that began after it
  was counted and has incremented the counter makes that state an old one.\<close>

definition missed :: "'k cond \<Rightarrow> cv_thread \<Rightarrow> bool" where
  "missed g l \<longleftrightarrow> counted (cv_pc l) \<and> cw_ticket l < finished g"

definition cond_at :: "u32 \<Rightarrow> nat \<Rightarrow> u32" where
  "cond_at s0 n = s0 + 4 * of_nat n"

definition waiter_inv :: "u32 \<Rightarrow> 'k cond \<Rightarrow> cv_thread \<Rightarrow> bool" where
  "waiter_inv s0 g l \<longleftrightarrow>
     (counted (cv_pc l) \<or> expected (cv_pc l) \<noteq> None \<longrightarrow> cw_seen l \<le> pulses g) \<and>
     (\<forall>e. expected (cv_pc l) = Some e \<longrightarrow> e = cond_at s0 (cw_seen l)) \<and>
     (counted (cv_pc l) \<longrightarrow> cw_ticket l \<le> started g \<and> (cw_ticket l < finished g \<longrightarrow> cw_seen l < pulses g))"

definition pulse_inv :: "'k cond \<Rightarrow> cv_thread \<Rightarrow> cv_thread \<Rightarrow> bool" where
  "pulse_inv g p l \<longleftrightarrow>
     ((\<exists>n. cv_pc p = CpAdd n \<or> cv_pc p = CpWake n) \<longrightarrow> cp_ticket p \<le> started g) \<and>
     ((\<exists>n. cv_pc p = CpWake n) \<and> counted (cv_pc l) \<and> cw_ticket l < cp_ticket p \<longrightarrow> cw_seen l < pulses g)"

definition cv_inv :: "'k futex_ops \<Rightarrow> u32 \<Rightarrow> 'k cond \<Rightarrow> (tid \<Rightarrow> cv_thread) \<Rightarrow> bool" where
  "cv_inv fx s0 g ls \<longleftrightarrow> futex_laws fx \<and>
     cond_state g = cond_at s0 (pulses g) \<and> finished g \<le> started g \<and>
     waiters g = of_nat (card {u. counted (cv_pc (ls u))}) \<and> \<not> counted (cv_pc (ls 0)) \<and>
     (\<forall>u. waiter_inv s0 g (ls u)) \<and> (\<forall>p u. pulse_inv g (ls p) (ls u)) \<and>
     (\<forall>u. fx_asleep fx (cond_futex g) u \<longrightarrow> (\<exists>e. cv_pc (ls u) = CwSleep e)) \<and>
     (\<not> wrapped g \<longrightarrow> (\<forall>u. fx_asleep fx (cond_futex g) u \<longrightarrow> finished g \<le> cw_ticket (ls u)))"

lemma timedwait_begin_pc:
  "cv_pc l = CvIdle \<Longrightarrow> cv_pc (timedwait_begin rt ts l) \<in> {CvIdle, CwLoad}"
  by (auto simp: timedwait_begin_def check_timespec_def cv_return_def cv_goto_def split: option.split)

lemma cv_call_step_quiet:
  assumes "(g', l') \<in> set (cv_call_step t g l call)" "cv_pc l = CvIdle"
  shows "g' = g\<lparr>mutex_owner := mutex_owner g'\<rparr> \<and> cv_pc l' \<in> {CvIdle, CwLoad, CpLoad 1, CpLoad INT_MAX_nat}"
proof -
  have c: "cv_pc (pthread_cond_clockwait clock ts l) \<in> {CvIdle, CwLoad}" for clock ts
    using timedwait_begin_pc [OF assms(2)] by (auto simp: pthread_cond_clockwait_def cv_return_def)
  show ?thesis using assms(1) c timedwait_begin_pc [OF assms(2)]
    by (cases call) (auto simp: cv_call_step_def Let_def cv_return_def cv_goto_def split: if_splits)
qed

text \<open>The steps of a thread.\<close>

lemma cv_step_cases:
  assumes "(g', l') \<in> set (cv_step fx calls t g l)"
  obtains
    (call) m where "cv_pc l = CvIdle" "g' = g\<lparr>mutex_owner := m\<rparr>" "cv_pc l' \<in> {CvIdle, CwLoad, CpLoad 1, CpLoad INT_MAX_nat}"
  | (no_waiters) n where "cv_pc l = CpLoad n" "waiters g = 0" "g' = pulse_return (started g + 1) (g\<lparr>started := started g + 1\<rparr>) n" "cv_pc l' = CvIdle"
  | (pulse) n where "cv_pc l = CpLoad n" "waiters g \<noteq> 0" "g' = g\<lparr>started := started g + 1\<rparr>" "l' = l\<lparr>cv_pc := CpAdd n, cp_ticket := started g + 1\<rparr>"
  | (add) n where "cv_pc l = CpAdd n" "g' = g\<lparr>cond_state := cond_state g + 4, pulses := pulses g + 1\<rparr>" "l' = l\<lparr>cv_pc := CpWake n\<rparr>"
  | (wake) n k r where "cv_pc l = CpWake n" "(k, r) \<in> set (fx_wake fx n (cond_futex g))"
      "g' = pulse_return (cp_ticket l) (g\<lparr>cond_futex := k\<rparr>) n" "cv_pc l' = CvIdle"
  | (load) "cv_pc l = CwLoad" "g' = g" "l' = l\<lparr>cv_pc := CwAdd (cond_state g), cw_seen := pulses g\<rparr>"
  | (count) e where "cv_pc l = CwAdd e" "g' = g\<lparr>waiters := waiters g + 1\<rparr>" "l' = l\<lparr>cv_pc := CwUnlock e, cw_ticket := started g\<rparr>"
  | (unlock) e where "cv_pc l = CwUnlock e" "g' = g\<lparr>mutex_owner := None\<rparr>" "l' = l\<lparr>cv_pc := CwWait e\<rparr>"
  | (wait) e k r where "cv_pc l = CwWait e" "(k, r) \<in> set (fx_wait fx t (cond_state g) e (cond_futex g))"
      "g' = g\<lparr>cond_futex := k, wrapped := wrapped g \<or> pulses g - cw_seen l \<ge> 2 ^ 30\<rparr>"
      "l' = l\<lparr>cv_pc := case r of None \<Rightarrow> CwSleep e | Some status \<Rightarrow> CwSub status\<rparr>"
  | (leave) e k r where "cv_pc l = CwSleep e" "(k, r) \<in> set (fx_leave fx t (cond_futex g))" "g' = g\<lparr>cond_futex := k\<rparr>" "l' = l\<lparr>cv_pc := CwSub r\<rparr>"
  | (uncount) st where "cv_pc l = CwSub st" "g' = g\<lparr>waiters := waiters g - 1\<rparr>" "l' = l\<lparr>cv_pc := CwRelock st\<rparr>"
  | (relock) st where "cv_pc l = CwRelock st" "g' = g\<lparr>mutex_owner := Some t\<rparr>" "cv_pc l' = CvIdle" "mutex_owner g = None"
proof (cases "cv_pc l = CvIdle")
  case True
  then obtain c where "(g', l') \<in> set (cv_call_step t g l c)" using assms by (auto simp: cv_step_def split: if_splits)
  from cv_call_step_quiet [OF this True] True show ?thesis using call by blast
next
  case False
  then consider "(g', l') \<in> set (pthread_cond_pulse_step fx g l)" | "(g', l') \<in> set (pthread_cond_timedwait_step fx t g l)"
    using assms by (auto simp: cv_step_def split: if_splits)
  then show ?thesis
  proof cases
    case 1
    then show ?thesis
      by (cases "cv_pc l") (auto simp: pthread_cond_pulse_step_def Let_def cv_return_def cv_goto_def
          intro: no_waiters pulse add wake split: if_splits)
  next
    case 2
    then show ?thesis
      by (cases "cv_pc l") (auto simp: pthread_cond_timedwait_step_def cv_return_def cv_goto_def
          intro: load count unlock wait leave uncount relock split: if_splits)
  qed
qed

lemma pulse_return_simps [simp]:
  "cond_state (pulse_return k g n) = cond_state g" "waiters (pulse_return k g n) = waiters g"
  "cond_futex (pulse_return k g n) = cond_futex g" "pulses (pulse_return k g n) = pulses g"
  "started (pulse_return k g n) = started g" "wrapped (pulse_return k g n) = wrapped g"
  "mutex_owner (pulse_return k g n) = mutex_owner g"
  "finished (pulse_return k g n) = (if n = INT_MAX_nat then max (finished g) k else finished g)"
  by (simp_all add: pulse_return_def)

text \<open>The number of waiters.\<close>

lemma counted_step:
  assumes "(g', l') \<in> set (cv_step fx calls t g l)"
  shows "counted (cv_pc l') = counted (cv_pc l) \<and> waiters g' = waiters g \<or>
    \<not> counted (cv_pc l) \<and> counted (cv_pc l') \<and> waiters g' = waiters g + 1 \<or>
    counted (cv_pc l) \<and> \<not> counted (cv_pc l') \<and> waiters g' = waiters g - 1"
  using assms by (cases rule: cv_step_cases) (auto split: option.splits)

lemma waiters_step:
  fixes ls :: "tid \<Rightarrow> cv_thread"
  assumes w: "waiters g = of_nat (card {u. counted (cv_pc (ls u))})" and st: "(g', l') \<in> set (cv_step fx calls t g (ls t))"
  shows "waiters g' = of_nat (card {u. counted (cv_pc ((ls(t := l')) u))})"
proof -
  let ?R = "{u. counted (cv_pc (ls u))}"
  have R: "{u. counted (cv_pc ((ls(t := l')) u))} = (if counted (cv_pc l') then insert t ?R else ?R - {t})" by auto
  have fin: "finite ?R" by simp
  from counted_step [OF st] show ?thesis
  proof (elim disjE conjE)
    assume "\<not> counted (cv_pc (ls t))" "counted (cv_pc l')" "waiters g' = waiters g + 1"
    then show ?thesis using w unfolding R by (simp add: add.commute)
  next
    assume c: "counted (cv_pc (ls t))" "\<not> counted (cv_pc l')" "waiters g' = waiters g - 1"
    then have "card ?R = Suc (card (?R - {t}))" using card_Suc_Diff1 [OF fin, of t] by simp
    then show ?thesis using c w unfolding R by simp
  next
    assume c: "counted (cv_pc l') = counted (cv_pc (ls t))" "waiters g' = waiters g"
    then have "(if counted (cv_pc l') then insert t ?R else ?R - {t}) = ?R" by auto
    then show ?thesis using w c(2) unfolding R by simp
  qed
qed

lemma no_waiters_none:
  fixes ls :: "tid \<Rightarrow> cv_thread"
  assumes "waiters g = of_nat (card {u. counted (cv_pc (ls u))})" "\<not> counted (cv_pc (ls 0))" "waiters g = 0"
  shows "\<not> counted (cv_pc (ls u))"
proof -
  let ?R = "{u. counted (cv_pc (ls u))}"
  have "?R \<subset> UNIV" using assms(2) by auto
  then have "card ?R < card (UNIV :: tid set)" by (intro psubset_card_mono) simp_all
  also have "card (UNIV :: tid set) = 4294967296" by (simp add: card_word)
  finally have "unat (of_nat (card ?R) :: u32) = card ?R" by (intro unat_of_nat_small) simp
  then have "card ?R = 0" using assms(1,3) by simp
  then show ?thesis by simp
qed

text \<open>What a step may change for the others.\<close>

lemma waiter_inv_mono:
  assumes "waiter_inv s0 g l" "pulses g \<le> pulses g'" "started g \<le> started g'"
    and "finished g' = finished g \<or> (counted (cv_pc l) \<and> cw_ticket l < finished g' \<longrightarrow> cw_seen l < pulses g')"
  shows "waiter_inv s0 g' l"
  using assms unfolding waiter_inv_def by force

lemma pulse_inv_mono:
  assumes "pulse_inv g p l" "pulses g \<le> pulses g'" "started g \<le> started g'"
  shows "pulse_inv g' p l"
  using assms unfolding pulse_inv_def by force

lemma cv_step_mono:
  assumes "(g', l') \<in> set (cv_step fx calls t g l)"
  shows "pulses g \<le> pulses g' \<and> started g \<le> started g'"
  using assms by (cases rule: cv_step_cases) auto

text \<open>A broadcast that returns was late enough for all waiters that were there before it.\<close>

lemma finished_step:
  assumes w: "waiters g = of_nat (card {u. counted (cv_pc (ls u))})" "\<not> counted (cv_pc (ls 0))"
    and p: "\<And>u. pulse_inv g (ls t) (ls u)" and f: "\<And>u. waiter_inv s0 g (ls u)"
    and st: "(g', l') \<in> set (cv_step fx calls t g (ls t))"
  shows "finished g' = finished g \<or> (counted (cv_pc (ls u)) \<and> cw_ticket (ls u) < finished g' \<longrightarrow> cw_seen (ls u) < pulses g')"
  using st
proof (cases rule: cv_step_cases)
  case (no_waiters n)
  then show ?thesis using no_waiters_none [OF w] by simp
next
  case (wake n k r)
  then show ?thesis using p [of u] f [of u] by (auto simp: pulse_inv_def waiter_inv_def)
qed simp_all

lemma waiter_inv_own:
  assumes s: "cond_state g = cond_at s0 (pulses g)" "finished g \<le> started g" and i: "waiter_inv s0 g l"
    and st: "(g', l') \<in> set (cv_step fx calls t g l)"
  shows "waiter_inv s0 g' l'"
  using st
proof (cases rule: cv_step_cases)
  case (wait e k r)
  then show ?thesis using i by (cases r) (auto simp: waiter_inv_def)
qed (use i s in \<open>auto simp: waiter_inv_def\<close>)

lemma pulse_inv_own:
  assumes i: "pulse_inv g l m" and m: "waiter_inv s0 g m" and st: "(g', l') \<in> set (cv_step fx calls t g l)"
  shows "pulse_inv g' l' m"
  using st
proof (cases rule: cv_step_cases)
  case (wait e k r)
  then show ?thesis by (cases r) (auto simp: pulse_inv_def)
qed (use i m in \<open>auto simp: pulse_inv_def waiter_inv_def\<close>)

lemma pulse_inv_waiter:
  assumes i: "pulse_inv g p l" and st: "(g', l') \<in> set (cv_step fx calls t g l)"
  shows "pulse_inv g' p l'"
  using st
proof (cases rule: cv_step_cases)
  case (wait e k r)
  then show ?thesis using i by (cases r) (auto simp: pulse_inv_def)
qed (use i in \<open>auto simp: pulse_inv_def\<close>)

lemma cond_at_inj:
  assumes "cond_at s0 n = cond_at s0 m" "m \<le> n" "n - m < 2 ^ 30"
  shows "n = m"
proof -
  have "(4 :: u32) * of_nat n = 4 * of_nat m" using assms(1) by (simp add: cond_at_def)
  then have "of_nat (4 * (n - m)) = (0 :: u32)" using assms(2) by (simp add: of_nat_diff right_diff_distrib)
  then have "unat (of_nat (4 * (n - m)) :: u32) = 0" by simp
  moreover have "unat (of_nat (4 * (n - m)) :: u32) = 4 * (n - m)" using assms(3) by (intro unat_of_nat_small) simp
  ultimately show ?thesis using assms(2) by simp
qed

lemma cv_asleep_step:
  assumes laws: "futex_laws fx" and a: "\<forall>u. fx_asleep fx (cond_futex g) u \<longrightarrow> (\<exists>e. cv_pc (ls u) = CwSleep e)"
    and st: "(g', l') \<in> set (cv_step fx calls t g (ls t))" and u: "fx_asleep fx (cond_futex g') u"
  shows "u \<noteq> t \<and> fx_asleep fx (cond_futex g) u \<or> u = t \<and> (\<exists>e. cv_pc (ls t) = CwWait e \<and> cv_pc l' = CwSleep e \<and> cond_state g = e)"
  using st
proof (cases rule: cv_step_cases)
  case (wake n k r)
  then show ?thesis using futex_wakeD(1) [OF laws wake(2), of u] u spec [OF a, of t] by auto
next
  case (wait e k r)
  have "\<not> fx_asleep fx (cond_futex g) t" using spec [OF a, of t] wait(1) by auto
  then show ?thesis using futex_waitD [OF laws wait(2)] u wait by (cases "u = t") auto
next
  case (leave e k r)
  then show ?thesis using futex_leaveD(1,2) [OF laws leave(2)] u by (cases "u = t") auto
qed (use spec [OF a, of t] u in \<open>auto\<close>)

lemma wrapped_step: "(g', l') \<in> set (cv_step fx calls t g l) \<Longrightarrow> wrapped g \<Longrightarrow> wrapped g'"
  by (erule cv_step_cases) auto

lemma finished_asleep:
  assumes laws: "futex_laws fx" and w: "waiters g = of_nat (card {u. counted (cv_pc (ls u))})" "\<not> counted (cv_pc (ls 0))"
    and a: "\<forall>u. fx_asleep fx (cond_futex g) u \<longrightarrow> (\<exists>e. cv_pc (ls u) = CwSleep e)"
    and st: "(g', l') \<in> set (cv_step fx calls t g (ls t))" and u: "fx_asleep fx (cond_futex g') u"
  shows "fx_asleep fx (cond_futex g) u \<longrightarrow> finished g' = finished g"
  using st
proof (cases rule: cv_step_cases)
  case (no_waiters n)
  then show ?thesis using no_waiters_none [OF w, of u] spec [OF a, of u] by auto
next
  case (wake n k r)
  then show ?thesis using futex_wakeD(3) [OF laws wake(2), of u] u by auto
qed simp_all

text \<open>A thread that goes to sleep has seen the current state, unless the counter has come round.\<close>

lemma sleep_fresh:
  assumes s: "cond_state g = cond_at s0 (pulses g)" and i: "waiter_inv s0 g l"
    and st: "(g', l') \<in> set (cv_step fx calls t g l)" and "\<not> wrapped g'" "cv_pc l = CwWait e" "cond_state g = e"
  shows "finished g' \<le> cw_ticket l'"
  using st
proof (cases rule: cv_step_cases)
  case (wait e' k r)
  have e: "e = cond_at s0 (cw_seen l)" "cw_seen l \<le> pulses g" "cw_ticket l < finished g \<longrightarrow> cw_seen l < pulses g"
    using i assms(5) by (simp_all add: waiter_inv_def)
  moreover have "pulses g - cw_seen l < 2 ^ 30" using assms(4) wait(3) by simp
  ultimately have "pulses g = cw_seen l" using cond_at_inj [of s0 "pulses g" "cw_seen l"] s assms(6) by simp
  then show ?thesis using e(3) wait by simp
qed (use assms(5) in simp_all)

lemma cv_inv_step:
  assumes inv: "cv_inv fx s0 g ls" and st: "(g', l') \<in> set (cv_step fx calls t g (ls t))"
  shows "cv_inv fx s0 g' (ls(t := l'))"
proof -
  let ?ls = "ls(t := l')"
  have laws: "futex_laws fx" and s: "cond_state g = cond_at s0 (pulses g)" "finished g \<le> started g"
    and w: "waiters g = of_nat (card {u. counted (cv_pc (ls u))})" "\<not> counted (cv_pc (ls 0))"
    and wi: "\<And>u. waiter_inv s0 g (ls u)" and p: "\<And>p u. pulse_inv g (ls p) (ls u)"
    and a: "\<forall>u. fx_asleep fx (cond_futex g) u \<longrightarrow> (\<exists>e. cv_pc (ls u) = CwSleep e)"
    and f: "\<And>u. \<not> wrapped g \<Longrightarrow> fx_asleep fx (cond_futex g) u \<Longrightarrow> finished g \<le> cw_ticket (ls u)"
    using inv unfolding cv_inv_def by blast+
  note mono = cv_step_mono [OF st] and fin = finished_step [where ls = ls, OF w p wi st] and asl = cv_asleep_step [where ls = ls, OF laws a st]
  have t: "t \<noteq> 0" using st by (auto simp: cv_step_def)
  have wi': "waiter_inv s0 g' (?ls u)" for u
    using waiter_inv_own [OF s wi st] waiter_inv_mono [OF wi _ _ fin, of u] mono by (cases "u = t") simp_all
  have p': "pulse_inv g' (?ls q) (?ls u)" for q u
  proof -
    have own: "pulse_inv g' (?ls t) (ls u)" for u using pulse_inv_own [OF p wi st] by simp
    show ?thesis
    proof (cases "u = t")
      case True
      show ?thesis
      proof (cases "q = t")
        case qt: True
        have "cv_pc l' = CvIdle \<or> cv_pc l' = CwLoad \<or> (\<exists>n. cv_pc l' = CpLoad n \<or> cv_pc l' = CpAdd n \<or> cv_pc l' = CpWake n) \<longrightarrow> \<not> counted (cv_pc l')"
          by auto
        then show ?thesis using own [of t] qt True by (auto simp: pulse_inv_def)
      next
        case False
        then show ?thesis using pulse_inv_waiter [OF p st] True by simp
      qed
    next
      case False
      then show ?thesis using own [of u] pulse_inv_mono [OF p, of g' q u] mono by (cases "q = t") simp_all
    qed
  qed
  have a': "\<exists>e. cv_pc (?ls u) = CwSleep e" if "fx_asleep fx (cond_futex g') u" for u
    using asl [OF that] spec [OF a, of u] by auto
  have f': "finished g' \<le> cw_ticket (?ls u)" if nw: "\<not> wrapped g'" and u: "fx_asleep fx (cond_futex g') u" for u
    using asl [OF u]
  proof (elim disjE conjE exE)
    assume "u \<noteq> t" "fx_asleep fx (cond_futex g) u"
    moreover from this have "finished g' = finished g" using finished_asleep [where ls = ls, OF laws w a st u] by blast
    moreover have "\<not> wrapped g" using nw wrapped_step [OF st] by blast
    ultimately show ?thesis using f [of u] by simp
  next
    fix e assume "u = t" "cv_pc (ls t) = CwWait e" "cv_pc l' = CwSleep e" "cond_state g = e"
    with sleep_fresh [OF s(1) wi st nw] show ?thesis by simp
  qed
  have "cond_state g' = cond_at s0 (pulses g') \<and> finished g' \<le> started g'"
    using st by (cases rule: cv_step_cases) (use s p [of t t] in \<open>auto simp: cond_at_def pulse_inv_def algebra_simps\<close>)
  then show ?thesis unfolding cv_inv_def using laws waiters_step [OF w(1) st] w(2) t wi' p' a' f' by simp
qed

interpretation cond: par_invariant "cv_step fx calls" "cv_inv fx s0" for fx calls s0
  by unfold_locales (rule cv_inv_step)

section \<open>Properties\<close>

definition cv_start :: cv_thread where
  "cv_start = \<lparr>cv_pc = CvIdle, cv_ret = 0, cw_realtime = False, cw_timeout = None, cw_seen = 0, cw_ticket = 0, cp_ticket = 0\<rparr>"

lemma cv_inv_start:
  assumes "futex_laws fx" "\<And>u. \<not> fx_asleep fx k u"
  shows "cv_inv fx (cond_state (pthread_cond_init attr k)) (pthread_cond_init attr k) (\<lambda>_. cv_start)"
  using assms by (simp add: cv_inv_def pthread_cond_init_def cv_start_def cond_at_def waiter_inv_def pulse_inv_def)

text \<open>C10. A broadcast wakes all. Whatever threads wait, signal and broadcast, and whoever holds the mutex
  meanwhile: when a broadcast has returned, no thread is asleep any more that was counted as a
  waiter, which is before it gave back the mutex, when the broadcast began. This includes
  threads that were not yet asleep then, and broadcasts that found no waiters and did
  nothing. The exception the code comments on, that the counter comes round between
  reading the state and calling the futex, takes \<open>2 ^ 30\<close> increments.\<close>

theorem pthread_cond_broadcast_wakes:
  assumes "futex_laws fx" "\<And>u. \<not> fx_asleep fx k u"
    and "par_reach (cv_step fx calls) (pthread_cond_init attr k, \<lambda>_. cv_start) (g, ls)"
    and "\<not> wrapped g" "fx_asleep fx (cond_futex g) u"
  shows "(\<exists>e. cv_pc (ls u) = CwSleep e) \<and> finished g \<le> cw_ticket (ls u)"
proof -
  have "cv_inv fx (cond_state (pthread_cond_init attr k)) g ls"
    using cond.par_reach_inv [OF assms(3), of "cond_state (pthread_cond_init attr k)"] cv_inv_start [OF assms(1,2)] by simp
  then show ?thesis using assms(4,5) unfolding cv_inv_def by blast
qed

text \<open>A broadcast finds nobody; then a thread waits.\<close>

lemmas cv_run_simps = cv_step_def cv_call_step_def timedwait_begin_def check_timespec_def pthread_cond_pulse_step_def
  pthread_cond_timedwait_step_def pulse_return_def cv_goto_def cv_return_def cv_start_def pthread_cond_init_def futex_queue_def Let_def
  fun_upd_twist

theorem pthread_cond_broadcast_wakes_witness:
  "\<exists>g ls. par_reach (cv_step futex_queue [CallLock, CallWait, CallBroadcast]) (pthread_cond_init None [], \<lambda>_. cv_start) (g, ls) \<and>
     fx_asleep futex_queue (cond_futex g) 3 \<and> finished g = 1 \<and> (\<exists>e. cv_pc (ls 3) = CwSleep e) \<and> finished g \<le> cw_ticket (ls 3)"
proof -
  let ?g = "(pthread_cond_init None ([] :: tid list))\<lparr>waiters := 1, cond_futex := [3], started := 1, finished := 1\<rparr>"
  let ?ls = "(\<lambda>_ :: tid. cv_start)(3 := cv_start\<lparr>cv_pc := CwSleep 0, cw_ticket := 1\<rparr>, 5 := cv_start\<lparr>cp_ticket := 1\<rparr>)"
  have "par_run (cv_step futex_queue [CallLock, CallWait, CallBroadcast]) (pthread_cond_init None [], \<lambda>_. cv_start)
      [(5, 1), (5, 0), (3, 0), (3, 0), (3, 0), (3, 0), (3, 0), (3, 0)] = Some (?g, ?ls)"
    by (simp add: cv_run_simps)
  note reach = par_run_reach [OF this]
  have q: "fx_asleep futex_queue (cond_futex ?g) 3" by (simp add: futex_queue_def)
  have n: "\<not> fx_asleep futex_queue [] u" for u by (simp add: futex_queue_def)
  have "\<not> wrapped ?g" by (simp add: pthread_cond_init_def)
  from pthread_cond_broadcast_wakes [OF futex_queue_laws n reach this q] have
    "(\<exists>e. cv_pc (?ls 3) = CwSleep e) \<and> finished ?g \<le> cw_ticket (?ls 3)" .
  moreover have "finished ?g = 1" by simp
  ultimately show ?thesis using reach q by blast
qed

text \<open>Setting the clock only sets a bit: once the monotonic clock was chosen, choosing the real-time clock
  reports success and changes nothing. Likewise for the sharing.\<close>

lemma or_and_absorb: "(a OR b) AND b = (b :: 'a :: len word)"
  by (rule bit_word_eqI) (auto simp: bit_and_iff bit_or_iff)

lemma condattr_setclock_sticky:
  "pthread_condattr_setclock (fst (pthread_condattr_setclock a CLOCK_MONOTONIC)) CLOCK_REALTIME =
     (fst (pthread_condattr_setclock a CLOCK_MONOTONIC), 0)"
  "fst (pthread_condattr_getclock (fst (pthread_condattr_setclock a CLOCK_MONOTONIC))) = CLOCK_MONOTONIC"
  using or_and_absorb [of a 2]
  by (simp_all add: pthread_condattr_setclock_def COND_SET_CLOCK_def pthread_condattr_getclock_def COND_GET_CLOCK_def)

lemma condattr_setpshared_sticky:
  "pthread_condattr_setpshared (fst (pthread_condattr_setpshared a PTHREAD_PROCESS_SHARED)) PTHREAD_PROCESS_PRIVATE =
     (fst (pthread_condattr_setpshared a PTHREAD_PROCESS_SHARED), 0)"
  "fst (pthread_condattr_getpshared (fst (pthread_condattr_setpshared a PTHREAD_PROCESS_SHARED))) = PTHREAD_PROCESS_SHARED"
  using or_and_absorb [of a 1]
  by (simp_all add: pthread_condattr_setpshared_def pthread_condattr_getpshared_def COND_IS_SHARED_def)

end
