(* ===== verification/Rand48.thy ===== *)
theory Rand48
  imports Bionic_Prelude Complex_Main
begin

text \<open>
  The 48-bit linear congruential generators (\<open>_rand48.c\<close> and the files of the functions) and \<open>rand_r\<close>.
  The library computes with three digits of 16 bits; the properties show that this is the
  recurrence on 48-bit numbers, and which part of the number each function returns. A \<open>double\<close> is
  its value: 48 bits are exact in it.
\<close>

section \<open>The functions\<close>

type_synonym xseed = "u16 \<times> u16 \<times> u16"

record rand48 =
  rand48_seed :: xseed
  rand48_mult :: xseed
  rand48_add :: u16
  sseed :: xseed

abbreviation (input) RAND48_SEED_0 :: u16 where "RAND48_SEED_0 \<equiv> 0x330e"
abbreviation (input) RAND48_SEED_1 :: u16 where "RAND48_SEED_1 \<equiv> 0xabcd"
abbreviation (input) RAND48_SEED_2 :: u16 where "RAND48_SEED_2 \<equiv> 0x1234"
abbreviation (input) RAND48_MULT_0 :: u16 where "RAND48_MULT_0 \<equiv> 0xe66d"
abbreviation (input) RAND48_MULT_1 :: u16 where "RAND48_MULT_1 \<equiv> 0xdeec"
abbreviation (input) RAND48_MULT_2 :: u16 where "RAND48_MULT_2 \<equiv> 0x0005"
abbreviation (input) RAND48_ADD :: u16 where "RAND48_ADD \<equiv> 0x000b"

definition rand48_initial :: rand48 where
  "rand48_initial =
     \<lparr>rand48_seed = (RAND48_SEED_0, RAND48_SEED_1, RAND48_SEED_2),
      rand48_mult = (RAND48_MULT_0, RAND48_MULT_1, RAND48_MULT_2), rand48_add = RAND48_ADD, sseed = (0, 0, 0)\<rparr>"

definition dorand48 :: "rand48 \<Rightarrow> xseed \<Rightarrow> xseed" where
  "dorand48 g xseed =
     (case rand48_mult g of (m0, m1, m2) \<Rightarrow> case xseed of (x0, x1, x2) \<Rightarrow>
      let accu = ucast m0 * ucast x0 :: u64;
          accu = accu + ucast (rand48_add g);
          temp0 = ucast accu;
          accu = drop_bit 16 accu;
          accu = accu + ucast m0 * ucast x1;
          accu = accu + ucast m1 * ucast x0;
          temp1 = ucast accu;
          accu = drop_bit 16 accu;
          accu = accu + ucast m0 * ucast x2;
          accu = accu + ucast m1 * ucast x1;
          accu = accu + ucast m2 * ucast x0
      in (temp0, temp1, ucast accu))"

text \<open>\<open>ldexp\<close> scales by a power of two.\<close>

definition erand48 :: "rand48 \<Rightarrow> xseed \<Rightarrow> xseed \<times> real" where
  "erand48 g xseed =
     (case dorand48 g xseed of (x0, x1, x2) \<Rightarrow>
       ((x0, x1, x2), real (unat x0) / 2 ^ 48 + real (unat x1) / 2 ^ 32 + real (unat x2) / 2 ^ 16))"

definition drand48 :: "rand48 \<Rightarrow> rand48 \<times> real" where
  "drand48 g = (case erand48 g (rand48_seed g) of (x, r) \<Rightarrow> (g\<lparr>rand48_seed := x\<rparr>, r))"

definition nrand48 :: "rand48 \<Rightarrow> xseed \<Rightarrow> xseed \<times> int" where
  "nrand48 g xseed =
     (case dorand48 g xseed of (x0, x1, x2) \<Rightarrow> ((x0, x1, x2), uint x2 * 32768 + uint (drop_bit 1 x1)))"

definition lrand48 :: "rand48 \<Rightarrow> rand48 \<times> int" where
  "lrand48 g =
     (case dorand48 g (rand48_seed g) of (x0, x1, x2) \<Rightarrow>
       (g\<lparr>rand48_seed := (x0, x1, x2)\<rparr>, uint x2 * 32768 + uint (drop_bit 1 x1)))"

definition jrand48 :: "rand48 \<Rightarrow> xseed \<Rightarrow> xseed \<times> int" where
  "jrand48 g xseed = (case dorand48 g xseed of (x0, x1, x2) \<Rightarrow> ((x0, x1, x2), sint x2 * 65536 + uint x1))"

definition mrand48 :: "rand48 \<Rightarrow> rand48 \<times> int" where
  "mrand48 g =
     (case dorand48 g (rand48_seed g) of (x0, x1, x2) \<Rightarrow> (g\<lparr>rand48_seed := (x0, x1, x2)\<rparr>, sint x2 * 65536 + uint x1))"

definition srand48 :: "rand48 \<Rightarrow> u64 \<Rightarrow> rand48" where
  "srand48 g seed =
     g\<lparr>rand48_seed := (RAND48_SEED_0, ucast seed, ucast (drop_bit 16 seed)),
       rand48_mult := (RAND48_MULT_0, RAND48_MULT_1, RAND48_MULT_2), rand48_add := RAND48_ADD\<rparr>"

definition seed48 :: "rand48 \<Rightarrow> xseed \<Rightarrow> rand48 \<times> xseed" where
  "seed48 g xseed =
     (let g = g\<lparr>sseed := rand48_seed g\<rparr>;
          g = g\<lparr>rand48_seed := xseed, rand48_mult := (RAND48_MULT_0, RAND48_MULT_1, RAND48_MULT_2), rand48_add := RAND48_ADD\<rparr>
      in (g, sseed g))"

definition lcong48 :: "rand48 \<Rightarrow> xseed \<Rightarrow> xseed \<Rightarrow> u16 \<Rightarrow> rand48" where
  "lcong48 g p012 p345 p6 = g\<lparr>rand48_seed := p012, rand48_mult := p345, rand48_add := p6\<rparr>"

abbreviation (input) RAND_MAX :: u32 where "RAND_MAX \<equiv> 0x7fffffff"

definition rand_r :: "u32 \<Rightarrow> u32 \<times> u32" where
  "rand_r seed = (let seed = seed * 1103515245 + 12345 in (seed, seed AND RAND_MAX))"

section \<open>48-bit numbers\<close>

definition val48 :: "xseed \<Rightarrow> nat" where
  "val48 x = (case x of (x0, x1, x2) \<Rightarrow> unat x0 + 2 ^ 16 * unat x1 + 2 ^ 32 * unat x2)"

lemma val48_less: "val48 x < 2 ^ 48"
proof (cases x)
  case (fields a b c)
  have "unat a < 65536" "unat b < 65536" "unat c < 65536" using unat_less_exp(2) by blast+
  then have "unat a + 65536 * unat b + 4294967296 * unat c < 281474976710656" by linarith
  then show ?thesis using fields by (simp add: val48_def)
qed

text \<open>Multiplying digit by digit.\<close>

lemma digits_mult_add:
  fixes m0 m1 m2 x0 x1 x2 c :: nat
  assumes A: "A = m0 * x0 + c" and B: "B = A div 2 ^ 16 + m0 * x1 + m1 * x0" and C: "C = B div 2 ^ 16 + m0 * x2 + m1 * x1 + m2 * x0"
  shows "((m0 + 2 ^ 16 * m1 + 2 ^ 32 * m2) * (x0 + 2 ^ 16 * x1 + 2 ^ 32 * x2) + c) mod 2 ^ 48 =
    A mod 2 ^ 16 + 2 ^ 16 * (B mod 2 ^ 16) + 2 ^ 32 * (C mod 2 ^ 16)"
proof -
  define a0 a1 b0 b1 c0 c1 where d: "a0 = A mod 65536" "a1 = A div 65536" "b0 = B mod 65536" "b1 = B div 65536" "c0 = C mod 65536" "c1 = C div 65536"
  have abc: "A = a0 + 65536 * a1" "B = b0 + 65536 * b1" "C = c0 + 65536 * c1" by (simp_all add: d)
  have small: "a0 < 65536" "b0 < 65536" "c0 < 65536" by (simp_all add: d)
  let ?h = "m1 * x2 + m2 * x1 + 65536 * (m2 * x2)"
  have "(m0 + 65536 * m1 + 4294967296 * m2) * (x0 + 65536 * x1 + 4294967296 * x2) + c =
      A + 65536 * (m0 * x1 + m1 * x0) + 4294967296 * (m0 * x2 + m1 * x1 + m2 * x0) + 281474976710656 * ?h"
    by (simp add: A algebra_simps)
  also have "A + 65536 * (m0 * x1 + m1 * x0) = a0 + 65536 * B" using abc(1) B d(2) by simp
  also have "a0 + 65536 * B + 4294967296 * (m0 * x2 + m1 * x1 + m2 * x0) = a0 + 65536 * b0 + 4294967296 * C" using abc(2) C d(4) by simp
  also have "a0 + 65536 * b0 + 4294967296 * C + 281474976710656 * ?h =
      (a0 + 65536 * b0 + 4294967296 * c0) + 281474976710656 * (?h + c1)" using abc(3) by simp
  finally have "((m0 + 65536 * m1 + 4294967296 * m2) * (x0 + 65536 * x1 + 4294967296 * x2) + c) mod 281474976710656 =
      (a0 + 65536 * b0 + 4294967296 * c0) mod 281474976710656" by (simp only: mod_mult_self2)
  also have "\<dots> = a0 + 65536 * b0 + 4294967296 * c0" by (rule mod_less) (use small in linarith)
  finally show ?thesis by (simp add: d)
qed

lemma unat_ucast_up: "unat (ucast (x :: u16) :: u64) = unat x"
proof -
  have "unat x < 65536" by (rule unat_less_exp(2))
  then have "unat x < 2 ^ LENGTH(64)" by (rule less_trans) simp
  then show ?thesis by (simp only: unat_ucast_mod mod_less)
qed

lemma unat_mult_u16: "unat (ucast (a :: u16) * ucast (b :: u16) :: u64) = unat a * unat b"
proof -
  have "unat a * unat b < 65536 * 65536" using unat_less_exp(2) [of a] unat_less_exp(2) [of b] by (intro mult_strict_mono) simp_all
  then show ?thesis by (simp add: unat_word_ariths unat_ucast_up)
qed

lemma unat_add_small: "unat (a :: u64) + unat b < 2 ^ 64 \<Longrightarrow> unat (a + b) = unat a + unat b"
  by (simp add: unat_word_ariths)

lemma unat_ucast_down: "unat (ucast (x :: u64) :: u16) = unat x mod 2 ^ 16"
  by (simp add: unat_ucast_mod)

lemma dorand48_val:
  "val48 (dorand48 g x) = (val48 (rand48_mult g) * val48 x + unat (rand48_add g)) mod 2 ^ 48"
proof -
  obtain m0 m1 m2 where m: "rand48_mult g = (m0, m1, m2)" by (cases "rand48_mult g")
  obtain x0 x1 x2 where x: "x = (x0, x1, x2)" by (cases x)
  let ?c = "rand48_add g"
  define A where "A = unat m0 * unat x0 + unat ?c"
  define B where "B = A div 2 ^ 16 + unat m0 * unat x1 + unat m1 * unat x0"
  define C where "C = B div 2 ^ 16 + unat m0 * unat x2 + unat m1 * unat x1 + unat m2 * unat x0"
  have "unat a \<le> 65535" for a :: u16 using unat_less_exp(2) [of a] by linarith
  then have p: "unat a * unat b \<le> 65535 * 65535" for a b :: u16 by (intro mult_mono) simp_all
  have c: "unat ?c < 65536" by (rule unat_less_exp(2))
  have AB: "A \<le> 65535 * 65535 + 65535" using p [of m0 x0] c unfolding A_def by linarith
  then have "A div 2 ^ 16 \<le> 65535" by simp
  then have BB: "B \<le> 3 * 65536 * 65536" using p [of m0 x1] p [of m1 x0] unfolding B_def by linarith
  then have BC: "B div 2 ^ 16 \<le> 3 * 65536" by simp
  define a where "a = (ucast m0 * ucast x0 :: u64) + ucast ?c"
  define b where "b = drop_bit 16 a + ucast m0 * ucast x1 + ucast m1 * ucast x0"
  define e where "e = drop_bit 16 b + ucast m0 * ucast x2 + ucast m1 * ucast x1 + ucast m2 * ucast x0"
  have a: "unat a = A" unfolding a_def A_def
    using AB A_def by (subst unat_add_small) (simp_all add: unat_mult_u16 unat_ucast_up)
  have da: "unat (drop_bit 16 a) = A div 2 ^ 16" by (simp add: unat_drop_bit a)
  have s1: "unat (drop_bit 16 a + ucast m0 * ucast x1) = A div 2 ^ 16 + unat m0 * unat x1"
    using BB unfolding B_def by (subst unat_add_small) (simp_all add: da unat_mult_u16)
  have b: "unat b = B" unfolding b_def B_def
    using BB unfolding B_def by (subst unat_add_small) (simp_all add: s1 unat_mult_u16)
  have db: "unat (drop_bit 16 b) = B div 2 ^ 16" by (simp add: unat_drop_bit b)
  have q: "B div 2 ^ 16 + unat m0 * unat x2 + unat m1 * unat x1 + unat m2 * unat x0 < 2 ^ 40"
    using BC p [of m0 x2] p [of m1 x1] p [of m2 x0] by simp
  have s2: "unat (drop_bit 16 b + ucast m0 * ucast x2) = B div 2 ^ 16 + unat m0 * unat x2"
    using q by (subst unat_add_small) (simp_all add: db unat_mult_u16)
  have s3: "unat (drop_bit 16 b + ucast m0 * ucast x2 + ucast m1 * ucast x1) = B div 2 ^ 16 + unat m0 * unat x2 + unat m1 * unat x1"
    using q by (subst unat_add_small) (simp_all add: s2 unat_mult_u16)
  have e: "unat e = C" unfolding e_def C_def using q by (subst unat_add_small) (simp_all add: s3 unat_mult_u16)
  have "dorand48 g x = (ucast a, ucast b, ucast e)" by (simp add: dorand48_def m x Let_def a_def b_def e_def)
  then have "val48 (dorand48 g x) = A mod 2 ^ 16 + 2 ^ 16 * (B mod 2 ^ 16) + 2 ^ 32 * (C mod 2 ^ 16)"
    by (simp add: val48_def unat_ucast_down a b e)
  also have "\<dots> = (val48 (rand48_mult g) * val48 x + unat ?c) mod 2 ^ 48"
    unfolding m x val48_def prod.case by (rule digits_mult_add [symmetric, OF A_def B_def C_def])
  finally show ?thesis .
qed

section \<open>Properties\<close>

lemma high_32:
  fixes x0 x1 x2 :: u16
  shows "val48 (x0, x1, x2) div 2 ^ 16 = unat x1 + 2 ^ 16 * unat x2"
    and "val48 (x0, x1, x2) div 2 ^ 17 = unat x1 div 2 + 2 ^ 15 * unat x2"
proof -
  have x: "unat x0 < 65536" by (rule unat_less_exp(2))
  have v: "val48 (x0, x1, x2) = unat x0 + (unat x1 + 65536 * unat x2) * 65536" by (simp add: val48_def)
  have "(unat x0 + (unat x1 + 65536 * unat x2) * 65536) div 65536 = (unat x1 + 65536 * unat x2) + unat x0 div 65536"
    by (rule div_mult_self1) simp
  then show "val48 (x0, x1, x2) div 2 ^ 16 = unat x1 + 2 ^ 16 * unat x2" unfolding v using x by simp
  then have "val48 (x0, x1, x2) div 2 ^ 16 div 2 = (unat x1 + 2 * (2 ^ 15 * unat x2)) div 2" by simp
  moreover have "val48 (x0, x1, x2) div 2 ^ 16 div 2 = val48 (x0, x1, x2) div 2 ^ 17" by (simp add: div_mult2_eq [symmetric])
  ultimately show "val48 (x0, x1, x2) div 2 ^ 17 = unat x1 div 2 + 2 ^ 15 * unat x2" by simp
qed

lemma wrap16: "0 \<le> n \<Longrightarrow> n < 65536 \<Longrightarrow> (n + 32768) mod 65536 - 32768 = (if n < 32768 then n else n - 65536)" for n :: int
proof (cases "n < 32768")
  case False
  assume "0 \<le> n" "n < 65536"
  have "(n - 32768 + 65536) mod 65536 = (n - 32768) mod 65536" by (rule mod_add_self2)
  then show ?thesis using False \<open>n < 65536\<close> by (simp add: mod_pos_pos_trivial add.commute)
qed (simp add: mod_pos_pos_trivial)

lemma sint_u16: "sint (x :: u16) = (if unat x < 32768 then int (unat x) else int (unat x) - 65536)"
proof -
  have x: "unat x < 65536" by (rule unat_less_exp(2))
  have "sint x = (int (unat x) + 32768) mod 65536 - 32768"
    by (simp add: sint_uint signed_take_bit_eq_take_bit_shift take_bit_eq_mod)
  also have "\<dots> = (if int (unat x) < 32768 then int (unat x) else int (unat x) - 65536)"
    by (rule wrap16) (use x in linarith)+
  also have "int (unat x) < 32768 \<longleftrightarrow> unat x < 32768" by linarith
  finally show ?thesis .
qed

lemma erand48_val: "snd (erand48 g x) = real (val48 (dorand48 g x)) / 2 ^ 48"
  by (cases "dorand48 g x") (simp add: erand48_def val48_def add_divide_distrib)

lemma nrand48_val: "snd (nrand48 g x) = int (val48 (dorand48 g x) div 2 ^ 17)"
proof (cases "dorand48 g x")
  case (fields x0 x1 x2)
  have u: "uint x2 = int (unat x2)" "uint (drop_bit 1 x1) = int (unat x1 div 2)"
    by (simp_all only: uint_nat unat_drop_bit power_one_right)
  have "snd (nrand48 g x) = uint x2 * 32768 + uint (drop_bit 1 x1)" by (simp add: nrand48_def fields)
  also have "\<dots> = int (unat x1 div 2 + 2 ^ 15 * unat x2)" unfolding u by simp
  finally show ?thesis unfolding fields high_32(2) .
qed

lemma jrand48_val:
  "snd (jrand48 g x) = (let h = int (val48 (dorand48 g x) div 2 ^ 16) in if h < 2 ^ 31 then h else h - 2 ^ 32)"
proof (cases "dorand48 g x")
  case (fields x0 x1 x2)
  have x1: "unat x1 < 65536" by (rule unat_less_exp(2))
  have u: "uint x1 = int (unat x1)" by (rule uint_nat)
  have "snd (jrand48 g x) = sint x2 * 65536 + uint x1" by (simp add: jrand48_def fields)
  also have "\<dots> = (if unat x2 < 32768 then int (unat x2) else int (unat x2) - 65536) * 65536 + int (unat x1)" unfolding u sint_u16 ..
  also have "\<dots> = (if unat x1 + 2 ^ 16 * unat x2 < 2 ^ 31 then int (unat x1 + 2 ^ 16 * unat x2) else int (unat x1 + 2 ^ 16 * unat x2) - 2 ^ 32)"
  proof (cases "unat x2 < 32768")
    case True
    then have "unat x1 + 65536 * unat x2 < 2147483648" using x1 by linarith
    then show ?thesis using True by simp
  next
    case False
    then have "\<not> unat x1 + 65536 * unat x2 < 2147483648" by linarith
    then show ?thesis using False by simp
  qed
  also have "unat x1 + 2 ^ 16 * unat x2 < 2 ^ 31 \<longleftrightarrow> int (unat x1 + 2 ^ 16 * unat x2) < 2 ^ 31"
    by (metis of_nat_less_iff of_nat_numeral of_nat_power)
  finally show ?thesis unfolding fields high_32(1) Let_def .
qed

text \<open>C26. The recurrence. Whatever multiplier and addend are set, one step of the generator is
  \<open>X' = (a X + c) mod 2 ^ 48\<close> on the number that the three digits form; \<open>erand48\<close> returns the fraction
  \<open>X' / 2 ^ 48\<close>, which is below 1, \<open>nrand48\<close> the upper 31 bits of \<open>X'\<close>, and \<open>jrand48\<close> the upper 32 bits as a
  signed number. \<open>drand48\<close>, \<open>lrand48\<close> and \<open>mrand48\<close> do the same on the seed of the library.\<close>

theorem rand48_recurrence:
  "let X' = (val48 (rand48_mult g) * val48 x + unat (rand48_add g)) mod 2 ^ 48 in
     val48 (dorand48 g x) = X' \<and>
     erand48 g x = (dorand48 g x, real X' / 2 ^ 48) \<and> 0 \<le> snd (erand48 g x) \<and> snd (erand48 g x) < 1 \<and>
     nrand48 g x = (dorand48 g x, int (X' div 2 ^ 17)) \<and>
     jrand48 g x = (dorand48 g x, let h = int (X' div 2 ^ 16) in if h < 2 ^ 31 then h else h - 2 ^ 32) \<and>
     drand48 g = (let (y, r) = erand48 g (rand48_seed g) in (g\<lparr>rand48_seed := y\<rparr>, r)) \<and>
     lrand48 g = (let (y, r) = nrand48 g (rand48_seed g) in (g\<lparr>rand48_seed := y\<rparr>, r)) \<and>
     mrand48 g = (let (y, r) = jrand48 g (rand48_seed g) in (g\<lparr>rand48_seed := y\<rparr>, r))"
proof -
  let ?X = "(val48 (rand48_mult g) * val48 x + unat (rand48_add g)) mod 2 ^ 48"
  have v: "val48 (dorand48 g x) = ?X" by (rule dorand48_val)
  have f: "fst (erand48 g x) = dorand48 g x" "fst (nrand48 g x) = dorand48 g x" "fst (jrand48 g x) = dorand48 g x"
    by (simp_all add: erand48_def nrand48_def jrand48_def split: prod.split)
  have "?X < 2 ^ 48" by simp
  then have "real ?X < 2 ^ 48" using of_nat_less_iff [where 'a = real] by fastforce
  then have e: "snd (erand48 g x) = real ?X / 2 ^ 48" "0 \<le> snd (erand48 g x)" "snd (erand48 g x) < 1"
    unfolding erand48_val v by simp_all
  have n: "nrand48 g x = (dorand48 g x, int (?X div 2 ^ 17))" by (rule prod_eqI) (simp_all only: f nrand48_val v fst_conv snd_conv)
  have j: "jrand48 g x = (dorand48 g x, let h = int (?X div 2 ^ 16) in if h < 2 ^ 31 then h else h - 2 ^ 32)"
    by (rule prod_eqI) (simp_all only: f jrand48_val v fst_conv snd_conv)
  have er: "erand48 g x = (dorand48 g x, real ?X / 2 ^ 48)" by (rule prod_eqI) (simp_all only: f e fst_conv snd_conv)
  have l: "drand48 g = (let (y, r) = erand48 g (rand48_seed g) in (g\<lparr>rand48_seed := y\<rparr>, r))"
    "lrand48 g = (let (y, r) = nrand48 g (rand48_seed g) in (g\<lparr>rand48_seed := y\<rparr>, r))"
    "mrand48 g = (let (y, r) = jrand48 g (rand48_seed g) in (g\<lparr>rand48_seed := y\<rparr>, r))"
    by (simp_all add: drand48_def lrand48_def mrand48_def nrand48_def jrand48_def split: prod.split)
  show ?thesis unfolding Let_def [of ?X] by (intro conjI v er e(2,3) n j l)
qed

text \<open>Seeding.\<close>

lemma srand48_val: "val48 (rand48_seed (srand48 g seed)) = (unat seed mod 2 ^ 32) * 2 ^ 16 + 0x330e"
  by (simp add: srand48_def val48_def unat_ucast_down unat_drop_bit mod_mult2_eq [of _ 65536 65536, simplified])

lemma seed48_returns: "seed48 g x = (g', old) \<Longrightarrow> old = rand48_seed g \<and> rand48_seed g' = x"
  by (auto simp: seed48_def Let_def)

end
