(* ===== verification/Spec2Isabelle.thy ===== *)
theory Spec2Isabelle
  imports Uchar16 Wchar_Strings Bionic_Lock Mutex_Properties Semaphore Pthread_Once Pthread_Barrier Pthread_Rwlock Prop_Area Prop_Trie Strtol Property_Seqlock Property_Contexts Contexts_Lookup System_Properties Pthread_Cond Rand48
begin

text \<open>
  A model of parts of xbionic, a build of Android's C library for several hosts, and theorems
  about it. Paths without a directory are under
  \<open>src/platform_bionic-android-vts-12.0_r2/libc/\<close>. The model is that of the 64-bit (LP64) build.

  \<^bold>\<open>The parts and how they interact.\<close> Threads synchronise through mutexes, condition variables,
  reader-writer locks, semaphores, barriers and once-controls, which all sleep and wake
  through the futex wrappers; an internal \<open>Lock\<close> serves the library itself, among others the
  nodes of the property contexts. The system properties are a database in shared memory:
  contexts map a name to the area that holds it, an area is a trie of binary trees, and a
  sequence lock makes reading one property atomic. On top of the character conversions of
  \<open>uchar.h\<close> stand the wide string functions. Integer parsing stands alone, but its character
  classes also serve the parser of the contexts. The \<open>rand48\<close> generator stands alone.

  \<^bold>\<open>The theories.\<close>

  \<^item> \<open>Bionic_Prelude\<close>: machine types, error numbers, facts on words, the contract of an
    encoding (\<open>prefix_codec\<close>), and concurrent systems: a thread is a function that lists its
    possible next steps, \<open>par_step\<close> lets any thread take one, \<open>par_reach\<close> is reachability, and
    \<open>par_invariant\<close>, \<open>par_ghost\<close> and \<open>par_simulation\<close> are the proof rules for it. \<open>par_run\<close> runs a
    given schedule; the examples use it.
  \<^item> \<open>Bionic_Futex\<close>: \<open>bionic/bionic_time_conversions.cpp\<close>, \<open>private/bionic_futex.h\<close> and
    \<open>bionic/bionic_futex.cpp\<close>. The system call is a parameter: \<open>futex_ops\<close> lists the outcomes of
    its parts and \<open>futex_laws\<close> states what its manual promises. \<open>sleep_protocol\<close>, \<open>futex_client\<close> and
    \<open>wake_all_client\<close> prove once that a component that follows a pattern loses no wake-up.
  \<^item> \<open>Bionic_Lock\<close>: \<open>private/bionic_lock.h\<close> and \<open>bionic/pthread_spinlock.cpp\<close>.
  \<^item> \<open>Pthread_Mutex\<close>, \<open>Mutex_Invariant\<close>, \<open>Mutex_Properties\<close>: \<open>bionic/pthread_mutex.cpp\<close>. Each atomic access
    is a step; the state word is decoded into type, sharing, counter and lock state. Mutual
    exclusion, no lost wake-ups, the errors of owners and others, priority inheritance.
  \<^item> \<open>Pthread_Cond\<close>: \<open>bionic/pthread_cond.cpp\<close>. A broadcast leaves nobody asleep that it should wake.
  \<^item> \<open>Pthread_Rwlock\<close>: \<open>bionic/pthread_rwlock.cpp\<close>. Exclusion of writers and readers, preference of writers.
  \<^item> \<open>Semaphore\<close>: \<open>bionic/semaphore.cpp\<close>. Conservation of the value, no lost wake-ups.
  \<^item> \<open>Pthread_Once\<close>, \<open>Pthread_Barrier\<close>: \<open>bionic/pthread_once.cpp\<close>, \<open>bionic/pthread_barrier.cpp\<close>. The
    routine runs exactly once; a barrier separates its cycles, and destroying it, step by step among the
    threads that leave it, waits for them.
  \<^item> \<open>Prop_Area\<close>, \<open>Prop_Trie\<close>: \<open>system_properties/prop_area.cpp\<close>, \<open>prop_info.cpp\<close>. The area is a map
    from offsets to objects; \<open>pa_inv\<close> describes a well-formed trie by a ghost function from paths to
    trees. Finding, adding and visiting return, and refine operations on a map. The length of a part of a name
    is cut to 32 bits as in the code, so the map has the names shorter than \<open>2 ^ 32\<close>.
  \<^item> \<open>Property_Seqlock\<close>: \<open>ReadMutablePropertyValue\<close>, \<open>Update\<close> and \<open>Wait\<close> of
    \<open>system_properties/system_properties.cpp\<close> as concurrent steps, byte by byte.
  \<^item> \<open>Property_Contexts\<close>, \<open>Contexts_Lookup\<close>: \<open>system_properties/contexts_*.cpp\<close>, \<open>context_node.cpp\<close> and
    the mapping functions of \<open>prop_area.cpp\<close>, with the static sizes they set and the protection of the pages.
    The longest prefix decides the context, when wild cards are a single star; \<open>star_shadows\<close> shows what other
    wild cards do.
  \<^item> \<open>System_Properties\<close>: all operations of \<open>system_properties.cpp\<close> run one after the other, composed from
    the contexts and the areas through the interface \<open>area_provider\<close>, which every kind of contexts
    implements. Start-up gives a well-formed state; adding, updating and reading back in the process that has the
    areas mapped for writing; the other processes change nothing.
  \<^item> \<open>Strtol\<close>: \<open>bionic/strtol.cpp\<close> and the character classes. The subject of a string is described by its form, and
    its value by a positional sum; the code gives that value brought into range.
  \<^item> \<open>Uchar\<close>, \<open>Uchar16\<close>, \<open>Wchar_Strings\<close>: \<open>bionic/mbrtoc32.cpp\<close>, \<open>c32rtomb.cpp\<close>, \<open>mbrtoc16.cpp\<close>, \<open>c16rtomb.cpp\<close>,
    \<open>wchar.cpp\<close>. Decoding gives the scalar value whose bytes come next, and nothing else is accepted; round trips;
    buffers are not overrun.
  \<^item> \<open>Rand48\<close>: \<open>_rand48.c\<close>, the functions over it, and \<open>rand_r\<close>. The partial products in 16-bit limbs give
    the 48-bit recurrence.

  \<^bold>\<open>Conventions.\<close> Every atomic access, futex call or access to a plain shared variable is one
  step, and steps interleave in any order; memory is sequentially consistent, which the
  orders of the atomic operations and the fences are meant to give the correctly locked
  parts. Fields that only observe a run (tickets, counts of posts, the last value written)
  are named as such where they are declared. Integers are words of their width where they can
  wrap; lengths and offsets are natural numbers where the code keeps them small. Failing is a
  value: error numbers as the code returns them, \<open>None\<close> for an abort, for undefined behaviour (an overflow of signed
  integers included), for a store to memory that is mapped for reading only, or for not returning. No fuel is used: loops are structural or have a termination proof, or are
  \<open>partial_function (option)\<close> with a theorem that they return. Counters wrap where the code's do,
  and the theorems say so: \<open>2 ^ 24\<close> stores to the serial of a property during one read, \<open>2 ^ 30\<close>
  increments of a condition variable between reading the state and the futex call.

  \<^bold>\<open>Not modelled.\<close> The dynamic linker, thread creation, start-up and the wrappers of system
  calls, whose work is done by the kernel; memory allocators (jemalloc, the debugging
  allocator), which work on raw pages; streams and formatted output, the resolver, time zones
  and the users database, which are I/O or depend on files of the device; the mathematical
  library; assembly routines; logging, which is another project carried along, and the wrappers
  of \<open>libcutils\<close>. Of the modelled files: the 32-bit variants (\<open>PIMutexAllocator\<close>, the compatibility
  functions of condition variables), log messages, and the memory orders.
\<close>

end
